(* ===== verification/Prelude.thy ===== *)
theory Prelude
  imports Complex_Main
begin

text \<open>
  Shared vocabulary of the development.

  \<^item> Fixed-width integers of the C++ sources are modelled on \<open>int\<close>; an unsigned
    64-bit (32-bit) result is reduced with \<open>u64\<close> (\<open>u32\<close>) wherever the source can
    wrap around, and \<open>int64_range\<close> / \<open>u64_range\<close> name the representable values.
  \<^item> C++ integer division truncates towards zero: \<open>cdiv\<close>.
  \<^item> A C++ exception is the left summand of \<open>exc + 'a\<close>.
  \<^item> \<open>dec m e\<close> is the real number \<open>m * 10 ^ e\<close> a decimal mantissa/exponent pair
    denotes.
\<close>

named_theorems amount_simps \<open>arithmetic facts used by the amount components\<close>

datatype exc =
    overflow_error string
  | runtime_error string
  | logic_error string
  | div_by_zero
  | null_deref

type_synonym 'a result = "exc + 'a"

definition u64 :: "int \<Rightarrow> int" where
  "u64 x = x mod 2 ^ 64"

definition u32 :: "int \<Rightarrow> int" where
  "u32 x = x mod 2 ^ 32"

definition u64_max :: int where
  "u64_max = 2 ^ 64 - 1"

definition int64_max :: int where
  "int64_max = 2 ^ 63 - 1"

definition u64_range :: "int \<Rightarrow> bool" where
  "u64_range x \<longleftrightarrow> 0 \<le> x \<and> x < 2 ^ 64"

definition u32_range :: "int \<Rightarrow> bool" where
  "u32_range x \<longleftrightarrow> 0 \<le> x \<and> x < 2 ^ 32"

text \<open>The values whose negation is also an \<^verbatim>\<open>std::int64_t\<close>.\<close>

definition int64_range :: "int \<Rightarrow> bool" where
  "int64_range x \<longleftrightarrow> - (2 ^ 63) < x \<and> x < 2 ^ 63"

definition cdiv :: "int \<Rightarrow> int \<Rightarrow> int" where
  "cdiv a b = sgn a * sgn b * (\<bar>a\<bar> div \<bar>b\<bar>)"

definition dec :: "int \<Rightarrow> int \<Rightarrow> real" where
  "dec m e = of_int m * 10 powi e"

lemma u64_id [simp]: "u64_range x \<Longrightarrow> u64 x = x"
  by (simp add: u64_def u64_range_def)

lemma u64_in_range [simp]: "u64_range (u64 x)"
  by (simp add: u64_def u64_range_def)

lemma u32_id [simp]: "u32_range x \<Longrightarrow> u32 x = x"
  by (simp add: u32_def u32_range_def)

lemma u32_in_range [simp]: "u32_range (u32 x)"
  by (simp add: u32_def u32_range_def)

lemma cdiv_nonneg: "0 \<le> a \<Longrightarrow> 0 < b \<Longrightarrow> cdiv a b = a div b"
  by (cases "a = 0") (simp_all add: cdiv_def)

lemma cdiv_minus: "cdiv (- a) b = - cdiv a b"
  by (simp add: cdiv_def sgn_minus)

lemma cdiv_abs: "0 < b \<Longrightarrow> \<bar>cdiv a b\<bar> = \<bar>a\<bar> div b"
  by (cases "a = 0") (auto simp: cdiv_def abs_mult pos_imp_zdiv_nonneg_iff)

lemma div_real_close:
  fixes n d :: int
  assumes "0 < d"
  shows "real_of_int (n div d) \<le> n / d" "n / d < real_of_int (n div d) + 1"
  unfolding floor_divide_of_int_eq [of n d, where 'a = real, symmetric] by linarith+

subsection \<open>Decimal values\<close>

lemma dec_0 [simp]: "dec 0 e = 0"
  by (simp add: dec_def)

lemma dec_minus: "dec (- m) e = - dec m e"
  by (simp add: dec_def)

lemma dec_add: "dec (a + b) e = dec a e + dec b e"
  by (simp add: dec_def algebra_simps)

lemma dec_abs: "\<bar>dec m e\<bar> = dec \<bar>m\<bar> e"
  by (simp add: dec_def abs_mult)

lemma dec_mono: "a \<le> b \<Longrightarrow> dec a e \<le> dec b e"
  by (simp add: dec_def)

lemma dec_less_iff [simp]: "dec a e < dec b e \<longleftrightarrow> a < b"
  by (simp add: dec_def)

lemma dec_le_iff [simp]: "dec a e \<le> dec b e \<longleftrightarrow> a \<le> b"
  by (simp add: dec_def)

lemma dec_eq_iff [simp]: "dec a e = dec b e \<longleftrightarrow> a = b"
  by (simp add: dec_def)

lemma dec_pos_iff [simp]: "0 < dec a e \<longleftrightarrow> 0 < a"
  using dec_less_iff [of 0 e a] by simp

lemma dec_nonneg_iff [simp]: "0 \<le> dec a e \<longleftrightarrow> 0 \<le> a"
  using dec_le_iff [of 0 e a] by simp

lemma dec_neg_iff [simp]: "dec a e < 0 \<longleftrightarrow> a < 0"
  using dec_less_iff [of a e 0] by simp

lemma dec_shift: "dec (10 * m) e = dec m (e + 1)"
  by (simp add: dec_def power_int_add)

lemma dec_shift_down: "dec (10 * m) (e - 1) = dec m e"
  using dec_shift [of m "e - 1"] by simp

lemma dec_shift_pow: "dec (m * 10 ^ k) e = dec m (e + int k)"
  by (simp add: dec_def power_int_add mult_ac)

lemma dec_expand:
  assumes "e \<le> f"
  shows "dec m f = dec (m * 10 ^ nat (f - e)) e"
  using assms by (simp add: dec_shift_pow)

lemma dec_exp_mono: "0 \<le> m \<Longrightarrow> e \<le> f \<Longrightarrow> dec m e \<le> dec m f"
  by (simp add: dec_def mult_left_mono power_int_increasing)

text \<open>A larger exponent dominates a bounded mantissa.\<close>

lemma dec_lt_exp:
  assumes "e < f" "a < 10 * b" "0 \<le> b"
  shows "dec a e < dec b f"
proof -
  have "dec a e < dec (10 * b) e" using assms by simp
  also have "\<dots> = dec b (e + 1)" by (rule dec_shift)
  also have "\<dots> \<le> dec b f" using assms by (intro dec_exp_mono) auto
  finally show ?thesis .
qed

subsection \<open>Results\<close>

definition rbind :: "'a result \<Rightarrow> ('a \<Rightarrow> 'b result) \<Rightarrow> 'b result" where
  "rbind r f = (case r of Inl e \<Rightarrow> Inl e | Inr x \<Rightarrow> f x)"

lemma rbind_simps [simp]:
  "rbind (Inl e) f = Inl e"
  "rbind (Inr x) f = f x"
  by (simp_all add: rbind_def)

lemma rbind_Inr_iff: "rbind r f = Inr y \<longleftrightarrow> (\<exists>x. r = Inr x \<and> f x = Inr y)"
  by (cases r) auto

lemma rbind_Inl_iff: "rbind r f = Inl e \<longleftrightarrow> r = Inl e \<or> (\<exists>x. r = Inr x \<and> f x = Inl e)"
  by (cases r) auto

end
