(* ===== verification/IOUAmount.thy ===== *)
theory IOUAmount
  imports Prelude
begin

text \<open>
  \<^verbatim>\<open>protocol/IOUAmount.h\<close>, \<^verbatim>\<open>protocol/impl/IOUAmount.cpp\<close>: decimal floating
  point amounts of issued currencies. The value of an amount is \<open>iou_val\<close>; the
  canonical representations are \<open>iou_ok\<close>. The lemmas describe the two scaling loops
  of \<open>normalize\<close> in closed form, and with them when it throws, when it
  truncates to zero and what it keeps otherwise.
\<close>

record IOUAmount =
  mantissa :: int
  exponent :: int

definition minMantissa :: int where "minMantissa = 1000000000000000"
definition maxMantissa :: int where "maxMantissa = 9999999999999999"
definition minExponent :: int where "minExponent = - 96"
definition maxExponent :: int where "maxExponent = 80"

declare minMantissa_def [amount_simps] maxMantissa_def [amount_simps]
  minExponent_def [amount_simps] maxExponent_def [amount_simps]

definition iou_zero :: IOUAmount where
  "iou_zero = \<lparr>mantissa = 0, exponent = - 100\<rparr>"

text \<open>The two loops of \<^verbatim>\<open>IOUAmount::normalize\<close>.\<close>

function normalize_up :: "int \<Rightarrow> int \<Rightarrow> int \<times> int" where
  "normalize_up m e =
     (if m < minMantissa \<and> e > minExponent then normalize_up (m * 10) (e - 1) else (m, e))"
  by pat_completeness auto
termination
  by (relation "measure (\<lambda>(m, e). nat (e - minExponent))") auto

function normalize_down :: "int \<Rightarrow> int \<Rightarrow> (int \<times> int) result" where
  "normalize_down m e =
     (if m > maxMantissa
      then if e \<ge> maxExponent then Inl (overflow_error ''IOUAmount::normalize'')
           else normalize_down (m div 10) (e + 1)
      else Inr (m, e))"
  by pat_completeness auto
termination
  by (relation "measure (\<lambda>(m, e). nat m)") (auto simp: maxMantissa_def)

declare normalize_up.simps [simp del] normalize_down.simps [simp del]

definition normalize :: "IOUAmount \<Rightarrow> IOUAmount result" where
  "normalize a =
     (if mantissa a = 0 then Inr iou_zero
      else
        let negative = mantissa a < 0;
            m0 = (if negative then - mantissa a else mantissa a);
            (m1, e1) = normalize_up m0 (exponent a)
        in rbind (normalize_down m1 e1) (\<lambda>(m2, e2).
             if e2 < minExponent \<or> m2 < minMantissa then Inr iou_zero
             else if e2 > maxExponent then Inl (overflow_error ''value overflow'')
             else Inr \<lparr>mantissa = (if negative then - m2 else m2), exponent = e2\<rparr>))"

text \<open>The constructor \<^verbatim>\<open>IOUAmount (mantissa, exponent)\<close> and unary minus.\<close>

definition mk_iou :: "int \<Rightarrow> int \<Rightarrow> IOUAmount result" where
  "mk_iou m e = normalize \<lparr>mantissa = m, exponent = e\<rparr>"

definition iou_neg :: "IOUAmount \<Rightarrow> IOUAmount result" where
  "iou_neg a = mk_iou (- mantissa a) (exponent a)"

definition iou_signum :: "IOUAmount \<Rightarrow> int" where
  "iou_signum a = (if mantissa a < 0 then - 1 else if mantissa a \<noteq> 0 then 1 else 0)"

text \<open>\<^verbatim>\<open>operator+=\<close>: the operand with the smaller exponent is shifted right.\<close>

function shift_to :: "int \<Rightarrow> int \<Rightarrow> int \<Rightarrow> int \<times> int" where
  "shift_to m e t = (if e < t then shift_to (cdiv m 10) (e + 1) t else (m, e))"
  by pat_completeness auto
termination
  by (relation "measure (\<lambda>(m, e, t). nat (t - e))") auto

declare shift_to.simps [simp del]

definition iou_add :: "IOUAmount \<Rightarrow> IOUAmount \<Rightarrow> IOUAmount result" where
  "iou_add a b =
     (if iou_signum b = 0 then Inr a
      else if iou_signum a = 0 then Inr b
      else
        let (m1, e1) = shift_to (mantissa a) (exponent a) (exponent b);
            (m, e) = shift_to (mantissa b) (exponent b) e1;
            s = m1 + m
        in if s \<ge> - 10 \<and> s \<le> 10 then Inr iou_zero
           else normalize \<lparr>mantissa = s, exponent = e1\<rparr>)"

definition iou_sub :: "IOUAmount \<Rightarrow> IOUAmount \<Rightarrow> IOUAmount result" where
  "iou_sub a b = rbind (iou_neg b) (iou_add a)"

definition iou_less :: "IOUAmount \<Rightarrow> IOUAmount \<Rightarrow> bool" where
  "iou_less a b =
     (let lneg = mantissa a < 0; rneg = mantissa b < 0 in
      if lneg \<noteq> rneg then lneg
      else if mantissa a = 0 then mantissa b > 0
      else if mantissa b = 0 then False
      else if exponent a > exponent b then lneg
      else if exponent a < exponent b then \<not> lneg
      else mantissa a < mantissa b)"

subsection \<open>Values and canonical amounts\<close>

definition iou_val :: "IOUAmount \<Rightarrow> real" where
  "iou_val a = dec (mantissa a) (exponent a)"

definition iou_ok :: "IOUAmount \<Rightarrow> bool" where
  "iou_ok a \<longleftrightarrow> a = iou_zero \<or>
     minMantissa \<le> \<bar>mantissa a\<bar> \<and> \<bar>mantissa a\<bar> \<le> maxMantissa \<and>
     minExponent \<le> exponent a \<and> exponent a \<le> maxExponent"

lemma iou_val_zero [simp]: "iou_val iou_zero = 0"
  by (simp add: iou_val_def iou_zero_def)

lemma iou_ok_zero [simp]: "iou_ok iou_zero"
  by (simp add: iou_ok_def)

subsection \<open>The loops in closed form\<close>

lemma normalize_up_form:
  assumes "0 < m"
  obtains k where "normalize_up m e = (m * 10 ^ k, e - int k)"
    "minMantissa \<le> m * 10 ^ k \<or> e - int k \<le> minExponent"
    "k = 0 \<or> m * 10 ^ k \<le> maxMantissa \<and> minExponent \<le> e - int k"
proof -
  have "\<exists>k. normalize_up m e = (m * 10 ^ k, e - int k) \<and>
      (minMantissa \<le> m * 10 ^ k \<or> e - int k \<le> minExponent) \<and>
      (k = 0 \<or> m * 10 ^ k \<le> maxMantissa \<and> minExponent \<le> e - int k)"
    using assms
  proof (induction m e rule: normalize_up.induct)
    case (1 m e)
    show ?case
    proof (cases "m < minMantissa \<and> e > minExponent")
      case True
      with "1.IH" "1.prems" obtain k where
        k: "normalize_up (m * 10) (e - 1) = (m * 10 * 10 ^ k, e - 1 - int k)"
        "minMantissa \<le> m * 10 * 10 ^ k \<or> e - 1 - int k \<le> minExponent"
        "k = 0 \<or> m * 10 * 10 ^ k \<le> maxMantissa \<and> minExponent \<le> e - 1 - int k"
        by auto
      have "normalize_up m e = (m * 10 ^ Suc k, e - int (Suc k))"
        using True k(1) by (simp add: normalize_up.simps [of m e] algebra_simps)
      moreover have "minMantissa \<le> m * 10 ^ Suc k \<or> e - int (Suc k) \<le> minExponent"
        using k(2) by (auto simp: algebra_simps)
      moreover have "m * 10 ^ Suc k \<le> maxMantissa \<and> minExponent \<le> e - int (Suc k)"
      proof (cases "k = 0")
        case True
        with \<open>m < minMantissa \<and> e > minExponent\<close> show ?thesis
          by (auto simp: amount_simps)
      next
        case False
        with k(3) show ?thesis by (auto simp: algebra_simps)
      qed
      ultimately show ?thesis by blast
    next
      case False
      then show ?thesis
        by (intro exI [of _ 0]) (auto simp: normalize_up.simps [of m e])
    qed
  qed
  then show ?thesis using that by blast
qed

lemma div_10_pow: "m div 10 div 10 ^ j = (m :: int) div 10 ^ Suc j"
  by (simp add: zdiv_zmult2_eq)

text \<open>
  \<open>normalize_down\<close> drops digits until the mantissa fits; it throws exactly when that
  would push the exponent beyond the maximum.
\<close>

lemma normalize_down_form:
  "\<exists>j. (normalize_down m e = Inr (m div 10 ^ j, e + int j) \<and> m div 10 ^ j \<le> maxMantissa \<and>
         (j = 0 \<or> minMantissa \<le> m div 10 ^ j \<and> e + int j \<le> maxExponent)) \<or>
       (normalize_down m e = Inl (overflow_error ''IOUAmount::normalize'') \<and>
         maxMantissa < m div 10 ^ j \<and> maxExponent \<le> e + int j)"
proof (induction m e rule: normalize_down.induct)
  case (1 m e)
  consider (fits) "m \<le> maxMantissa" | (over) "m > maxMantissa" "e \<ge> maxExponent"
    | (step) "m > maxMantissa" "e < maxExponent" by linarith
  then show ?case
  proof cases
    case fits
    then show ?thesis by (intro exI [of _ 0]) (simp add: normalize_down.simps [of m e])
  next
    case over
    then show ?thesis by (intro exI [of _ 0]) (simp add: normalize_down.simps [of m e])
  next
    case step
    let ?r = "normalize_down (m div 10) (e + 1)"
    have eq: "normalize_down m e = ?r"
      using step by (simp add: normalize_down.simps [of m e])
    from "1.IH" step obtain j where j:
      "(?r = Inr (m div 10 div 10 ^ j, e + 1 + int j) \<and> m div 10 div 10 ^ j \<le> maxMantissa \<and>
         (j = 0 \<or> minMantissa \<le> m div 10 div 10 ^ j \<and> e + 1 + int j \<le> maxExponent)) \<or>
       (?r = Inl (overflow_error ''IOUAmount::normalize'') \<and>
         maxMantissa < m div 10 div 10 ^ j \<and> maxExponent \<le> e + 1 + int j)"
      by auto
    have base: "minMantissa \<le> m div 10 \<and> e + 1 \<le> maxExponent"
      using step by (simp add: amount_simps)
    from j base eq show ?thesis
      by (intro exI [of _ "Suc j"]) (auto simp: div_10_pow algebra_simps)
  qed
qed


lemma dec_trunc:
  assumes "0 \<le> m"
  shows "dec (m div 10 ^ j) (e + int j) \<le> dec m e"
    and "dec m e < dec (m div 10 ^ j + 1) (e + int j)"
proof -
  have le: "m div 10 ^ j * 10 ^ j \<le> m"
    by (metis div_mult_mod_eq le_add_same_cancel1 pos_mod_sign zero_less_numeral zero_less_power)
  have lt: "m < (m div 10 ^ j + 1) * 10 ^ j"
    by (metis add.commute add_less_cancel_left distrib_right div_mult_mod_eq mult_1 pos_mod_bound
        zero_less_numeral zero_less_power)
  show "dec (m div 10 ^ j) (e + int j) \<le> dec m e"
    using le by (simp flip: dec_shift_pow)
  show "dec m e < dec (m div 10 ^ j + 1) (e + int j)"
    using lt by (simp flip: dec_shift_pow)
qed

lemma dec_overflow: "minMantissa \<le> m \<Longrightarrow> maxExponent < e \<Longrightarrow> dec 1 96 \<le> dec m e"
proof -
  assume "minMantissa \<le> m" "maxExponent < e"
  have "dec 1 96 = dec minMantissa 81"
    using dec_shift_pow [of 1 15 81] by (simp add: amount_simps)
  also have "\<dots> \<le> dec minMantissa e"
    using \<open>maxExponent < e\<close> by (intro dec_exp_mono) (auto simp: amount_simps)
  also have "\<dots> \<le> dec m e" using \<open>minMantissa \<le> m\<close> by simp
  finally show ?thesis .
qed

lemma dec_underflow: "m < minMantissa \<Longrightarrow> e \<le> minExponent \<Longrightarrow> dec m e < dec 1 (- 81)"
proof -
  assume "m < minMantissa" "e \<le> minExponent"
  then have "dec m e < dec minMantissa e" by simp
  also have "\<dots> \<le> dec minMantissa minExponent"
    using \<open>e \<le> minExponent\<close> by (intro dec_exp_mono) (auto simp: amount_simps)
  also have "\<dots> = dec 1 (- 81)"
    using dec_shift_pow [of 1 15 "- 96"] by (simp add: amount_simps)
  finally show ?thesis .
qed

text \<open>What \<open>normalize\<close> does with a positive mantissa.\<close>

definition norm_spec :: "int \<Rightarrow> int \<Rightarrow> IOUAmount result \<Rightarrow> bool" where
  "norm_spec m e r =
     (case r of
        Inl x \<Rightarrow> dec 1 96 \<le> dec m e
      | Inr a \<Rightarrow>
          (a = iou_zero \<and> dec m e < dec 1 (- 81)) \<or>
          (minMantissa \<le> mantissa a \<and> mantissa a \<le> maxMantissa \<and>
           minExponent \<le> exponent a \<and> exponent a \<le> maxExponent \<and>
           iou_val a \<le> dec m e \<and> dec m e < dec (mantissa a + 1) (exponent a)))"

lemma dec_below_min: "m \<le> maxMantissa \<Longrightarrow> e < minExponent \<Longrightarrow> dec (m + 1) e \<le> dec 1 (- 81)"
proof -
  assume m: "m \<le> maxMantissa" and e: "e < minExponent"
  have "dec (m + 1) e \<le> dec (10 * minMantissa) e" using m by (simp add: amount_simps)
  also have "\<dots> = dec minMantissa (e + 1)" by (rule dec_shift)
  also have "\<dots> \<le> dec minMantissa minExponent" using e by (intro dec_exp_mono) (auto simp: amount_simps)
  also have "\<dots> = dec 1 (- 81)" using dec_shift_pow [of 1 15 "- 96"] by (simp add: amount_simps)
  finally show ?thesis .
qed

lemma dec_above_max: "maxMantissa < m \<Longrightarrow> maxExponent \<le> e \<Longrightarrow> dec 1 96 \<le> dec m e"
proof -
  assume m: "maxMantissa < m" and e: "maxExponent \<le> e"
  have "dec 1 96 \<le> dec minMantissa (e + 1)" using e by (intro dec_overflow) auto
  also have "\<dots> = dec (10 * minMantissa) e" by (simp add: dec_shift)
  also have "\<dots> \<le> dec m e" using m by (simp add: amount_simps)
  finally show ?thesis .
qed

lemma normalize_pos:
  assumes "0 < m"
  shows "norm_spec m e (normalize \<lparr>mantissa = m, exponent = e\<rparr>)"
proof -
  obtain k where up: "normalize_up m e = (m * 10 ^ k, e - int k)"
    "minMantissa \<le> m * 10 ^ k \<or> e - int k \<le> minExponent"
    using normalize_up_form [OF assms] by metis
  define m1 e1 where "m1 = m * 10 ^ k" and "e1 = e - int k"
  have m1: "0 < m1" and V: "dec m1 e1 = dec m e"
    using assms by (simp_all add: m1_def e1_def dec_shift_pow)
  have n: "normalize \<lparr>mantissa = m, exponent = e\<rparr> =
      rbind (normalize_down m1 e1) (\<lambda>(m2, e2).
             if e2 < minExponent \<or> m2 < minMantissa then Inr iou_zero
             else if e2 > maxExponent then Inl (overflow_error ''value overflow'')
             else Inr \<lparr>mantissa = m2, exponent = e2\<rparr>)"
    using assms up(1) by (simp add: normalize_def m1_def e1_def cong: if_cong)
  from normalize_down_form [of m1 e1] obtain j where j:
    "(normalize_down m1 e1 = Inr (m1 div 10 ^ j, e1 + int j) \<and> m1 div 10 ^ j \<le> maxMantissa \<and>
         (j = 0 \<or> minMantissa \<le> m1 div 10 ^ j \<and> e1 + int j \<le> maxExponent)) \<or>
       (normalize_down m1 e1 = Inl (overflow_error ''IOUAmount::normalize'') \<and>
         maxMantissa < m1 div 10 ^ j \<and> maxExponent \<le> e1 + int j)" by blast
  define m2 e2 where "m2 = m1 div 10 ^ j" and "e2 = e1 + int j"
  note tr = dec_trunc [where m = m1 and j = j and e = e1, unfolded V, folded m2_def e2_def]
  from j consider
      (ok) "normalize_down m1 e1 = Inr (m2, e2)" "m2 \<le> maxMantissa" "j = 0 \<or> minMantissa \<le> m2"
    | (over) "normalize_down m1 e1 = Inl (overflow_error ''IOUAmount::normalize'')"
        "maxMantissa < m2" "maxExponent \<le> e2"
    by (auto simp: m2_def e2_def)
  then show ?thesis
  proof cases
    case over
    then show ?thesis using dec_above_max [OF over(2,3)] tr m1 n by (simp add: norm_spec_def)
  next
    case ok
    have under: "dec m e < dec 1 (- 81)" if "e2 < minExponent \<or> m2 < minMantissa"
    proof (cases "m2 < minMantissa")
      case True
      with ok(3) have "j = 0" by auto
      then have "m1 < minMantissa" "e1 \<le> minExponent"
        using True up(2) by (auto simp: m2_def m1_def e1_def)
      then show ?thesis using dec_underflow V by metis
    next
      case False
      with that have "e2 < minExponent" by simp
      have "dec m e < dec (m2 + 1) e2" using tr(2) m1 by simp
      also have "\<dots> \<le> dec 1 (- 81)" by (rule dec_below_min [OF ok(2) \<open>e2 < minExponent\<close>])
      finally show ?thesis .
    qed
    have over: "dec 1 96 \<le> dec m e" if "minMantissa \<le> m2" "maxExponent < e2"
      using dec_overflow [OF that] tr(1) m1 by simp
    show ?thesis
      using ok tr m1 under over n by (auto simp: norm_spec_def iou_val_def not_less)
  qed
qed

lemma normalize_neg:
  "normalize \<lparr>mantissa = - m, exponent = e\<rparr> =
     rbind (normalize \<lparr>mantissa = m, exponent = e\<rparr>)
       (\<lambda>a. Inr \<lparr>mantissa = - mantissa a, exponent = exponent a\<rparr>)"
  if "0 < m"
  using that by (cases "normalize_up m e"; cases "normalize_down (fst (normalize_up m e)) (snd (normalize_up m e))")
    (auto simp: normalize_def iou_zero_def split: prod.splits)


lemma normalize_cases:
  "case normalize \<lparr>mantissa = m, exponent = e\<rparr> of
     Inl x \<Rightarrow> dec 1 96 \<le> \<bar>dec m e\<bar>
   | Inr a \<Rightarrow> \<bar>dec m e\<bar> < dec 1 96 \<and> iou_ok a \<and>
       (if \<bar>dec m e\<bar> < dec 1 (- 81) then a = iou_zero
        else a \<noteq> iou_zero \<and> sgn (mantissa a) = sgn m \<and>
             \<bar>iou_val a\<bar> \<le> \<bar>dec m e\<bar> \<and> \<bar>dec m e\<bar> < \<bar>iou_val a\<bar> + dec 1 (exponent a))"
proof -
  have small: "dec (1::int) (- 81) < dec 1 96" by (rule dec_lt_exp) auto
  have low: "dec 1 (- 81) \<le> dec a x" if "minMantissa \<le> a" "minExponent \<le> x" for a x
  proof -
    have "dec 1 (- 81) = dec minMantissa minExponent"
      using dec_shift_pow [of 1 15 "- 96"] by (simp add: amount_simps)
    also have "\<dots> \<le> dec minMantissa x"
      using that by (intro dec_exp_mono) (auto simp: amount_simps)
    also have "\<dots> \<le> dec a x" using that by simp
    finally show ?thesis .
  qed
  have high: "dec (a + 1) x \<le> dec 1 96" if "a \<le> maxMantissa" "x \<le> maxExponent" for a x
  proof -
    have "dec (a + 1) x \<le> dec (10 * minMantissa) x" using that by (simp add: amount_simps)
    also have "\<dots> \<le> dec (10 * minMantissa) maxExponent"
      using that by (intro dec_exp_mono) (auto simp: amount_simps)
    also have "\<dots> = dec 1 96"
      using dec_shift_pow [of 1 16 80] by (simp add: amount_simps)
    finally show ?thesis .
  qed
  have pos: "case normalize \<lparr>mantissa = k, exponent = e\<rparr> of
     Inl x \<Rightarrow> dec 1 96 \<le> dec k e
   | Inr a \<Rightarrow> dec k e < dec 1 96 \<and>
       (if dec k e < dec 1 (- 81) then a = iou_zero
        else minMantissa \<le> mantissa a \<and> mantissa a \<le> maxMantissa \<and>
             minExponent \<le> exponent a \<and> exponent a \<le> maxExponent \<and>
             iou_val a \<le> dec k e \<and> dec k e < dec (mantissa a + 1) (exponent a))"
    if "0 < k" for k
    using normalize_pos [OF that, of e] small low [of "mantissa _" "exponent _"]
      high [of "mantissa _" "exponent _"]
    by (fastforce simp: norm_spec_def iou_val_def split: sum.splits)
  have fin: ?thesis if k: "0 < k" "m = k \<or> m = - k" for k
    using pos [OF k(1)] k normalize_neg [OF k(1), of e]
    by (cases "normalize \<lparr>mantissa = k, exponent = e\<rparr>")
      (auto simp: dec_minus dec_abs iou_ok_def iou_val_def iou_zero_def dec_add amount_simps
        split: if_splits)
  show ?thesis
  proof (cases "m = 0")
    case True
    then show ?thesis by (simp add: normalize_def)
  next
    case False
    then show ?thesis using fin [of m] fin [of "- m"] by (cases "0 < m") auto
  qed
qed


subsection \<open>Comparison\<close>

lemma iou_ok_pos: "iou_ok a \<Longrightarrow> 0 < mantissa a \<Longrightarrow>
    minMantissa \<le> mantissa a \<and> mantissa a \<le> maxMantissa"
  by (auto simp: iou_ok_def iou_zero_def)

lemma iou_ok_negative: "iou_ok a \<Longrightarrow> mantissa a < 0 \<Longrightarrow>
    minMantissa \<le> - mantissa a \<and> - mantissa a \<le> maxMantissa"
  by (auto simp: iou_ok_def iou_zero_def)

lemma dec_less_same_sign:
  assumes "minMantissa \<le> a" "a \<le> maxMantissa" "minMantissa \<le> b" "b \<le> maxMantissa"
  shows "dec a e < dec b f \<longleftrightarrow> e < f \<or> e = f \<and> a < b"
proof -
  have "dec a e < dec b f" if "e < f"
    using that assms by (intro dec_lt_exp) (auto simp: amount_simps)
  moreover have "dec b f < dec a e" if "f < e"
    using that assms by (intro dec_lt_exp) (auto simp: amount_simps)
  ultimately show ?thesis by (cases e f rule: linorder_cases) auto
qed

lemma iou_less_value:
  assumes "iou_ok a" "iou_ok b"
  shows "iou_less a b \<longleftrightarrow> iou_val a < iou_val b"
proof -
  consider (opposite) "(mantissa a < 0) \<noteq> (mantissa b < 0)"
    | (zero) "\<not> mantissa a < 0" "\<not> mantissa b < 0" "mantissa a = 0 \<or> mantissa b = 0"
    | (pos) "0 < mantissa a" "0 < mantissa b" | (neg) "mantissa a < 0" "mantissa b < 0"
    by linarith
  then show ?thesis
  proof cases
    case opposite
    have sg: "iou_val x < 0 \<longleftrightarrow> mantissa x < 0" for x by (simp add: iou_val_def)
    have "iou_val a < iou_val b \<longleftrightarrow> iou_val a < 0"
      using opposite sg [of a] sg [of b] by (cases "iou_val a < 0"; cases "iou_val b < 0") auto
    with opposite show ?thesis by (simp add: iou_less_def sg)
  next
    case zero
    then show ?thesis by (auto simp: iou_less_def iou_val_def not_less)
  next
    case pos
    then show ?thesis
      using dec_less_same_sign [of "mantissa a" "mantissa b" "exponent a" "exponent b"]
        iou_ok_pos [OF assms(1)] iou_ok_pos [OF assms(2)]
      by (auto simp: iou_less_def iou_val_def)
  next
    case neg
    then show ?thesis
      using dec_less_same_sign [of "- mantissa b" "- mantissa a" "exponent b" "exponent a"]
        iou_ok_negative [OF assms(1)] iou_ok_negative [OF assms(2)]
      by (auto simp: iou_less_def iou_val_def dec_minus)
  qed
qed

text \<open>
  On canonical amounts \<^verbatim>\<open>operator<\<close> (sign, then exponent, then mantissa) is the
  order of the values the amounts denote.
\<close>
theorem iou_less_correct:
  assumes "iou_ok a" "iou_ok b"
  shows "iou_less a b \<longleftrightarrow> iou_val a < iou_val b"
  using assms by (rule iou_less_value)

theorem iou_less_correct_witness:
  "iou_less \<lparr>mantissa = 9000000000000000, exponent = - 16\<rparr>
            \<lparr>mantissa = 1000000000000000, exponent = - 15\<rparr> \<and>
   iou_val \<lparr>mantissa = 9000000000000000, exponent = - 16\<rparr>
     < iou_val \<lparr>mantissa = 1000000000000000, exponent = - 15\<rparr>"
proof -
  let ?a = "\<lparr>mantissa = 9000000000000000, exponent = - 16\<rparr>"
  let ?b = "\<lparr>mantissa = 1000000000000000, exponent = - 15\<rparr>"
  have ok: "iou_ok ?a" "iou_ok ?b" by (simp_all add: iou_ok_def amount_simps)
  have "iou_less ?a ?b" by (simp add: iou_less_def)
  with iou_less_correct [OF ok] show ?thesis by simp
qed

subsection \<open>Addition\<close>

lemma cdiv_cdiv:
  assumes "0 < a" "0 < b"
  shows "cdiv (cdiv m a) b = cdiv m (a * b)"
proof -
  have pos: "cdiv (cdiv k a) b = cdiv k (a * b)" if "0 \<le> k" for k
    using that assms by (simp add: cdiv_nonneg pos_imp_zdiv_nonneg_iff zdiv_zmult2_eq)
  show ?thesis
    using pos [of m] pos [of "- m"] by (cases "0 \<le> m") (simp_all add: cdiv_minus)
qed

lemma shift_to_up:
  "e \<le> t \<Longrightarrow> shift_to m e t = (cdiv m (10 ^ nat (t - e)), t)"
proof (induction m e t rule: shift_to.induct)
  case (1 m e t)
  show ?case
  proof (cases "e < t")
    case True
    then have "nat (t - e) = Suc (nat (t - (e + 1)))" by simp
    with True 1 show ?thesis
      by (simp add: shift_to.simps [of m e t] cdiv_cdiv)
  next
    case False
    with 1 show ?thesis
      by (simp add: shift_to.simps [of m t t] cdiv_def abs_mult_sgn mult.commute)
  qed
qed

lemma shift_to_down: "t \<le> e \<Longrightarrow> shift_to m e t = (m, e)"
  by (simp add: shift_to.simps)

text \<open>Both operands brought to the larger exponent.\<close>

definition aligned :: "int \<Rightarrow> int \<Rightarrow> int \<Rightarrow> int" where
  "aligned m e t = cdiv m (10 ^ nat (t - e))"

lemma aligned_id [simp]: "t \<le> e \<Longrightarrow> aligned m e t = m"
  by (simp add: aligned_def cdiv_def abs_mult_sgn mult.commute)

lemma shift_both:
  assumes "shift_to m1 e1 e2 = (n1, f1)" "shift_to m2 e2 f1 = (n2, f2)"
  shows "n1 = aligned m1 e1 (max e1 e2) \<and> n2 = aligned m2 e2 (max e1 e2) \<and>
         f1 = max e1 e2"
proof (cases "e1 \<le> e2")
  case True
  with assms show ?thesis by (auto simp: shift_to_up shift_to_down aligned_def cdiv_def abs_mult_sgn mult.commute)
next
  case False
  with assms show ?thesis by (auto simp: shift_to_up shift_to_down aligned_def cdiv_def abs_mult_sgn mult.commute)
qed

lemma aligned_error:
  assumes "e \<le> t"
  shows "\<bar>dec (aligned m e t) t - dec m e\<bar> < dec 1 t"
proof -
  have pos: "\<bar>dec (aligned k e t) t - dec k e\<bar> < dec 1 t" if "0 \<le> k" for k
    using dec_trunc [where m = k and j = "nat (t - e)" and e = e] that assms
    by (simp add: aligned_def cdiv_nonneg dec_add)
  show ?thesis
    using pos [of m] pos [of "- m"]
    by (cases "0 \<le> m") (simp_all add: aligned_def cdiv_minus dec_minus)
qed

lemma aligned_bound: "\<bar>aligned m e t\<bar> \<le> \<bar>m\<bar>"
proof -
  have "\<bar>m\<bar> div 10 ^ nat (t - e) \<le> \<bar>m\<bar>"
    by (metis abs_ge_zero div_by_1 linorder_not_less one_le_numeral one_le_power
        order.strict_implies_order zdiv_mono2 zero_less_one)
  then show ?thesis by (simp add: aligned_def cdiv_abs)
qed

lemma iou_signum_0 [simp]: "iou_signum a = 0 \<longleftrightarrow> mantissa a = 0"
  by (simp add: iou_signum_def)

lemma iou_ok_0: "iou_ok a \<Longrightarrow> mantissa a = 0 \<longleftrightarrow> a = iou_zero"
  by (auto simp: iou_ok_def iou_zero_def amount_simps)

lemma iou_add_aligned:
  assumes "mantissa a \<noteq> 0" "mantissa b \<noteq> 0"
  defines "E \<equiv> max (exponent a) (exponent b)"
  defines "s \<equiv> aligned (mantissa a) (exponent a) E + aligned (mantissa b) (exponent b) E"
  shows "iou_add a b = (if s \<ge> - 10 \<and> s \<le> 10 then Inr iou_zero
           else normalize \<lparr>mantissa = s, exponent = E\<rparr>)"
proof -
  obtain n1 f1 where 1: "shift_to (mantissa a) (exponent a) (exponent b) = (n1, f1)" by fastforce
  obtain n2 f2 where 2: "shift_to (mantissa b) (exponent b) f1 = (n2, f2)" by fastforce
  show ?thesis
    using assms(1,2) shift_both [OF 1 2] 1 2 by (simp add: iou_add_def s_def E_def Let_def)
qed

lemma aligned_sum_error:
  fixes m1 m2 e1 e2 :: int
  defines "E \<equiv> max e1 e2"
  shows "\<bar>dec (aligned m1 e1 E + aligned m2 e2 E) E - (dec m1 e1 + dec m2 e2)\<bar> < dec 1 E"
proof (cases "e1 \<le> e2")
  case True
  then show ?thesis using aligned_error [of e1 e2 m1] by (simp add: E_def max_def dec_add)
next
  case False
  then show ?thesis using aligned_error [of e2 e1 m2] by (simp add: E_def max_def dec_add)
qed


lemma normalize_error:
  assumes "normalize \<lparr>mantissa = s, exponent = E\<rparr> = Inr r" "\<bar>s\<bar> \<le> 2 * maxMantissa"
  shows "\<bar>iou_val r - dec s E\<bar> < dec 10 E + dec 1 (- 81)"
proof (cases "\<bar>dec s E\<bar> < dec 1 (- 81)")
  case True
  then have "r = iou_zero" using normalize_cases [of s E] assms(1) by simp
  then show ?thesis using True dec_pos_iff [of 10 E] by (simp del: dec_pos_iff)
next
  case False
  then have r: "sgn (mantissa r) = sgn s" "\<bar>iou_val r\<bar> \<le> \<bar>dec s E\<bar>"
    "\<bar>dec s E\<bar> < \<bar>iou_val r\<bar> + dec 1 (exponent r)" "iou_ok r" "r \<noteq> iou_zero"
    using normalize_cases [of s E] assms(1) by auto
  have "exponent r \<le> E + 1"
  proof (rule ccontr)
    assume "\<not> exponent r \<le> E + 1"
    have "\<bar>dec s E\<bar> = dec \<bar>s\<bar> E" by (rule dec_abs)
    also have "\<dots> < dec (10 * (2 * minMantissa)) E" using assms(2) by (simp add: amount_simps)
    also have "\<dots> = dec (2 * minMantissa) (E + 1)" by (rule dec_shift)
    also have "\<dots> < dec minMantissa (exponent r)"
      using \<open>\<not> exponent r \<le> E + 1\<close> by (intro dec_lt_exp) (auto simp: amount_simps)
    also have "\<dots> \<le> \<bar>iou_val r\<bar>"
      using r(4,5) by (auto simp: iou_ok_def iou_val_def dec_abs)
    finally show False using r(2) by simp
  qed
  then have "dec 1 (exponent r) \<le> dec 1 (E + 1)" by (intro dec_exp_mono) auto
  also have "\<dots> = dec 10 E" using dec_shift [of 1 E] by simp
  finally have ulp: "dec 1 (exponent r) \<le> dec 10 E" .
  have "\<bar>iou_val r - dec s E\<bar> = \<bar>dec s E\<bar> - \<bar>iou_val r\<bar>"
  proof (cases "0 \<le> s")
    case True
    then have "0 \<le> mantissa r" using r(1) by (auto simp: sgn_if split: if_splits)
    then show ?thesis using True r(2) by (simp add: iou_val_def)
  next
    case False
    then have "mantissa r < 0" using r(1) by (auto simp: sgn_if split: if_splits)
    then have "iou_val r < 0" "dec s E < 0" using False by (simp_all add: iou_val_def)
    then show ?thesis using r(2) by linarith
  qed
  moreover have "0 < dec 1 (- 81)" by simp
  ultimately show ?thesis using r(3) ulp by linarith
qed

lemma iou_ok_mantissa: "iou_ok a \<Longrightarrow> \<bar>mantissa a\<bar> \<le> maxMantissa"
  by (auto simp: iou_ok_def iou_zero_def amount_simps)

text \<open>
  C18. The sum of two canonical amounts is canonical and differs from the exact sum by
  less than eleven units of the larger exponent's last place (plus the smallest
  positive amount, where the sum underflows to zero); the sum throws only when the
  exact sum is within one such unit of the overflow bound \<open>10^96\<close>.
\<close>
theorem iou_add_correct:
  assumes "iou_ok a" "iou_ok b"
  shows "case iou_add a b of
           Inl x \<Rightarrow> dec 1 96 - dec 1 (max (exponent a) (exponent b)) \<le> \<bar>iou_val a + iou_val b\<bar>
         | Inr r \<Rightarrow> iou_ok r \<and>
             \<bar>iou_val r - (iou_val a + iou_val b)\<bar>
               < dec 11 (max (exponent a) (exponent b)) + dec 1 (- 81)"
proof -
  define E where "E = max (exponent a) (exponent b)"
  define s where "s = aligned (mantissa a) (exponent a) E + aligned (mantissa b) (exponent b) E"
  have p: "0 < dec 1 (- 81)" "dec 11 E = dec 10 E + dec 1 E" "0 < dec 10 E" "0 < dec 1 E"
    using dec_add [of 10 1 E] by simp_all
  have q: "0 < dec 11 x + dec 1 (- 81)" for x by (simp add: add_pos_pos)
  show ?thesis
  proof (cases "a = iou_zero \<or> b = iou_zero")
    case True
    then show ?thesis using assms q by (auto simp: iou_add_def iou_ok_0)
  next
    case False
    then have add: "iou_add a b = (if s \<ge> - 10 \<and> s \<le> 10 then Inr iou_zero
           else normalize \<lparr>mantissa = s, exponent = E\<rparr>)"
      using iou_add_aligned [of a b] assms by (simp add: s_def E_def iou_ok_0)
    have err: "\<bar>dec s E - (iou_val a + iou_val b)\<bar> < dec 1 E"
      using aligned_sum_error [of "mantissa a" "exponent a" "exponent b" "mantissa b"]
      by (simp add: s_def E_def iou_val_def)
    have "\<bar>s\<bar> \<le> 2 * maxMantissa"
      using aligned_bound [of "mantissa a" "exponent a" E] aligned_bound [of "mantissa b" "exponent b" E]
        iou_ok_mantissa [OF assms(1)] iou_ok_mantissa [OF assms(2)] by (simp add: s_def)
    note nerr = normalize_error [OF _ this, of E]
    consider (cancel) "iou_add a b = Inr iou_zero" "\<bar>s\<bar> \<le> 10"
      | (norm) "iou_add a b = normalize \<lparr>mantissa = s, exponent = E\<rparr>"
      using add by (auto split: if_splits)
    then show ?thesis
    proof cases
      case cancel
      have "\<bar>dec s E\<bar> \<le> dec 10 E" using cancel(2) by (simp add: dec_abs)
      then have "\<bar>0 - (iou_val a + iou_val b)\<bar> < dec 11 E + dec 1 (- 81)"
        using err p by linarith
      then show ?thesis using cancel by (simp add: E_def [symmetric])
    next
      case norm
      then show ?thesis
        using normalize_cases [of s E] nerr err p
        by (cases "normalize \<lparr>mantissa = s, exponent = E\<rparr>") (force simp: E_def [symmetric])+
    qed
  qed
qed

theorem iou_add_correct_witness:
  "iou_add \<lparr>mantissa = 9999999999999999, exponent = 0\<rparr>
           \<lparr>mantissa = 1000000000000009, exponent = - 15\<rparr> =
     Inr \<lparr>mantissa = 1000000000000000, exponent = 1\<rparr> \<and>
   \<bar>iou_val \<lparr>mantissa = 1000000000000000, exponent = 1\<rparr> -
      (iou_val \<lparr>mantissa = 9999999999999999, exponent = 0\<rparr> +
       iou_val \<lparr>mantissa = 1000000000000009, exponent = - 15\<rparr>)\<bar>
     < dec 11 0 + dec 1 (- 81)"
proof -
  let ?a = "\<lparr>mantissa = 9999999999999999, exponent = 0\<rparr>"
  let ?b = "\<lparr>mantissa = 1000000000000009, exponent = - 15\<rparr>"
  have ok: "iou_ok ?a" "iou_ok ?b" by (simp_all add: iou_ok_def amount_simps)
  have "iou_add ?a ?b = Inr \<lparr>mantissa = 1000000000000000, exponent = 1\<rparr>"
    by (simp add: iou_add_def iou_signum_def iou_zero_def shift_to.simps cdiv_def normalize_def
        normalize_up.simps normalize_down.simps amount_simps)
  with iou_add_correct [OF ok] show ?thesis by simp
qed

end
