(* ===== verification/MulRatio.thy ===== *)
theory MulRatio
  imports IOUAmount
begin

text \<open>
  Scaling by a ratio: \<^verbatim>\<open>basics/impl/mulDiv.cpp\<close>, \<^verbatim>\<open>mulRatio\<close> on native amounts
  (\<^verbatim>\<open>protocol/MAmount.h\<close>; an \<^verbatim>\<open>MAmount\<close> is its number of drops) and \<^verbatim>\<open>mulRatio\<close> on
  issued amounts (\<^verbatim>\<open>protocol/impl/IOUAmount.cpp\<close>). The 128-bit integers of
  \<^verbatim>\<open>boost::multiprecision\<close> hold every intermediate value and are exact here; its
  conversion of an \<^verbatim>\<open>int128_t\<close> to \<^verbatim>\<open>std::int64_t\<close> is the parameter \<open>conv\<close>.
\<close>

definition mulDiv :: "int \<Rightarrow> int \<Rightarrow> int \<Rightarrow> (bool \<times> int) result" where
  "mulDiv value mul dv =
     (if dv = 0 then Inl div_by_zero
      else let r = value * mul div dv
           in if r > u64_max then Inr (False, u64_max) else Inr (True, r))"

definition m_mulRatio :: "(int \<Rightarrow> int) \<Rightarrow> int \<Rightarrow> int \<Rightarrow> int \<Rightarrow> bool \<Rightarrow> int result" where
  "m_mulRatio conv amt num den roundUp =
     (if den = 0 then Inl (runtime_error ''division by zero'')
      else
        let neg = amt < 0;
            m = amt * num;
            r0 = cdiv m den;
            r = (if m mod den \<noteq> 0
                 then if \<not> neg \<and> roundUp then r0 + 1
                      else if neg \<and> \<not> roundUp then r0 - 1 else r0
                 else r0)
        in if r > int64_max then Inl (overflow_error ''M mulRatio overflow'') else Inr (conv r))"

subsection \<open>mulRatio on issued amounts\<close>

definition powerTable :: "int list" where
  "powerTable = map (\<lambda>i. 10 ^ i) [0..<30]"

text \<open>\<^verbatim>\<open>std::lower_bound\<close>: the index of the first entry that is not less.\<close>

definition lower_bound_pow :: "int \<Rightarrow> nat" where
  "lower_bound_pow v = length (takeWhile (\<lambda>p. p < v) powerTable)"

definition log10Floor :: "int \<Rightarrow> int" where
  "log10Floor v =
     (let l = lower_bound_pow v in if powerTable ! l \<noteq> v then int l - 1 else int l)"

definition log10Ceil :: "int \<Rightarrow> int" where
  "log10Ceil v = int (lower_bound_pow v)"

definition fl64 :: int where
  "fl64 = log10Floor int64_max"

text \<open>The scaled quotient and remainder, with the adjusted exponent.\<close>

definition ratio_grow :: "int \<Rightarrow> int \<Rightarrow> int \<Rightarrow> int \<times> int \<times> int" where
  "ratio_grow mul den e =
     (let low = mul div den; rem = mul - low * den in
      if rem \<noteq> 0 then
        let roomToGrow = fl64 - log10Ceil low;
            (e, low, rem) =
              (if roomToGrow > 0
               then (e - roomToGrow, low * powerTable ! nat roomToGrow,
                     rem * powerTable ! nat roomToGrow)
               else (e, low, rem));
            addRem = rem div den
        in (e, low + addRem, rem - addRem * den)
      else (e, low, rem))"

definition ratio_shrink :: "int \<Rightarrow> int \<Rightarrow> int \<Rightarrow> int \<times> int \<times> bool" where
  "ratio_shrink e low rem =
     (let hasRem = rem \<noteq> 0;
          mustShrink = log10Ceil low - fl64
      in if mustShrink > 0
         then let sav = low; low' = low div powerTable ! nat mustShrink
              in (e + mustShrink, low',
                  hasRem \<or> sav - low' * powerTable ! nat mustShrink \<noteq> 0)
         else (e, low, hasRem))"

definition iou_mulRatio :: "IOUAmount \<Rightarrow> int \<Rightarrow> int \<Rightarrow> bool \<Rightarrow> IOUAmount result" where
  "iou_mulRatio amt num den roundUp =
     (if den = 0 then Inl (runtime_error ''division by zero'')
      else
        let neg = mantissa amt < 0;
            mul = (if neg then - mantissa amt else mantissa amt) * num;
            (e1, low1, rem1) = ratio_grow mul den (exponent amt);
            (e2, low2, hasRem) = ratio_shrink e1 low1 rem1
        in rbind (mk_iou (if neg then - low2 else low2) e2) (\<lambda>result.
             if hasRem \<and> roundUp \<and> \<not> neg then
               if mantissa result = 0 then mk_iou minMantissa minExponent
               else mk_iou (mantissa result + 1) (exponent result)
             else if hasRem \<and> \<not> roundUp \<and> neg then
               if mantissa result = 0 then mk_iou (- minMantissa) minExponent
               else mk_iou (mantissa result - 1) (exponent result)
             else Inr result))"

subsection \<open>Native amounts\<close>

lemma ceiling_div:
  fixes a b :: int
  assumes "b \<noteq> 0"
  shows "\<lceil>real_of_int a / of_int b\<rceil> = (if a mod b = 0 then a div b else a div b + 1)"
  using assms by (simp add: ceiling_divide_eq_div zdiv_zminus1_eq_if)

lemma cdiv_neg:
  assumes "m \<le> 0" "0 < d"
  shows "cdiv m d = (if m mod d = 0 then m div d else m div d + 1)"
  using cdiv_minus [of "- m" d] cdiv_nonneg [of "- m" d] assms by (simp add: zdiv_zminus1_eq_if)



subsection \<open>Issued amounts\<close>

lemma length_powerTable [simp]: "length powerTable = 30"
  by (simp add: powerTable_def)

lemma powerTable_nth: "i < 30 \<Longrightarrow> powerTable ! i = 10 ^ i"
  unfolding powerTable_def by (subst nth_map) simp_all

lemma lower_bound_pow:
  assumes "v \<le> 10 ^ 29"
  shows "lower_bound_pow v < 30" "v \<le> 10 ^ lower_bound_pow v"
    "0 < lower_bound_pow v \<Longrightarrow> 10 ^ (lower_bound_pow v - 1) < v"
proof -
  let ?c = "lower_bound_pow v"
  have less: "powerTable ! i < v" if "i < ?c" for i
    using that takeWhile_nth [of i "\<lambda>p. p < v" powerTable]
      nth_mem [of i "takeWhile (\<lambda>p. p < v) powerTable"]
    unfolding lower_bound_pow_def by (metis set_takeWhileD)
  have "\<not> 29 < ?c"
    using less [of 29] assms powerTable_nth [of 29] by auto
  then show c: "?c < 30" by simp
  then have "\<not> powerTable ! ?c < v"
    using nth_length_takeWhile [of "\<lambda>p. p < v" powerTable] unfolding lower_bound_pow_def by simp
  then show "v \<le> 10 ^ ?c" using powerTable_nth [OF c] by simp
  show "10 ^ (?c - 1) < v" if "0 < ?c"
    using less [of "?c - 1"] that c powerTable_nth [of "?c - 1"] by simp
qed

lemma powerTable_eq:
  "powerTable = [1, 10, 100, 1000, 10000, 100000, 1000000, 10000000, 100000000, 1000000000,
      10000000000, 100000000000, 1000000000000, 10000000000000, 100000000000000,
      1000000000000000, 10000000000000000, 100000000000000000, 1000000000000000000,
      10000000000000000000, 100000000000000000000, 1000000000000000000000,
      10000000000000000000000, 100000000000000000000000, 1000000000000000000000000,
      10000000000000000000000000, 100000000000000000000000000, 1000000000000000000000000000,
      10000000000000000000000000000, 100000000000000000000000000000]"
  by (simp add: powerTable_def upt_rec numeral_eq_Suc)

lemma fl64_eq [simp]: "fl64 = 18"
  by (simp add: fl64_def log10Floor_def lower_bound_pow_def powerTable_eq int64_max_def Let_def)

lemma div_scaled:
  fixes m d p :: int
  assumes "0 < d"
  shows "m * p div d = m div d * p + (m mod d) * p div d" "m * p mod d = (m mod d) * p mod d"
proof -
  have e: "m * p = (m div d * p) * d + (m mod d) * p"
    using div_mult_mod_eq [of m d] by (metis distrib_right mult.assoc mult.commute)
  show "m * p div d = m div d * p + (m mod d) * p div d"
    unfolding e using assms by simp
  show "m * p mod d = (m mod d) * p mod d" unfolding e by simp
qed

text \<open>Multiplying both parts by a power of ten gives the quotient of the scaled product.\<close>

lemma scaled_digits:
  fixes low :: int
  assumes kc: "k + c = 18" and lowc: "10 ^ (c - 1) \<le> low" and c: "low \<le> 10 ^ c"
  shows "10 ^ 17 \<le> low * 10 ^ k \<and> low * 10 ^ k \<le> 10 ^ 18"
proof -
  have "low * 10 ^ k \<le> 10 ^ c * 10 ^ k" using c by (intro mult_right_mono) auto
  also have "\<dots> = (10::int) ^ 18" using kc by (simp add: add.commute flip: power_add)
  finally have 1: "low * 10 ^ k \<le> 10 ^ 18" .
  have "(10::int) ^ 17 \<le> 10 ^ (c - 1 + k)" using kc by (intro power_increasing) auto
  also have "\<dots> \<le> low * 10 ^ k" unfolding power_add using lowc by (intro mult_right_mono) auto
  finally show ?thesis using 1 by simp
qed

lemma ratio_grow_form:
  assumes d: "0 < den" and m: "mul \<le> 10 ^ 28" "0 \<le> mul" and l: "0 < mul div den"
  obtains k where "ratio_grow mul den e = (e - int k, mul * 10 ^ k div den, mul * 10 ^ k mod den)"
    "mul * 10 ^ k mod den \<noteq> 0 \<Longrightarrow> 10 ^ 17 \<le> mul * 10 ^ k div den"
    "mul * 10 ^ k div den \<le> 10 ^ 28"
proof -
  define low rem c where "low = mul div den" and "rem = mul mod den" and "c = lower_bound_pow low"
  have "low \<le> mul" unfolding low_def using d m by (metis div_by_1 int_one_le_iff_zero_less zdiv_mono2 zero_less_one)
  then have lo: "low \<le> 10 ^ 29" "low \<le> 10 ^ 28" using m by auto
  note c = lower_bound_pow [OF lo(1), folded c_def]
  have rem: "mul - low * den = rem" by (simp add: low_def rem_def minus_div_mult_eq_mod)
  have lowc: "10 ^ (c - 1) \<le> low" using c(3) l by (cases "c = 0") (auto simp: low_def)
  define k where "k = (if rem \<noteq> 0 \<and> c < 18 then 18 - c else 0)"
  have s: "mul * 10 ^ k div den = low * 10 ^ k + rem * 10 ^ k div den"
      "mul * 10 ^ k mod den = rem * 10 ^ k mod den"
    unfolding low_def rem_def by (rule div_scaled [OF d])+
  have "0 \<le> rem" "rem < den" using d by (auto simp: rem_def)
  then have add: "0 \<le> rem * 10 ^ k div den" "rem * 10 ^ k div den \<le> 10 ^ k"
    using d by (auto simp: pos_imp_zdiv_nonneg_iff intro: order_trans [OF zdiv_mono1 [of _ "den * 10 ^ k"]])
  have g: "ratio_grow mul den e = (e - int k, mul * 10 ^ k div den, mul * 10 ^ k mod den)"
  proof (cases "rem \<noteq> 0 \<and> c < 18")
    case True
    have "nat (18 - int c) = k" "powerTable ! k = 10 ^ k" "18 - int c = int k" "k > 0"
      using True by (auto simp: k_def powerTable_nth)
    with True show ?thesis
      unfolding s ratio_grow_def low_def [symmetric] rem Let_def
      by (simp add: log10Ceil_def c_def [symmetric] minus_div_mult_eq_mod)
  next
    case False
    then have "k = 0" by (auto simp: k_def)
    with False show ?thesis
      unfolding s ratio_grow_def low_def [symmetric] rem Let_def
      by (auto simp: log10Ceil_def c_def [symmetric] minus_div_mult_eq_mod)
  qed
  have ck: "10 ^ 17 \<le> low * 10 ^ k \<and> low * 10 ^ k \<le> 10 ^ 18" if "k > 0"
    by (rule scaled_digits [OF _ lowc c(2)]) (use that in \<open>auto simp: k_def split: if_splits\<close>)
  have b: "10 ^ 17 \<le> mul * 10 ^ k div den" if nz: "mul * 10 ^ k mod den \<noteq> 0"
  proof (cases "k = 0")
    case True
    have "rem \<noteq> 0" using nz unfolding s(2) by auto
    with True have "18 \<le> c" unfolding k_def by (simp split: if_splits)
    then have "(10::int) ^ 17 \<le> 10 ^ (c - 1)" by (intro power_increasing) auto
    with True lowc show ?thesis by (simp add: low_def [symmetric])
  next
    case False
    with ck add s show ?thesis by linarith
  qed
  have u: "mul * 10 ^ k div den \<le> 10 ^ 28"
  proof (cases "k = 0")
    case True
    then show ?thesis using lo(2) by (simp add: low_def)
  next
    case False
    then have "(10::int) ^ k \<le> 10 ^ 18" by (intro power_increasing) (auto simp: k_def)
    with False ck add s show ?thesis by simp
  qed
  show thesis by (rule that [OF g b u])
qed

text \<open>Dividing by a power of ten keeps the quotient, and whether anything was lost.\<close>

lemma ratio_shrink_form:
  assumes "low \<le> 10 ^ 29" "0 < low"
  obtains j where "ratio_shrink e low rem = (e + int j, low div 10 ^ j, rem \<noteq> 0 \<or> low mod 10 ^ j \<noteq> 0)"
    "j = 0 \<or> 10 ^ 17 \<le> low div 10 ^ j" "low div 10 ^ j \<le> 10 ^ 18"
proof -
  define c where "c = lower_bound_pow low"
  note c = lower_bound_pow [OF assms(1), folded c_def]
  define j where "j = c - 18"
  have f: "ratio_shrink e low rem = (e + int j, low div 10 ^ j, rem \<noteq> 0 \<or> low mod 10 ^ j \<noteq> 0)"
  proof (cases "c > 18")
    case True
    then have "nat (int c - 18) = j" "powerTable ! j = 10 ^ j" "int c - 18 = int j" "j > 0"
      using c(1) by (auto simp: j_def powerTable_nth)
    moreover have "low = low div 10 ^ j * 10 ^ j \<longleftrightarrow> low mod 10 ^ j = 0"
      using div_mult_mod_eq [of low "10 ^ j"] by linarith
    ultimately show ?thesis
      by (simp add: ratio_shrink_def log10Ceil_def c_def [symmetric] Let_def)
  next
    case False
    then show ?thesis
      by (simp add: ratio_shrink_def log10Ceil_def c_def [symmetric] j_def)
  qed
  have lo: "j = 0 \<or> 10 ^ 17 \<le> low div 10 ^ j"
  proof (cases "j = 0")
    case False
    then have "c - 1 = 17 + j" "0 < c" by (auto simp: j_def)
    then have "10 ^ 17 * 10 ^ j \<le> low" using c(3) by (simp add: power_add)
    then have "10 ^ 17 * 10 ^ j div 10 ^ j \<le> low div 10 ^ j" by (intro zdiv_mono1) auto
    then show ?thesis by simp
  qed simp
  have hi: "low div 10 ^ j \<le> 10 ^ 18"
  proof -
    have "(10::int) ^ c \<le> 10 ^ (18 + j)" by (intro power_increasing) (auto simp: j_def)
    then have "low div 10 ^ j \<le> 10 ^ 18 * 10 ^ j div 10 ^ j"
      using c(2) by (intro zdiv_mono1) (auto simp: power_add)
    then show ?thesis by simp
  qed
  show thesis by (rule that [OF f lo hi])
qed

lemma dec_quotient:
  fixes m d e :: int
  assumes "0 < d"
  shows "dec (m * 10 ^ k div d div 10 ^ j) (e - int k + int j) \<le> dec m e / of_int d"
    "dec m e / of_int d < dec (m * 10 ^ k div d div 10 ^ j + 1) (e - int k + int j)"
    "m * 10 ^ k mod d = 0 \<Longrightarrow> (m * 10 ^ k div d) mod 10 ^ j = 0 \<Longrightarrow>
       dec (m * 10 ^ k div d div 10 ^ j) (e - int k + int j) = dec m e / of_int d"
proof -
  define N D where "N = m * 10 ^ k" and "D = d * 10 ^ j"
  define P :: real where "P = 10 ^ j * 10 powi (e - int k)"
  have D: "0 < D" using assms by (simp add: D_def)
  have P: "0 < P" by (simp add: P_def)
  have q: "N div d div 10 ^ j = N div D" using assms by (simp add: D_def zdiv_zmult2_eq)
  have v: "dec a (e - int k + int j) = of_int a * P" for a
    by (simp add: dec_def P_def power_int_add mult_ac)
  have "dec m e = dec N (e - int k)" by (simp add: N_def dec_shift_pow)
  then have x: "dec m e / of_int d = of_int N / of_int D * P"
    using assms by (simp add: dec_def P_def D_def)
  show "dec (m * 10 ^ k div d div 10 ^ j) (e - int k + int j) \<le> dec m e / of_int d"
    unfolding N_def [symmetric] q v x using div_real_close(1) [OF D] P by (intro mult_right_mono) auto
  show "dec m e / of_int d < dec (m * 10 ^ k div d div 10 ^ j + 1) (e - int k + int j)"
    unfolding N_def [symmetric] q v x using div_real_close(2) [OF D] P
    by (intro mult_strict_right_mono) auto
  assume "m * 10 ^ k mod d = 0" "(m * 10 ^ k div d) mod 10 ^ j = 0"
  then have "d dvd N" "10 ^ j dvd N div d" by (simp_all add: N_def mod_eq_0_iff_dvd)
  then have "D dvd N" unfolding D_def by (metis dvd_mult_div_cancel mult_dvd_mono dvd_refl)
  then show "dec (m * 10 ^ k div d div 10 ^ j) (e - int k + int j) = dec m e / of_int d"
    unfolding N_def [symmetric] q v x by (simp add: real_of_int_div)
qed

text \<open>The constructor on a positive magnitude inside the range.\<close>

lemma mk_iou_close:
  assumes "0 < m" "dec 1 (- 81) \<le> dec m e" "dec m e < dec 1 96"
  shows "\<exists>r. mk_iou (if neg then - m else m) e = Inr r \<and> iou_ok r \<and> mantissa r \<noteq> 0 \<and>
     (mantissa r < 0 \<longleftrightarrow> neg) \<and> \<bar>iou_val r\<bar> \<le> dec m e \<and> dec m e < \<bar>iou_val r\<bar> + dec 1 (exponent r) \<and>
     10 ^ 15 * dec 1 (exponent r) \<le> \<bar>iou_val r\<bar>"
proof -
  let ?m = "if neg then - m else m"
  have a: "\<bar>dec ?m e\<bar> = dec m e" using assms(1) by (simp add: dec_minus)
  note c = normalize_cases [of ?m e, unfolded a]
  have nl: "\<not> dec m e < dec 1 (- 81)" "\<not> dec 1 96 \<le> dec m e" using assms(2,3) by linarith+
  obtain r where r: "normalize \<lparr>mantissa = ?m, exponent = e\<rparr> = Inr r"
  proof (cases "normalize \<lparr>mantissa = ?m, exponent = e\<rparr>")
    case (Inl y)
    then show thesis using c [unfolded Inl] nl(2) by simp
  qed
  have p: "iou_ok r" "r \<noteq> iou_zero" "sgn (mantissa r) = sgn ?m" "\<bar>iou_val r\<bar> \<le> dec m e"
      "dec m e < \<bar>iou_val r\<bar> + dec 1 (exponent r)"
    using c [unfolded r] nl(1) by simp_all
  have nz: "mantissa r \<noteq> 0" using p iou_ok_0 by blast
  have "10 ^ 15 * dec 1 (exponent r) = dec minMantissa (exponent r)"
    by (simp add: dec_def minMantissa_def)
  also have "\<dots> \<le> dec \<bar>mantissa r\<bar> (exponent r)"
    using p(1,2) by (simp add: iou_ok_def)
  also have "\<dots> = \<bar>iou_val r\<bar>" by (simp add: iou_val_def dec_abs)
  finally have u: "10 ^ 15 * dec 1 (exponent r) \<le> \<bar>iou_val r\<bar>" .
  have "mantissa r < 0 \<longleftrightarrow> neg"
    using p(3) assms(1) nz by (cases neg) (auto simp: sgn_if split: if_splits)
  with p u nz r show ?thesis unfolding mk_iou_def by blast
qed

lemma shortfall:
  fixes x d u :: real
  assumes "x < d + u" "10 ^ 17 * u \<le> x"
  shows "x - d \<le> 1 / 10 ^ 17 * x"
  using assms by simp

text \<open>The quotient before normalization: how far it is below the exact value.\<close>

lemma ratio_quotient:
  assumes a: "minMantissa \<le> a" "a \<le> maxMantissa" and n: "0 < num" "u32_range num"
    and d: "0 < den" "u32_range den"
    and g: "ratio_grow (a * num) den e = (e1, low1, rem1)"
    and sh: "ratio_shrink e1 low1 rem1 = (e2, low2, hasRem)"
  defines "x \<equiv> dec (a * num) e / of_int den"
  shows "0 < low2" "dec low2 e2 \<le> x" "x - dec low2 e2 \<le> 1 / 10 ^ 17 * x"
proof -
  have lo: "10 ^ 15 * 1 \<le> a * num" using a n by (intro mult_mono) (auto simp: minMantissa_def)
  have hi: "a * num \<le> 10 ^ 16 * 2 ^ 32"
    using a n by (intro mult_mono) (auto simp: maxMantissa_def minMantissa_def u32_range_def)
  have "1 * den \<le> a * num" using lo d by (simp add: u32_range_def)
  then have q: "0 < a * num div den" using d by (simp add: pos_imp_zdiv_pos_iff)
  have m: "a * num \<le> 10 ^ 28" "0 \<le> a * num" using lo hi by auto
  obtain k where k: "ratio_grow (a * num) den e =
        (e - int k, a * num * 10 ^ k div den, a * num * 10 ^ k mod den)"
      "a * num * 10 ^ k mod den \<noteq> 0 \<Longrightarrow> 10 ^ 17 \<le> a * num * 10 ^ k div den"
      "a * num * 10 ^ k div den \<le> 10 ^ 28"
    by (rule ratio_grow_form [OF d(1) m q, of e]) (rule that)
  have l1: "low1 = a * num * 10 ^ k div den" "rem1 = a * num * 10 ^ k mod den" "e1 = e - int k"
    using g k(1) by auto
  have "a * num * 1 \<le> a * num * 10 ^ k" using lo by (intro mult_left_mono) auto
  then have "a * num div den \<le> low1" unfolding l1 using d by (intro zdiv_mono1) auto
  then have l1p: "0 < low1" using q by linarith
  have l1b: "low1 \<le> 10 ^ 29" using k(3) [folded l1] by (rule order_trans) simp
  obtain j where j: "ratio_shrink e1 low1 rem1 =
        (e1 + int j, low1 div 10 ^ j, rem1 \<noteq> 0 \<or> low1 mod 10 ^ j \<noteq> 0)"
      "j = 0 \<or> 10 ^ 17 \<le> low1 div 10 ^ j" "low1 div 10 ^ j \<le> 10 ^ 18"
    by (rule ratio_shrink_form [OF l1b l1p, of e1 rem1]) (rule that)
  have l2: "low2 = low1 div 10 ^ j" "e2 = e - int k + int j"
      "hasRem = (rem1 \<noteq> 0 \<or> low1 mod 10 ^ j \<noteq> 0)"
    using sh j(1) l1(3) by auto
  have big: "10 ^ 17 \<le> low2" if "j \<noteq> 0" using j(2) that unfolding l2 by simp
  show pos: "0 < low2"
  proof (cases "j = 0")
    case True
    then show ?thesis using l1p by (simp add: l2)
  next
    case False
    from big [OF this] show ?thesis by simp
  qed
  have dq: "dec low2 e2 \<le> x" "x < dec (low2 + 1) e2"
      "rem1 = 0 \<Longrightarrow> low1 mod 10 ^ j = 0 \<Longrightarrow> dec low2 e2 = x"
    unfolding l2(1,2) l1(1,2) x_def by (rule dec_quotient [OF d(1)]; assumption)+
  show le: "dec low2 e2 \<le> x" by (rule dq(1))
  show "x - dec low2 e2 \<le> 1 / 10 ^ 17 * x"
  proof (cases hasRem)
    case True
    have "10 ^ 17 \<le> low2"
    proof (cases "j = 0")
      case 0: True
      then have "rem1 \<noteq> 0" using True l2(3) by simp
      from k(2) [folded l1, OF this] 0 show ?thesis by (simp add: l2)
    qed (rule big)
    then have "dec (10 ^ 17) e2 \<le> x" using le dec_mono [of "10 ^ 17" low2 e2] by linarith
    moreover have "dec (10 ^ 17) e2 = 10 ^ 17 * dec 1 e2" by (simp add: dec_def)
    ultimately have "10 ^ 17 * dec 1 e2 \<le> x" by linarith
    with dq(2) [unfolded dec_add] show ?thesis by (rule shortfall)
  next
    case False
    then have "dec low2 e2 = x" using dq(3) unfolding l2 by simp
    moreover have "0 \<le> x" using le pos dec_nonneg_iff [of low2 e2] by linarith
    ultimately show ?thesis by simp
  qed
qed

text \<open>Real-number bookkeeping of the two steps after the quotient.\<close>

lemma truncated_close:
  fixes x d v u :: real
  assumes "0 < x" "d \<le> x" "x - d \<le> 1 / 10 ^ 17 * x" "v \<le> d" "d < v + u" "10 ^ 15 * u \<le> v"
  shows "v \<le> x" "x - v \<le> 2 / 10 ^ 15 * x" "v + u - x \<le> 1 / 10 ^ 15 * x"
    "x - (v + u) \<le> 1 / 10 ^ 17 * x"
  using assms by (simp_all add: field_simps)

lemma bumped_close:
  fixes x w v u :: real
  assumes "0 < x" "w - x \<le> 1 / 10 ^ 15 * x" "x - w \<le> 1 / 10 ^ 17 * x"
    and "v \<le> w" "w < v + u" "10 ^ 15 * u \<le> v"
  shows "\<bar>v - x\<bar> \<le> 2 / 10 ^ 15 * x"
proof -
  have "v - x \<le> 2 / 10 ^ 15 * x" "x - v \<le> 2 / 10 ^ 15 * x" using assms by (simp_all add: field_simps)
  then show ?thesis by linarith
qed

lemma iou_val_signed:
  assumes "mantissa r < 0 \<longleftrightarrow> neg" "\<bar>\<bar>iou_val r\<bar> - x\<bar> \<le> c"
  shows "\<bar>iou_val r - (if neg then - x else x)\<bar> \<le> c"
  using assms by (cases neg) (auto simp: iou_val_def abs_if split: if_splits)

lemma range_inner:
  assumes "dec 1 (- 80) \<le> x" "x \<le> dec 1 95" "\<bar>d - x\<bar> \<le> 1 / 10 * x"
  shows "0 < x" "dec 1 (- 81) \<le> d" "d < dec 1 96"
proof -
  have p: "dec 1 96 = 10 * dec 1 95" "dec 1 (- 80) = 10 * dec 1 (- 81)"
    using dec_shift [of 1 95] dec_shift [of 1 "- 81"] by (simp_all add: dec_def)
  have q: "0 < dec 1 (- 80)" "0 < dec 1 95" by simp_all
  then show "0 < x" using assms(1) by linarith
  then show "dec 1 (- 81) \<le> d" "d < dec 1 96" using assms p q by linarith+
qed

lemma iou_mulRatio_magnitude:
  fixes e :: int
  assumes a: "minMantissa \<le> a" "a \<le> maxMantissa" and n: "0 < num" "u32_range num"
    and d: "0 < den" "u32_range den"
  defines "x \<equiv> dec (a * num) e / of_int den"
  assumes rng: "dec 1 (- 80) \<le> x" "x \<le> dec 1 95"
  shows "\<exists>r. iou_mulRatio \<lparr>mantissa = (if neg then - a else a), exponent = e\<rparr> num den up = Inr r \<and>
     iou_ok r \<and> (mantissa r < 0 \<longleftrightarrow> neg) \<and> \<bar>\<bar>iou_val r\<bar> - x\<bar> \<le> 2 / 10 ^ 15 * x \<and>
     (neg = up \<longrightarrow> \<bar>iou_val r\<bar> \<le> x)"
proof -
  obtain e1 low1 rem1 where g: "ratio_grow (a * num) den e = (e1, low1, rem1)" by (metis prod_cases3)
  obtain e2 low2 hasRem where sh: "ratio_shrink e1 low1 rem1 = (e2, low2, hasRem)"
    by (metis prod_cases3)
  note q = ratio_quotient [OF a n d g sh, folded x_def]
  have x0: "0 < x" using rng(1) less_le_trans [of 0 "dec 1 (- 80)" x] by simp
  have "\<bar>dec low2 e2 - x\<bar> \<le> 1 / 10 * x" using q x0 by (simp add: field_simps)
  note r1 = range_inner [OF rng this]
  obtain v where v: "mk_iou (if neg then - low2 else low2) e2 = Inr v" "iou_ok v" "mantissa v \<noteq> 0"
      "mantissa v < 0 \<longleftrightarrow> neg" "\<bar>iou_val v\<bar> \<le> dec low2 e2"
      "dec low2 e2 < \<bar>iou_val v\<bar> + dec 1 (exponent v)" "10 ^ 15 * dec 1 (exponent v) \<le> \<bar>iou_val v\<bar>"
    using mk_iou_close [OF q(1) r1(2,3), of neg] by blast
  note c = truncated_close [OF x0 q(2,3) v(5,6,7)]
  have a0: "0 < a" using a by (simp add: minMantissa_def)
  have eq: "iou_mulRatio \<lparr>mantissa = (if neg then - a else a), exponent = e\<rparr> num den up =
      (if hasRem \<and> up \<noteq> neg
       then mk_iou (if neg then mantissa v - 1 else mantissa v + 1) (exponent v) else Inr v)"
    using d(1) a0 g sh v(1,3) by (cases neg) (simp_all add: iou_mulRatio_def)
  show ?thesis
  proof (cases "hasRem \<and> up \<noteq> neg")
    case False
    have "\<bar>\<bar>iou_val v\<bar> - x\<bar> \<le> 2 / 10 ^ 15 * x" using c(1,2) x0 by linarith
    with False eq v c(1) show ?thesis by auto
  next
    case True
    let ?w = "\<bar>mantissa v\<bar> + 1"
    have w: "dec ?w (exponent v) = \<bar>iou_val v\<bar> + dec 1 (exponent v)"
      by (simp add: dec_add iou_val_def dec_abs)
    have "dec ?w (exponent v) - x \<le> 1 / 10 * x" "x - dec ?w (exponent v) \<le> 1 / 10 * x"
      unfolding w using c(3,4) x0 by (simp_all add: field_simps)
    then have "\<bar>dec ?w (exponent v) - x\<bar> \<le> 1 / 10 * x" by linarith
    note r2 = range_inner [OF rng this]
    have "0 < ?w" by simp
    obtain r where r: "mk_iou (if neg then - ?w else ?w) (exponent v) = Inr r" "iou_ok r"
        "mantissa r < 0 \<longleftrightarrow> neg" "\<bar>iou_val r\<bar> \<le> dec ?w (exponent v)"
        "dec ?w (exponent v) < \<bar>iou_val r\<bar> + dec 1 (exponent r)"
        "10 ^ 15 * dec 1 (exponent r) \<le> \<bar>iou_val r\<bar>"
      using mk_iou_close [OF \<open>0 < ?w\<close> r2(2,3), of neg] by blast
    have "\<bar>\<bar>iou_val r\<bar> - x\<bar> \<le> 2 / 10 ^ 15 * x"
      using bumped_close [OF x0 c(3,4) r(4,5,6) [unfolded w]] .
    moreover have "(if neg then mantissa v - 1 else mantissa v + 1) = (if neg then - ?w else ?w)"
      using v(4) by auto
    ultimately show ?thesis using True eq r(1-3) by auto
  qed
qed

text \<open>
  C30. Scaling an issued amount by a 32-bit ratio: within the range the result is
  canonical, has the sign of the amount and a relative error of at most \<open>2 * 10^-15\<close>;
  rounding towards zero never exceeds the exact magnitude.
\<close>
theorem iou_mulRatio_accurate:
  assumes "iou_ok amt" "mantissa amt \<noteq> 0" "0 < num" "u32_range num" "0 < den" "u32_range den"
    and x: "x = iou_val amt * of_int num / of_int den"
    and rng: "dec 1 (- 80) \<le> \<bar>x\<bar>" "\<bar>x\<bar> \<le> dec 1 95"
  shows "\<exists>r. iou_mulRatio amt num den roundUp = Inr r \<and> iou_ok r \<and>
             \<bar>iou_val r - x\<bar> \<le> 2 / 10 ^ 15 * \<bar>x\<bar> \<and>
             ((x < 0) = roundUp \<longrightarrow> \<bar>iou_val r\<bar> \<le> \<bar>x\<bar>)"
proof -
  define neg where "neg = (mantissa amt < 0)"
  define a where "a = \<bar>mantissa amt\<bar>"
  have a: "minMantissa \<le> a" "a \<le> maxMantissa"
    using assms(1,2) by (auto simp: iou_ok_def iou_zero_def a_def)
  have amt: "\<lparr>mantissa = (if neg then - a else a), exponent = exponent amt\<rparr> = amt"
    by (cases amt) (auto simp: neg_def a_def)
  have "\<bar>x\<bar> = \<bar>iou_val amt\<bar> * of_int num / of_int den"
    unfolding x using assms(3,5) by (simp add: abs_mult)
  also have "\<dots> = dec (a * num) (exponent amt) / of_int den"
    by (simp add: iou_val_def dec_abs a_def) (simp add: dec_def)
  finally have ax: "\<bar>x\<bar> = dec (a * num) (exponent amt) / of_int den" .
  have "0 < \<bar>x\<bar>" using rng(1) less_le_trans [of 0 "dec 1 (- 80)" "\<bar>x\<bar>"] by simp
  moreover have "iou_val amt < 0 \<longleftrightarrow> neg" by (simp add: iou_val_def neg_def)
  ultimately have sx1: "x < 0 \<longleftrightarrow> neg"
    using assms(3,5) by (auto simp: x mult_less_0_iff divide_less_0_iff)
  then have sx: "x = (if neg then - \<bar>x\<bar> else \<bar>x\<bar>)" by (auto simp: abs_if)
  obtain r where r: "iou_mulRatio amt num den roundUp = Inr r" "iou_ok r" "mantissa r < 0 \<longleftrightarrow> neg"
      "\<bar>\<bar>iou_val r\<bar> - \<bar>x\<bar>\<bar> \<le> 2 / 10 ^ 15 * \<bar>x\<bar>" "neg = roundUp \<longrightarrow> \<bar>iou_val r\<bar> \<le> \<bar>x\<bar>"
    using iou_mulRatio_magnitude [OF a assms(3-6) rng [unfolded ax], of neg roundUp]
    unfolding amt ax [symmetric] by blast
  show ?thesis using r iou_val_signed [OF r(3,4), folded sx] sx1 by auto
qed

theorem iou_mulRatio_accurate_witness:
  "\<exists>r. iou_mulRatio \<lparr>mantissa = 1000000000000000, exponent = - 15\<rparr> 1 3 False = Inr r \<and>
       \<bar>iou_val r - 1 / 3\<bar> \<le> 2 / 10 ^ 15 * \<bar>1 / 3\<bar> \<and> \<bar>iou_val r\<bar> \<le> \<bar>1 / 3\<bar>"
proof -
  let ?a = "\<lparr>mantissa = 1000000000000000, exponent = - 15\<rparr>"
  have v: "iou_val ?a = 1"
    using dec_shift_pow [of 1 15 "- 15"] by (simp add: iou_val_def dec_def)
  have h: "iou_ok ?a" "mantissa ?a \<noteq> 0" "0 < (1::int)" "u32_range 1" "0 < (3::int)" "u32_range 3"
    by (simp_all add: iou_ok_def amount_simps u32_range_def)
  have x: "1 / 3 = iou_val ?a * of_int 1 / of_int 3" by (simp add: v)
  have "dec 1 (- 80) \<le> dec 1 (- 1)" by (intro dec_exp_mono) auto
  also have "dec 1 (- 1) \<le> \<bar>1 / 3\<bar>" by (simp add: dec_def power_int_minus)
  finally have lo: "dec 1 (- 80) \<le> \<bar>1 / 3\<bar>" .
  have "\<bar>1 / 3 :: real\<bar> \<le> dec 1 0" by (simp add: dec_def)
  also have "\<dots> \<le> dec 1 95" by (intro dec_exp_mono) auto
  finally have hi: "\<bar>1 / 3\<bar> \<le> dec 1 95" .
  from iou_mulRatio_accurate [OF h x lo hi, of False] show ?thesis by auto
qed

text \<open>
  Rounding up is not always honoured: the remainder test runs before the digits that
  normalization drops are known, so an exact product that does not fit 16 digits is
  truncated although rounding up was asked for.
\<close>

lemma iou_mulRatio_up_truncates:
  "iou_mulRatio \<lparr>mantissa = 9999999999999999, exponent = 0\<rparr> 3 1 True =
     Inr \<lparr>mantissa = 2999999999999999, exponent = 1\<rparr>"
  "iou_val \<lparr>mantissa = 2999999999999999, exponent = 1\<rparr> <
     iou_val \<lparr>mantissa = 9999999999999999, exponent = 0\<rparr> * 3"
proof -
  have "iou_val \<lparr>mantissa = 2999999999999999, exponent = 1\<rparr> = dec 29999999999999990 0"
    using dec_shift [of 2999999999999999 0] by (simp add: iou_val_def)
  moreover have "iou_val \<lparr>mantissa = 9999999999999999, exponent = 0\<rparr> * 3 = dec 29999999999999997 0"
    by (simp add: iou_val_def dec_def)
  ultimately show "iou_val \<lparr>mantissa = 2999999999999999, exponent = 1\<rparr> <
     iou_val \<lparr>mantissa = 9999999999999999, exponent = 0\<rparr> * 3" by simp
qed (simp add: iou_mulRatio_def ratio_grow_def ratio_shrink_def log10Ceil_def lower_bound_pow_def
      powerTable_eq mk_iou_def normalize_def normalize_up.simps normalize_down.simps amount_simps)

end
