(* ===== verification/STAmount.thy ===== *)
theory STAmount
  imports IOUAmount
begin

text \<open>
  \<^verbatim>\<open>protocol/STAmount.h\<close>, \<^verbatim>\<open>protocol/impl/STAmount.cpp\<close>: serialized amounts, native
  (drops of the system currency) or issued. The field name inherited from
  \<^verbatim>\<open>STBase\<close> is not part of the model. This theory holds the representation, the
  constructors, \<open>canonicalize\<close>, the comparisons and addition; \<open>STAmountArith\<close> the
  multiplications, divisions and rates. Values of type \<^verbatim>\<open>std::uint64_t\<close> are
  integers reduced with \<open>u64\<close> where the source can wrap.
\<close>

record Issue =
  currency :: int
  account :: int

definition isM :: "Issue \<Rightarrow> bool" where
  "isM i \<longleftrightarrow> currency i = 0"

definition mIssue0 :: Issue where
  "mIssue0 = \<lparr>currency = 0, account = 0\<rparr>"

definition noIssue :: Issue where
  "noIssue = \<lparr>currency = 1, account = 1\<rparr>"

record STAmount =
  mIssue :: Issue
  mValue :: int
  mOffset :: int
  mIsNative :: bool
  mIsNegative :: bool
  mDecimal :: int

definition cMinOffset :: int where "cMinOffset = - 96"
definition cMaxOffset :: int where "cMaxOffset = 80"
definition cMinValue :: int where "cMinValue = 1000000000000000"
definition cMaxValue :: int where "cMaxValue = 9999999999999999"
definition cMaxNative :: int where "cMaxNative = 9000000000000000000"
definition cMaxNativeN :: int where "cMaxNativeN = 100000000000000000"

declare cMinOffset_def [amount_simps] cMaxOffset_def [amount_simps]
  cMinValue_def [amount_simps] cMaxValue_def [amount_simps]
  cMaxNative_def [amount_simps] cMaxNativeN_def [amount_simps]

definition st_signum :: "STAmount \<Rightarrow> int" where
  "st_signum a = (if mValue a \<noteq> 0 then if mIsNegative a then - 1 else 1 else 0)"

text \<open>\<^verbatim>\<open>amount == zero\<close> compares \<^verbatim>\<open>signum()\<close> with 0.\<close>

definition is_zero :: "STAmount \<Rightarrow> bool" where
  "is_zero a \<longleftrightarrow> st_signum a = 0"

text \<open>A conversion to \<^verbatim>\<open>std::int64_t\<close>.\<close>

definition s64 :: "int \<Rightarrow> int" where
  "s64 x = (x + 2 ^ 63) mod 2 ^ 64 - 2 ^ 63"

subsection \<open>canonicalize\<close>

function native_down :: "int \<Rightarrow> int \<Rightarrow> int \<times> int" where
  "native_down v off = (if off < 0 then native_down (v div 10) (off + 1) else (v, off))"
  by pat_completeness auto
termination
  by (relation "measure (\<lambda>(v, off). nat (- off))") auto

function native_up :: "int \<Rightarrow> int \<Rightarrow> int \<times> int" where
  "native_up v off = (if off > 0 then native_up (u64 (v * 10)) (off - 1) else (v, off))"
  by pat_completeness auto
termination
  by (relation "measure (\<lambda>(v, off). nat off)") auto

function canon_up :: "int \<Rightarrow> int \<Rightarrow> int \<times> int" where
  "canon_up v off =
     (if v < cMinValue \<and> off > cMinOffset then canon_up (u64 (v * 10)) (off - 1) else (v, off))"
  by pat_completeness auto
termination
  by (relation "measure (\<lambda>(v, off). nat (off - cMinOffset))") auto

function canon_down :: "int \<Rightarrow> int \<Rightarrow> (int \<times> int) result" where
  "canon_down v off =
     (if v > cMaxValue
      then if off \<ge> cMaxOffset then Inl (runtime_error ''value overflow'')
           else canon_down (v div 10) (off + 1)
      else Inr (v, off))"
  by pat_completeness auto
termination
  by (relation "measure (\<lambda>(v, off). nat v)") (auto simp: cMaxValue_def)

function strip_zeros :: "int \<Rightarrow> int \<Rightarrow> int" where
  "strip_zeros v off =
     (if off < 0 \<and> v mod 10 = 0 then strip_zeros (v div 10) (off + 1) else off)"
  by pat_completeness auto
termination
  by (relation "measure (\<lambda>(v, off). nat (- off))") auto

declare native_down.simps [simp del] native_up.simps [simp del] canon_up.simps [simp del]
  canon_down.simps [simp del] strip_zeros.simps [simp del]

definition decimals :: "int \<Rightarrow> int \<Rightarrow> int" where
  "decimals v off = (let o' = strip_zeros v off in if o' \<ge> 0 then 0 else - o')"

definition canonicalize :: "STAmount \<Rightarrow> STAmount result" where
  "canonicalize a =
     (if isM (mIssue a) then
        if mValue a = 0
        then Inr (a\<lparr>mIsNative := True, mOffset := 0, mIsNegative := False\<rparr>)
        else
          let (v1, o1) = native_down (mValue a) (mOffset a);
              (v2, o2) = native_up v1 o1
          in if v2 > cMaxNativeN
             then Inl (runtime_error ''Native currency amount out of range'')
             else Inr (a\<lparr>mIsNative := True, mValue := v2, mOffset := o2\<rparr>)
      else if mValue a = 0
      then Inr (a\<lparr>mIsNative := False, mOffset := - 100, mIsNegative := False\<rparr>)
      else
        let (v1, o1) = canon_up (mValue a) (mOffset a)
        in rbind (canon_down v1 o1) (\<lambda>(v2, o2).
             if o2 < cMinOffset \<or> v2 < cMinValue
             then Inr (a\<lparr>mIsNative := False, mValue := 0, mIsNegative := False, mOffset := - 100\<rparr>)
             else if o2 > cMaxOffset then Inl (runtime_error ''value overflow'')
             else Inr (a\<lparr>mIsNative := False, mValue := v2, mOffset := o2,
                         mDecimal := decimals v2 o2\<rparr>)))"

subsection \<open>Constructors and conversions\<close>

text \<open>
  The constructors that call \<open>canonicalize\<close>; the one taking an \<^verbatim>\<open>std::int64_t\<close> goes
  through \<^verbatim>\<open>set\<close>.
\<close>

definition mk_amount :: "Issue \<Rightarrow> int \<Rightarrow> int \<Rightarrow> bool \<Rightarrow> STAmount result" where
  "mk_amount issue m e neg =
     canonicalize \<lparr>mIssue = issue, mValue = m, mOffset = e, mIsNative = False,
                   mIsNegative = neg, mDecimal = 0\<rparr>"

definition st_set :: "int \<Rightarrow> STAmount \<Rightarrow> STAmount" where
  "st_set v a =
     (if v < 0 then a\<lparr>mIsNegative := True, mValue := u64 (- v)\<rparr>
      else a\<lparr>mIsNegative := False, mValue := u64 v\<rparr>)"

definition mk_amount_s64 :: "Issue \<Rightarrow> int \<Rightarrow> int \<Rightarrow> STAmount result" where
  "mk_amount_s64 issue m e =
     canonicalize (st_set m \<lparr>mIssue = issue, mValue = 0, mOffset = e, mIsNative = False,
                             mIsNegative = False, mDecimal = 0\<rparr>)"

text \<open>Native constructors: \<^verbatim>\<open>(SField, std::int64_t)\<close> and \<^verbatim>\<open>(std::uint64_t, bool)\<close>.\<close>

definition mk_native_s64 :: "int \<Rightarrow> STAmount" where
  "mk_native_s64 m =
     st_set m \<lparr>mIssue = mIssue0, mValue = 0, mOffset = 0, mIsNative = True,
               mIsNegative = False, mDecimal = 0\<rparr>"

definition mk_native :: "int \<Rightarrow> bool \<Rightarrow> STAmount" where
  "mk_native m neg =
     \<lparr>mIssue = mIssue0, mValue = m, mOffset = 0, mIsNative = True,
      mIsNegative = (m \<noteq> 0 \<and> neg), mDecimal = 0\<rparr>"

text \<open>\<^verbatim>\<open>STAmount (MAmount)\<close>, \<^verbatim>\<open>STAmount (IOUAmount, Issue)\<close>, and back.\<close>

definition of_m :: "int \<Rightarrow> STAmount result" where
  "of_m drops =
     canonicalize \<lparr>mIssue = mIssue0, mValue = (if drops < 0 then - drops else drops),
                   mOffset = 0, mIsNative = True, mIsNegative = drops < 0, mDecimal = 0\<rparr>"

definition of_iou :: "IOUAmount \<Rightarrow> Issue \<Rightarrow> STAmount result" where
  "of_iou a issue =
     (let neg = iou_signum a < 0 in
      canonicalize \<lparr>mIssue = issue, mValue = (if neg then - mantissa a else mantissa a),
                    mOffset = exponent a, mIsNative = False, mIsNegative = neg, mDecimal = 0\<rparr>)"

definition to_m :: "STAmount \<Rightarrow> int result" where
  "to_m a =
     (if \<not> mIsNative a
      then Inl (logic_error ''Cannot return non-native STAmount as MAmount'')
      else let drops = s64 (mValue a) in Inr (if mIsNegative a then - drops else drops))"

definition to_iou :: "STAmount \<Rightarrow> IOUAmount result" where
  "to_iou a =
     (if mIsNative a
      then Inl (logic_error ''Cannot return native STAmount as IOUAmount'')
      else let m = s64 (mValue a) in mk_iou (if mIsNegative a then - m else m) (mOffset a))"

definition getSNValue :: "STAmount \<Rightarrow> int result" where
  "getSNValue a =
     (if \<not> mIsNative a then Inl (runtime_error ''amount is not native!'')
      else let ret = s64 (mValue a) in Inr (if mIsNegative a then - ret else ret))"

definition setIssue :: "Issue \<Rightarrow> STAmount \<Rightarrow> STAmount" where
  "setIssue i a = a\<lparr>mIssue := i, mIsNative := isM i\<rparr>"

definition st_clear :: "STAmount \<Rightarrow> STAmount" where
  "st_clear a = a\<lparr>mOffset := (if mIsNative a then 0 else - 100), mValue := 0,
                  mIsNegative := False\<rparr>"

definition st_negate :: "STAmount \<Rightarrow> STAmount" where
  "st_negate a = (if \<not> is_zero a then a\<lparr>mIsNegative := \<not> mIsNegative a\<rparr> else a)"

text \<open>Unary minus builds the result with the \<^verbatim>\<open>unchecked\<close> constructor.\<close>

definition st_uminus :: "STAmount \<Rightarrow> STAmount" where
  "st_uminus a =
     (if mValue a = 0 then a
      else a\<lparr>mIsNegative := \<not> mIsNegative a, mDecimal := 0\<rparr>)"

subsection \<open>Comparison and addition\<close>

definition areComparable :: "STAmount \<Rightarrow> STAmount \<Rightarrow> bool" where
  "areComparable a b \<longleftrightarrow> mIsNative a = mIsNative b \<and>
     currency (mIssue a) = currency (mIssue b)"

definition st_eq :: "STAmount \<Rightarrow> STAmount \<Rightarrow> bool" where
  "st_eq a b \<longleftrightarrow> areComparable a b \<and> mIsNegative a = mIsNegative b \<and>
     mOffset a = mOffset b \<and> mValue a = mValue b"

definition st_less :: "STAmount \<Rightarrow> STAmount \<Rightarrow> bool result" where
  "st_less a b =
     (if \<not> areComparable a b
      then Inl (runtime_error ''Can't compare amounts that are't comparable!'')
      else Inr (
        if mIsNegative a \<noteq> mIsNegative b then mIsNegative a
        else if mValue a = 0 then if mIsNegative b then False else mValue b \<noteq> 0
        else if mValue b = 0 then False
        else if mOffset a > mOffset b then mIsNegative a
        else if mOffset a < mOffset b then \<not> mIsNegative a
        else if mValue a > mValue b then mIsNegative a
        else if mValue a < mValue b then \<not> mIsNegative a
        else False))"

definition st_add :: "STAmount \<Rightarrow> STAmount \<Rightarrow> STAmount result" where
  "st_add v1 v2 =
     (if \<not> areComparable v1 v2
      then Inl (runtime_error ''Can't add amounts that are't comparable!'')
      else if is_zero v2 then Inr v1
      else if is_zero v1
      then mk_amount (mIssue v1) (mValue v2) (mOffset v2) (mIsNegative v2)
      else if mIsNative v1
      then rbind (getSNValue v1) (\<lambda>a. rbind (getSNValue v2) (\<lambda>b.
             Inr (mk_native_s64 (s64 (a + b)))))
      else
        let vv1 = (if mIsNegative v1 then - s64 (mValue v1) else s64 (mValue v1));
            vv2 = (if mIsNegative v2 then - s64 (mValue v2) else s64 (mValue v2));
            (w1, ov1) = shift_to vv1 (mOffset v1) (mOffset v2);
            (w2, ov2) = shift_to vv2 (mOffset v2) ov1;
            fv = w1 + w2
        in if fv \<ge> - 10 \<and> fv \<le> 10 then mk_amount (mIssue v1) 0 0 False
           else if fv \<ge> 0 then mk_amount (mIssue v1) (u64 fv) ov1 False
           else mk_amount (mIssue v1) (u64 (- fv)) ov1 True)"

definition st_sub :: "STAmount \<Rightarrow> STAmount \<Rightarrow> STAmount result" where
  "st_sub v1 v2 = st_add v1 (st_uminus v2)"


subsection \<open>The loops in closed form\<close>

lemma u64_times_10: "0 \<le> v \<Longrightarrow> v < cMinValue \<Longrightarrow> u64 (v * 10) = v * 10"
  by (rule u64_id) (simp add: u64_range_def amount_simps)

lemma canon_up_eq: "0 \<le> v \<Longrightarrow> canon_up v off = normalize_up v off"
proof (induction v off rule: canon_up.induct)
  case (1 v off)
  show ?case
  proof (cases "v < cMinValue \<and> off > cMinOffset")
    case True
    with 1 u64_times_10 show ?thesis
      by (simp add: canon_up.simps [of v off] normalize_up.simps [of v off]
          cMinValue_def minMantissa_def cMinOffset_def minExponent_def)
  next
    case False
    then show ?thesis
      by (auto simp: canon_up.simps [of v off] normalize_up.simps [of v off] amount_simps)
  qed
qed

lemma canon_down_eq:
  "canon_down v off = (case normalize_down v off of
     Inl x \<Rightarrow> Inl (runtime_error ''value overflow'') | Inr p \<Rightarrow> Inr p)"
proof (induction v off rule: canon_down.induct)
  case (1 v off)
  then show ?case
    by (cases "v > cMaxValue \<and> off < cMaxOffset")
      (auto simp: canon_down.simps [of v off] normalize_down.simps [of v off] amount_simps)
qed

lemma native_down_form: "off \<le> 0 \<Longrightarrow> native_down v off = (v div 10 ^ nat (- off), 0)"
proof (induction v off rule: native_down.induct)
  case (1 v off)
  show ?case
  proof (cases "off < 0")
    case True
    then have "nat (- off) = Suc (nat (- (off + 1)))" by simp
    with True 1 show ?thesis
      by (simp add: native_down.simps [of v off] div_10_pow del: power_Suc)
  next
    case False
    with 1 show ?thesis by (simp add: native_down.simps [of v 0])
  qed
qed

lemma native_down_pos: "0 \<le> off \<Longrightarrow> native_down v off = (v, off)"
  by (simp add: native_down.simps)

lemma u64_mult_u64: "u64 (u64 a * b) = u64 (a * b)"
  by (simp add: u64_def mod_mult_left_eq)

lemma native_up_form:
  "0 \<le> off \<Longrightarrow> u64_range v \<Longrightarrow> native_up v off = (u64 (v * 10 ^ nat off), 0)"
proof (induction v off rule: native_up.induct)
  case (1 v off)
  show ?case
  proof (cases "off > 0")
    case True
    then have "nat off = Suc (nat (off - 1))" by simp
    with True 1 show ?thesis
      by (simp add: native_up.simps [of v off] u64_mult_u64 mult.assoc)
  next
    case False
    with 1 show ?thesis by (simp add: native_up.simps [of v 0])
  qed
qed

lemma canonicalize_norm:
  assumes "\<not> isM (mIssue a)" "0 \<le> mValue a"
  shows "canonicalize a =
    (case normalize \<lparr>mantissa = mValue a, exponent = mOffset a\<rparr> of
       Inl x \<Rightarrow> Inl (runtime_error ''value overflow'')
     | Inr r \<Rightarrow> Inr (a\<lparr>mIsNative := False, mValue := mantissa r, mOffset := exponent r,
           mIsNegative := (mIsNegative a \<and> mantissa r \<noteq> 0),
           mDecimal := (if mantissa r = 0 then mDecimal a
                        else decimals (mantissa r) (exponent r))\<rparr>))"
proof (cases "mValue a = 0")
  case True
  with assms show ?thesis by (simp add: canonicalize_def normalize_def iou_zero_def)
next
  case False
  obtain v1 o1 where up: "normalize_up (mValue a) (mOffset a) = (v1, o1)" by fastforce
  have cu: "canon_up (mValue a) (mOffset a) = (v1, o1)"
    using canon_up_eq [OF assms(2)] up by simp
  have "\<not> mValue a < 0" using assms(2) by simp
  with False assms up cu show ?thesis
    by (cases "normalize_down v1 o1")
      (auto simp: canonicalize_def normalize_def canon_down_eq iou_zero_def
        cMinOffset_def cMaxOffset_def cMinValue_def minExponent_def maxExponent_def
        minMantissa_def)
qed

text \<open>
  C19. On issued currencies \<^verbatim>\<open>STAmount::canonicalize\<close> is \<^verbatim>\<open>IOUAmount::normalize\<close>: it
  throws exactly when the latter does, and otherwise stores the same mantissa and
  exponent, keeps the sign except on zero, and records the number of decimals. What
  \<open>normalize_correct\<close> says of the one therefore holds for the other.
\<close>
theorem canonicalize_issued:
  assumes "\<not> isM (mIssue a)" "0 \<le> mValue a"
  shows "canonicalize a =
    (case normalize \<lparr>mantissa = mValue a, exponent = mOffset a\<rparr> of
       Inl x \<Rightarrow> Inl (runtime_error ''value overflow'')
     | Inr r \<Rightarrow> Inr (a\<lparr>mIsNative := False, mValue := mantissa r, mOffset := exponent r,
           mIsNegative := (mIsNegative a \<and> mantissa r \<noteq> 0),
           mDecimal := (if mantissa r = 0 then mDecimal a
                        else decimals (mantissa r) (exponent r))\<rparr>))"
  using assms by (rule canonicalize_norm)

theorem canonicalize_issued_witness:
  "canonicalize \<lparr>mIssue = noIssue, mValue = 1234567890123456789, mOffset = - 3,
                 mIsNative = False, mIsNegative = True, mDecimal = 0\<rparr> =
   Inr \<lparr>mIssue = noIssue, mValue = 1234567890123456, mOffset = 0,
        mIsNative = False, mIsNegative = True, mDecimal = 0\<rparr>"
proof -
  let ?a = "\<lparr>mIssue = noIssue, mValue = 1234567890123456789, mOffset = - 3,
                 mIsNative = False, mIsNegative = True, mDecimal = 0\<rparr>"
  have h: "\<not> isM (mIssue ?a)" "0 \<le> mValue ?a" by (simp_all add: isM_def noIssue_def)
  show ?thesis
    using canonicalize_issued [OF h]
    by (simp add: normalize_def normalize_up.simps normalize_down.simps decimals_def
        strip_zeros.simps amount_simps)
qed

text \<open>
  C20. On the native currency \<^verbatim>\<open>canonicalize\<close> shifts the value to offset zero, dropping
  digits for a negative offset and multiplying modulo \<open>2^64\<close> for a positive one,
  and throws exactly when the outcome exceeds \<^verbatim>\<open>cMaxNativeN\<close>; the sign is untouched.
\<close>
theorem canonicalize_native:
  assumes "isM (mIssue a)" "mValue a \<noteq> 0" "u64_range (mValue a)"
  defines "w \<equiv> if mOffset a < 0 then mValue a div 10 ^ nat (- mOffset a)
               else u64 (mValue a * 10 ^ nat (mOffset a))"
  shows "canonicalize a =
    (if w > cMaxNativeN then Inl (runtime_error ''Native currency amount out of range'')
     else Inr (a\<lparr>mIsNative := True, mValue := w, mOffset := 0\<rparr>))"
proof (cases "mOffset a < 0")
  case True
  have "native_up (mValue a div 10 ^ nat (- mOffset a)) 0 =
      (mValue a div 10 ^ nat (- mOffset a), 0)"
    by (simp add: native_up.simps)
  with True assms show ?thesis
    by (simp add: canonicalize_def native_down_form)
next
  case False
  with assms show ?thesis
    by (simp add: canonicalize_def native_down_pos native_up_form)
qed

theorem canonicalize_native_witness:
  "canonicalize \<lparr>mIssue = mIssue0, mValue = 25, mOffset = 3, mIsNative = True,
                 mIsNegative = False, mDecimal = 0\<rparr> =
   Inr \<lparr>mIssue = mIssue0, mValue = 25000, mOffset = 0, mIsNative = True,
        mIsNegative = False, mDecimal = 0\<rparr>"
proof -
  let ?a = "\<lparr>mIssue = mIssue0, mValue = 25, mOffset = 3, mIsNative = True,
                 mIsNegative = False, mDecimal = 0\<rparr>"
  have h: "isM (mIssue ?a)" "mValue ?a \<noteq> 0" "u64_range (mValue ?a)"
    by (simp_all add: isM_def mIssue0_def u64_range_def)
  show ?thesis using canonicalize_native [OF h] by (simp add: u64_def amount_simps)
qed

text \<open>
  The wrap-around is reachable: a native amount of \<open>1844674407370955162 * 10\<close> drops
  (far above the supply) is accepted as 4 drops.
\<close>

lemma canonicalize_native_wraps:
  "mk_amount mIssue0 1844674407370955162 1 False =
     Inr \<lparr>mIssue = mIssue0, mValue = 4, mOffset = 0, mIsNative = True,
          mIsNegative = False, mDecimal = 0\<rparr>"
  by (simp add: mk_amount_def canonicalize_def isM_def mIssue0_def native_down.simps
      native_up.simps u64_def amount_simps)

text \<open>
  A negative native amount that is truncated to zero keeps its sign, a representation
  the deserializer rejects.
\<close>

lemma canonicalize_negative_zero:
  "mk_amount mIssue0 5 (- 1) True =
     Inr \<lparr>mIssue = mIssue0, mValue = 0, mOffset = 0, mIsNative = True,
          mIsNegative = True, mDecimal = 0\<rparr>"
  by (simp add: mk_amount_def canonicalize_def isM_def mIssue0_def native_down.simps
      native_up.simps amount_simps)

subsection \<open>Issued amounts implement the arithmetic of IOUAmount\<close>

definition st_abs :: "STAmount \<Rightarrow> IOUAmount" where
  "st_abs a = \<lparr>mantissa = (if mIsNegative a then - mValue a else mValue a),
               exponent = mOffset a\<rparr>"

definition st_val :: "STAmount \<Rightarrow> real" where
  "st_val a = iou_val (st_abs a)"

text \<open>The canonical amounts; a native one is below \<open>2^63\<close> drops.\<close>

definition st_ok :: "STAmount \<Rightarrow> bool" where
  "st_ok a \<longleftrightarrow> mIsNative a = isM (mIssue a) \<and> 0 \<le> mValue a \<and>
     (mIsNegative a \<longrightarrow> mValue a \<noteq> 0) \<and>
     (if mIsNative a then mOffset a = 0 \<and> mValue a < 2 ^ 63 else iou_ok (st_abs a))"

lemma st_abs_simps [simp]:
  "mantissa (st_abs a) = (if mIsNegative a then - mValue a else mValue a)"
  "exponent (st_abs a) = mOffset a"
  by (simp_all add: st_abs_def)

lemma is_zero_iff [simp]: "is_zero a \<longleftrightarrow> mValue a = 0"
  by (simp add: is_zero_def st_signum_def)

lemma normalize_nonneg:
  assumes "0 \<le> m" "normalize \<lparr>mantissa = m, exponent = e\<rparr> = Inr r"
  shows "0 \<le> mantissa r" "iou_ok r"
proof -
  show "iou_ok r" using normalize_cases [of m e] assms(2) by simp
  show "0 \<le> mantissa r"
    using normalize_cases [of m e] assms
    by (cases "m = 0") (auto simp: iou_zero_def normalize_def sgn_if split: if_splits)
qed

text \<open>\<open>canonicalize\<close> is \<open>normalize\<close> through the abstraction \<open>st_abs\<close>.\<close>

lemma canonicalize_abs:
  assumes "\<not> isM (mIssue a)" "0 \<le> mValue a"
  shows "case canonicalize a of
           Inl x \<Rightarrow> x = runtime_error ''value overflow'' \<and> (\<exists>y. normalize (st_abs a) = Inl y)
         | Inr r \<Rightarrow> normalize (st_abs a) = Inr (st_abs r) \<and> mIssue r = mIssue a \<and>
             \<not> mIsNative r \<and> st_ok r"
proof -
  let ?n = "normalize \<lparr>mantissa = mValue a, exponent = mOffset a\<rparr>"
  have neg: "normalize (st_abs a) =
      rbind ?n (\<lambda>r. Inr \<lparr>mantissa = (if mIsNegative a then - mantissa r else mantissa r),
                        exponent = exponent r\<rparr>)"
  proof (cases "mIsNegative a \<and> mValue a \<noteq> 0")
    case True
    then show ?thesis
      using normalize_neg [of "mValue a" "mOffset a"] assms(2) by (simp add: st_abs_def)
  next
    case False
    then show ?thesis
      by (cases ?n) (auto simp: st_abs_def normalize_def iou_zero_def)
  qed
  show ?thesis
  proof (cases ?n)
    case (Inl x)
    then show ?thesis using neg canonicalize_norm [OF assms] by simp
  next
    case (Inr r)
    have r: "0 \<le> mantissa r" "iou_ok r" using normalize_nonneg [OF assms(2) Inr] by auto
    then have "iou_ok \<lparr>mantissa = - mantissa r, exponent = exponent r\<rparr>"
      by (auto simp: iou_ok_def iou_zero_def)
    moreover have "iou_ok \<lparr>mantissa = mantissa r, exponent = exponent r\<rparr>"
      using r by (cases r) simp
    ultimately show ?thesis
      using r Inr neg canonicalize_norm [OF assms] assms(1)
      by (auto simp: st_ok_def st_abs_def)
  qed
qed

lemma canonicalize_st_ok:
  assumes "canonicalize a = Inr r" "\<not> isM (mIssue a)" "0 \<le> mValue a"
  shows "st_ok r" "normalize (st_abs a) = Inr (st_abs r)" "mIssue r = mIssue a"
    "\<not> mIsNative r"
  using canonicalize_abs [OF assms(2,3)] assms(1) by auto

lemma normalize_canonical:
  assumes "iou_ok a"
  shows "normalize a = Inr a"
proof -
  obtain m e where a: "a = \<lparr>mantissa = m, exponent = e\<rparr>" by (cases a) auto
  have up: "normalize_up k e = (k, e)" if "minMantissa \<le> k" for k
    using that by (simp add: normalize_up.simps)
  have down: "normalize_down k e = Inr (k, e)" if "k \<le> maxMantissa" for k
    using that by (simp add: normalize_down.simps)
  show ?thesis
    using assms up [of "\<bar>m\<bar>"] down [of "\<bar>m\<bar>"]
    by (auto simp: a normalize_def iou_ok_def iou_zero_def amount_simps abs_if split: if_splits)
qed

lemma canonicalize_ok:
  assumes "st_ok a" "\<not> mIsNative a" "\<not> isM i"
  shows "case mk_amount i (mValue a) (mOffset a) (mIsNegative a) of
           Inl x \<Rightarrow> False
         | Inr r \<Rightarrow> st_abs r = st_abs a \<and> mIssue r = i \<and> \<not> mIsNative r \<and> st_ok r"
proof -
  let ?b = "\<lparr>mIssue = i, mValue = mValue a, mOffset = mOffset a, mIsNative = False,
             mIsNegative = mIsNegative a, mDecimal = 0\<rparr>"
  have e: "st_abs ?b = st_abs a" by (simp add: st_abs_def)
  have n: "normalize (st_abs ?b) = Inr (st_abs a)"
    unfolding e using assms by (intro normalize_canonical) (simp add: st_ok_def)
  have g: "\<not> isM (mIssue ?b)" "0 \<le> mValue ?b" using assms by (simp_all add: st_ok_def)
  show ?thesis
    using canonicalize_abs [OF g] unfolding n mk_amount_def by (auto split: sum.splits)
qed

lemma s64_id: "- (2 ^ 63) \<le> x \<Longrightarrow> x < 2 ^ 63 \<Longrightarrow> s64 x = x"
  by (simp add: s64_def)

lemma st_ok_value: "st_ok a \<Longrightarrow> \<not> mIsNative a \<Longrightarrow> 0 \<le> mValue a \<and> mValue a \<le> maxMantissa"
  using iou_ok_mantissa [of "st_abs a"] by (auto simp: st_ok_def split: if_splits)

lemma st_ok_s64: "st_ok a \<Longrightarrow> s64 (mValue a) = mValue a"
  using st_ok_value [of a]
  by (cases "mIsNative a") (auto intro!: s64_id simp: st_ok_def maxMantissa_def)

text \<open>The three constructor calls at the end of \<^verbatim>\<open>operator+\<close> together.\<close>

lemma mk_sum:
  assumes "\<not> isM i" "\<bar>f\<bar> < 2 ^ 63"
  shows "case (if f \<ge> 0 then mk_amount i (u64 f) e False else mk_amount i (u64 (- f)) e True) of
           Inl x \<Rightarrow> x = runtime_error ''value overflow'' \<and>
             (\<exists>y. normalize \<lparr>mantissa = f, exponent = e\<rparr> = Inl y)
         | Inr r \<Rightarrow> normalize \<lparr>mantissa = f, exponent = e\<rparr> = Inr (st_abs r) \<and> mIssue r = i \<and>
             \<not> mIsNative r \<and> st_ok r"
proof -
  have "u64 \<bar>f\<bar> = \<bar>f\<bar>" using assms by (intro u64_id) (simp add: u64_range_def)
  then show ?thesis
    using canonicalize_abs [of "\<lparr>mIssue = i, mValue = \<bar>f\<bar>, mOffset = e, mIsNative = False,
             mIsNegative = f < 0, mDecimal = 0\<rparr>"] assms
    by (auto simp: mk_amount_def st_abs_def abs_if split: if_splits sum.splits)
qed

text \<open>
  C17. On canonical issued amounts \<^verbatim>\<open>operator+\<close> of \<^verbatim>\<open>STAmount\<close> implements
  \<^verbatim>\<open>IOUAmount::operator+=\<close>: it throws exactly when that one does, and otherwise the
  result is canonical, carries the left operand's issue and denotes the same
  mantissa and exponent.
\<close>
theorem st_add_refines_iou_add:
  assumes "st_ok a" "st_ok b" "\<not> mIsNative a" "areComparable a b"
  shows "case st_add a b of
           Inl x \<Rightarrow> x = runtime_error ''value overflow'' \<and>
             (\<exists>y. iou_add (st_abs a) (st_abs b) = Inl y)
         | Inr r \<Rightarrow> iou_add (st_abs a) (st_abs b) = Inr (st_abs r) \<and> mIssue r = mIssue a \<and>
             \<not> mIsNative r \<and> st_ok r"
proof -
  have nb: "\<not> mIsNative b" and i: "\<not> isM (mIssue a)"
    using assms by (auto simp: areComparable_def st_ok_def)
  consider "mValue b = 0" | "mValue b \<noteq> 0" "mValue a = 0" | "mValue b \<noteq> 0" "mValue a \<noteq> 0"
    by blast
  then show ?thesis
  proof cases
    case 1
    then show ?thesis using assms by (simp add: st_add_def iou_add_def)
  next
    case 2
    then show ?thesis
      using canonicalize_ok [OF assms(2) nb i] assms
      by (auto simp: st_add_def iou_add_def split: sum.splits)
  next
    case 3
    let ?m = "mantissa (st_abs a)" and ?k = "mantissa (st_abs b)"
    obtain n1 f1 where s1: "shift_to ?m (mOffset a) (mOffset b) = (n1, f1)" by fastforce
    obtain n2 f2 where s2: "shift_to ?k (mOffset b) f1 = (n2, f2)" by fastforce
    have "\<bar>n1\<bar> \<le> maxMantissa" "\<bar>n2\<bar> \<le> maxMantissa"
      using shift_both [OF s1 s2] aligned_bound [of ?m "mOffset a" "max (mOffset a) (mOffset b)"]
        aligned_bound [of ?k "mOffset b" "max (mOffset a) (mOffset b)"]
        st_ok_value [OF assms(1,3)] st_ok_value [OF assms(2) nb]
      by (auto split: if_splits)
    then have "\<bar>n1 + n2\<bar> < 2 ^ 63" by (simp add: maxMantissa_def)
    note sum = mk_sum [OF i this, of f1]
    have st: "st_add a b = (if n1 + n2 \<ge> - 10 \<and> n1 + n2 \<le> 10 then mk_amount (mIssue a) 0 0 False
        else if n1 + n2 \<ge> 0 then mk_amount (mIssue a) (u64 (n1 + n2)) f1 False
        else mk_amount (mIssue a) (u64 (- (n1 + n2))) f1 True)"
      using 3 assms(3,4) s1 s2 st_ok_s64 [OF assms(1)] st_ok_s64 [OF assms(2)]
      by (cases "mIsNegative a"; cases "mIsNegative b") (simp_all add: st_add_def Let_def)
    have iou: "iou_add (st_abs a) (st_abs b) =
        (if n1 + n2 \<ge> - 10 \<and> n1 + n2 \<le> 10 then Inr iou_zero
         else normalize \<lparr>mantissa = n1 + n2, exponent = f1\<rparr>)"
      using 3 s1 s2 by (simp add: iou_add_def Let_def)
    have zero: "case mk_amount (mIssue a) 0 0 False of Inl x \<Rightarrow> False
        | Inr r \<Rightarrow> st_abs r = iou_zero \<and> mIssue r = mIssue a \<and> \<not> mIsNative r \<and> st_ok r"
      using i by (simp add: mk_amount_def canonicalize_def st_abs_def iou_zero_def st_ok_def
          iou_ok_def)
    show ?thesis
    proof (cases "n1 + n2 \<ge> - 10 \<and> n1 + n2 \<le> 10")
      case True
      then show ?thesis using zero unfolding st iou by (auto split: sum.splits)
    next
      case False
      then show ?thesis using sum unfolding st iou by presburger
    qed
  qed
qed

theorem st_add_refines_iou_add_witness:
  "\<exists>r. st_add \<lparr>mIssue = noIssue, mValue = 1000000000000000, mOffset = - 15, mIsNative = False,
                mIsNegative = False, mDecimal = 0\<rparr>
              \<lparr>mIssue = noIssue, mValue = 2500000000000000, mOffset = - 16, mIsNative = False,
                mIsNegative = True, mDecimal = 2\<rparr> = Inr r \<and>
       st_abs r = \<lparr>mantissa = 7500000000000000, exponent = - 16\<rparr> \<and> st_ok r"
proof -
  let ?a = "\<lparr>mIssue = noIssue, mValue = 1000000000000000, mOffset = - 15, mIsNative = False,
                mIsNegative = False, mDecimal = 0\<rparr>"
  let ?b = "\<lparr>mIssue = noIssue, mValue = 2500000000000000, mOffset = - 16, mIsNative = False,
                mIsNegative = True, mDecimal = 2\<rparr>"
  have h: "st_ok ?a" "st_ok ?b" "\<not> mIsNative ?a" "areComparable ?a ?b"
    by (simp_all add: st_ok_def iou_ok_def areComparable_def isM_def noIssue_def amount_simps)
  have "iou_add (st_abs ?a) (st_abs ?b) = Inr \<lparr>mantissa = 7500000000000000, exponent = - 16\<rparr>"
    by (simp add: iou_add_def shift_to.simps cdiv_def normalize_def normalize_up.simps
        normalize_down.simps amount_simps)
  with st_add_refines_iou_add [OF h] show ?thesis by (auto split: sum.splits)
qed

subsection \<open>Native sums, comparison\<close>

lemma st_val_native: "mIsNative a \<Longrightarrow> st_ok a \<Longrightarrow>
    st_val a = of_int (if mIsNegative a then - mValue a else mValue a)"
  by (auto simp: st_val_def iou_val_def st_ok_def dec_def)

text \<open>
  Adding native amounts of at most \<^verbatim>\<open>cMaxNativeN\<close> drops (the total supply) never
  throws and is exact: the result is canonical and its value is the sum of the values.
\<close>
theorem st_add_native:
  assumes "st_ok a" "st_ok b" "mIsNative a" "mIsNative b"
    and lim: "mValue a \<le> cMaxNativeN" "mValue b \<le> cMaxNativeN"
  shows "\<exists>r. st_add a b = Inr r \<and> st_ok r \<and> mIsNative r \<and> st_val r = st_val a + st_val b"
proof -
  define x where "x = (if mIsNegative a then - mValue a else mValue a)"
  define y where "y = (if mIsNegative b then - mValue b else mValue b)"
  have va: "st_val a = of_int x" and vb: "st_val b = of_int y"
    using assms by (simp_all add: st_val_native x_def y_def)
  have xy: "\<bar>x + y\<bar> < 2 ^ 63"
    using lim assms(1,2) by (auto simp: x_def y_def st_ok_def cMaxNativeN_def)
  have cur: "currency (mIssue a) = 0" "currency (mIssue b) = 0"
    using assms by (auto simp: st_ok_def isM_def)
  consider "mValue b = 0" | "mValue b \<noteq> 0" "mValue a = 0" | "mValue b \<noteq> 0" "mValue a \<noteq> 0"
    by blast
  then show ?thesis
  proof cases
    case 1
    then show ?thesis using assms va vb cur by (auto simp: st_add_def areComparable_def y_def)
  next
    case 2
    have "st_add a b = Inr (b\<lparr>mIssue := mIssue a, mDecimal := 0\<rparr>)"
      using 2 assms cur
      by (simp add: st_add_def areComparable_def mk_amount_def canonicalize_def st_ok_def
          native_down_pos native_up.simps isM_def)
    moreover have "st_ok (b\<lparr>mIssue := mIssue a, mDecimal := 0\<rparr>)"
      using assms cur by (auto simp: st_ok_def isM_def)
    ultimately show ?thesis
      using 2 assms va vb by (auto simp: st_val_native x_def y_def)
  next
    case 3
    have "s64 (x + y) = x + y" "u64 \<bar>x + y\<bar> = \<bar>x + y\<bar>"
      using xy by (auto intro!: s64_id u64_id simp: u64_range_def)
    moreover have "getSNValue a = Inr x" "getSNValue b = Inr y"
      using assms by (simp_all add: getSNValue_def st_ok_s64 x_def y_def)
    ultimately have "st_add a b = Inr (mk_native \<bar>x + y\<bar> (x + y < 0))"
      using 3 assms cur by (auto simp: st_add_def areComparable_def mk_native_s64_def
          mk_native_def st_set_def abs_if)
    moreover have "st_ok (mk_native \<bar>x + y\<bar> (x + y < 0))"
      using xy by (auto simp: st_ok_def mk_native_def isM_def mIssue0_def)
    ultimately show ?thesis
      using va vb by (auto simp: st_val_native mk_native_def)
  qed
qed

theorem st_add_native_witness:
  "\<exists>r. st_add (mk_native 30 False) (mk_native 70 True) = Inr r \<and> st_ok r \<and> st_val r = - 40"
proof -
  let ?a = "mk_native 30 False" and ?b = "mk_native 70 True"
  have h: "st_ok ?a" "st_ok ?b" "mIsNative ?a" "mIsNative ?b"
      "mValue ?a \<le> cMaxNativeN" "mValue ?b \<le> cMaxNativeN"
    by (simp_all add: mk_native_def st_ok_def isM_def mIssue0_def cMaxNativeN_def)
  have "st_val ?a = 30" "st_val ?b = - 70"
    by (simp_all add: st_val_native h) (simp_all add: mk_native_def)
  with st_add_native [OF h] show ?thesis by auto
qed

lemma st_less_issued:
  assumes "st_ok a" "st_ok b" "\<not> mIsNative a" "\<not> mIsNative b" "areComparable a b"
  shows "st_less a b = Inr (iou_less (st_abs a) (st_abs b))"
proof -
  have "0 \<le> mValue a" "0 \<le> mValue b" "mIsNegative a \<Longrightarrow> mValue a \<noteq> 0"
      "mIsNegative b \<Longrightarrow> mValue b \<noteq> 0"
    using assms by (auto simp: st_ok_def)
  with assms(5) show ?thesis
    by (cases "mIsNegative a"; cases "mIsNegative b") (auto simp: st_less_def iou_less_def Let_def)
qed

lemma st_less_value:
  assumes "st_ok a" "st_ok b"
  shows "st_less a b =
    (if areComparable a b then Inr (st_val a < st_val b)
     else Inl (runtime_error ''Can't compare amounts that are't comparable!''))"
proof (cases "areComparable a b")
  case True
  show ?thesis
  proof (cases "mIsNative a")
    case nat: True
    with True have "mIsNative b" by (simp add: areComparable_def)
    with nat True assms show ?thesis
      by (auto simp: st_less_def st_val_native st_ok_def)
  next
    case False
    with True have "\<not> mIsNative b" by (simp add: areComparable_def)
    with False True assms show ?thesis
      by (simp add: st_less_issued iou_less_value st_val_def st_ok_def)
  qed
qed (simp add: st_less_def)

text \<open>
  C21. Comparing amounts: \<^verbatim>\<open>operator<\<close> throws exactly on amounts of different
  currencies, and on canonical comparable amounts, native or issued, it is the order
  of the values.
\<close>
theorem st_less_correct:
  assumes "st_ok a" "st_ok b"
  shows "st_less a b =
    (if areComparable a b then Inr (st_val a < st_val b)
     else Inl (runtime_error ''Can't compare amounts that are't comparable!''))"
  using assms by (rule st_less_value)

theorem st_less_correct_witness:
  "st_less (mk_native 70 True) (mk_native 30 False) = Inr True \<and>
   st_val (mk_native 70 True) < st_val (mk_native 30 False)"
proof -
  let ?a = "mk_native 70 True" and ?b = "mk_native 30 False"
  have h: "st_ok ?a" "st_ok ?b"
    by (simp_all add: mk_native_def st_ok_def isM_def mIssue0_def)
  have "areComparable ?a ?b" by (simp add: areComparable_def mk_native_def)
  moreover have "st_less ?a ?b = Inr True" by (simp add: st_less_def areComparable_def mk_native_def)
  ultimately show ?thesis using st_less_correct [OF h] by auto
qed

end
