(* ===== verification/STAmountArith.thy ===== *)
theory STAmountArith
  imports STAmount
begin

unbundle bit_operations_syntax

text \<open>
  The arithmetic of \<^verbatim>\<open>protocol/impl/STAmount.cpp\<close>: multiplication and division, plain
  and with a rounding direction, and the 64-bit rates that order offers. Products are
  formed in 128 bits by the source and are exact integers here. The run-time texts of
  the overflow exceptions are shortened. The thread-local amendment switches
  \<^verbatim>\<open>stAmountCalcSwitchover\<close> and \<^verbatim>\<open>stAmountCalcSwitchover2\<close> are the arguments
  \<open>so1\<close> and \<open>so2\<close>.
\<close>

definition tenTo14 :: int where "tenTo14 = 100000000000000"
definition tenTo14m1 :: int where "tenTo14m1 = tenTo14 - 1"
definition tenTo17 :: int where "tenTo17 = tenTo14 * 1000"

declare tenTo14_def [amount_simps] tenTo14m1_def [amount_simps] tenTo17_def [amount_simps]

definition muldiv :: "int \<Rightarrow> int \<Rightarrow> int \<Rightarrow> int result" where
  "muldiv multiplier multiplicand divisor =
     (if divisor = 0 then Inl div_by_zero
      else let ret = multiplier * multiplicand div divisor
           in if ret > u64_max then Inl (overflow_error ''overflow: (a * b) / c'') else Inr ret)"

definition muldiv_round :: "int \<Rightarrow> int \<Rightarrow> int \<Rightarrow> int \<Rightarrow> int result" where
  "muldiv_round multiplier multiplicand divisor rounding =
     (if divisor = 0 then Inl div_by_zero
      else let ret = (multiplier * multiplicand + rounding) div divisor
           in if ret > u64_max then Inl (overflow_error ''overflow: ((a * b) + r) / c'')
              else Inr ret)"

text \<open>
  The loop that brings a native value into range. Its callers have excluded the value
  zero, on which it would not end.
\<close>

function bring :: "int \<Rightarrow> int \<Rightarrow> int \<times> int" where
  "bring v off =
     (if 0 < v \<and> v < cMinValue then bring (u64 (v * 10)) (off - 1) else (v, off))"
  by pat_completeness auto
termination
proof (relation "measure (\<lambda>(v, off). nat (cMinValue - v))", simp)
  fix v off :: int
  assume a: "0 < v \<and> v < cMinValue"
  then have "u64 (v * 10) = v * 10" using u64_times_10 [of v] by simp
  with a show "((u64 (v * 10), off - 1), v, off) \<in> measure (\<lambda>(v, off). nat (cMinValue - v))"
    by auto
qed

declare bring.simps [simp del]

definition bring_native :: "STAmount \<Rightarrow> int \<times> int" where
  "bring_native a =
     (if mIsNative a then bring (mValue a) (mOffset a) else (mValue a, mOffset a))"

definition st_divide :: "STAmount \<Rightarrow> STAmount \<Rightarrow> Issue \<Rightarrow> STAmount result" where
  "st_divide num den issue =
     (if is_zero den then Inl (runtime_error ''division by zero'')
      else if is_zero num then mk_amount issue 0 0 False
      else
        let (numVal, numOffset) = bring_native num;
            (denVal, denOffset) = bring_native den
        in rbind (muldiv numVal tenTo17 denVal) (\<lambda>q.
             mk_amount issue (u64 (q + 5)) (numOffset - denOffset - 17)
               (mIsNegative num \<noteq> mIsNegative den)))"

text \<open>The product of two native amounts in native units.\<close>

definition mul_native :: "STAmount \<Rightarrow> STAmount \<Rightarrow> STAmount result" where
  "mul_native v1 v2 =
     rbind (getSNValue v1) (\<lambda>s1. rbind (getSNValue v2) (\<lambda>s2.
       let minV = u64 (if s1 < s2 then s1 else s2);
           maxV = u64 (if s1 < s2 then s2 else s1)
       in if minV > 3000000000 then Inl (runtime_error ''Native value overflow'')
          else if u64 (drop_bit 32 maxV * minV) > 2095475792
          then Inl (runtime_error ''Native value overflow'')
          else Inr (mk_native (u64 (minV * maxV)) False)))"

definition st_multiply :: "STAmount \<Rightarrow> STAmount \<Rightarrow> Issue \<Rightarrow> STAmount result" where
  "st_multiply v1 v2 issue =
     (if is_zero v1 \<or> is_zero v2 then mk_amount issue 0 0 False
      else if mIsNative v1 \<and> mIsNative v2 \<and> isM issue then mul_native v1 v2
      else
        let (value1, offset1) = bring_native v1;
            (value2, offset2) = bring_native v2
        in rbind (muldiv value1 value2 tenTo14) (\<lambda>q.
             mk_amount issue (u64 (q + 7)) (offset1 + offset2 + 14)
               (mIsNegative v1 \<noteq> mIsNegative v2)))"

text \<open>The loops of \<^verbatim>\<open>canonicalizeRound\<close>; the first counts its iterations.\<close>

function cr_native :: "int \<Rightarrow> int \<Rightarrow> int \<Rightarrow> int \<times> int \<times> int" where
  "cr_native value offset loops =
     (if offset < - 1 then cr_native (value div 10) (offset + 1) (loops + 1)
      else (value, offset, loops))"
  by pat_completeness auto
termination
  by (relation "measure (\<lambda>(v, off, l). nat (- off))") auto

function cr_issued :: "int \<Rightarrow> int \<Rightarrow> int \<times> int" where
  "cr_issued value offset =
     (if value > 10 * cMaxValue then cr_issued (value div 10) (offset + 1) else (value, offset))"
  by pat_completeness auto
termination
  by (relation "measure (\<lambda>(v, off). nat v)") (auto simp: cMaxValue_def)

declare cr_native.simps [simp del] cr_issued.simps [simp del]

definition canonicalizeRound :: "bool \<Rightarrow> int \<Rightarrow> int \<Rightarrow> int \<times> int" where
  "canonicalizeRound native value offset =
     (if native then
        if offset < 0 then
          let (v, off, loops) = cr_native value offset 0
          in (u64 (v + (if loops \<ge> 2 then 9 else 10)) div 10, off + 1)
        else (value, offset)
      else if value > cMaxValue then
        let (v, off) = cr_issued value offset in (u64 (v + 9) div 10, off + 1)
      else (value, offset))"

text \<open>The common tail of \<^verbatim>\<open>mulRound\<close> and \<^verbatim>\<open>divRound\<close>.\<close>

definition round_result ::
    "bool \<Rightarrow> bool \<Rightarrow> Issue \<Rightarrow> int \<Rightarrow> int \<Rightarrow> bool \<Rightarrow> bool \<Rightarrow> STAmount result" where
  "round_result so1 so2 issue amount offset resultNegative roundUp =
     (let (amount, offset) =
            (if resultNegative \<noteq> roundUp then canonicalizeRound (isM issue) amount offset
             else (amount, offset))
      in rbind (mk_amount issue amount offset resultNegative) (\<lambda>result.
           if roundUp \<and> \<not> resultNegative \<and> is_zero result \<and> so1
           then if isM issue \<and> so2 then mk_amount issue 1 0 resultNegative
                else mk_amount issue cMinValue cMinOffset resultNegative
           else Inr result))"

definition mulRound ::
    "bool \<Rightarrow> bool \<Rightarrow> STAmount \<Rightarrow> STAmount \<Rightarrow> Issue \<Rightarrow> bool \<Rightarrow> STAmount result" where
  "mulRound so1 so2 v1 v2 issue roundUp =
     (if is_zero v1 \<or> is_zero v2 then mk_amount issue 0 0 False
      else if mIsNative v1 \<and> mIsNative v2 \<and> isM issue then mul_native v1 v2
      else
        let (value1, offset1) = bring_native v1;
            (value2, offset2) = bring_native v2;
            resultNegative = (mIsNegative v1 \<noteq> mIsNegative v2)
        in rbind (muldiv_round value1 value2 tenTo14
                   (if resultNegative \<noteq> roundUp then tenTo14m1 else 0)) (\<lambda>amount.
             round_result so1 so2 issue amount (offset1 + offset2 + 14) resultNegative roundUp))"

definition divRound ::
    "bool \<Rightarrow> bool \<Rightarrow> STAmount \<Rightarrow> STAmount \<Rightarrow> Issue \<Rightarrow> bool \<Rightarrow> STAmount result" where
  "divRound so1 so2 num den issue roundUp =
     (if is_zero den then Inl (runtime_error ''division by zero'')
      else if is_zero num then mk_amount issue 0 0 False
      else
        let (numVal, numOffset) = bring_native num;
            (denVal, denOffset) = bring_native den;
            resultNegative = (mIsNegative num \<noteq> mIsNegative den)
        in rbind (muldiv_round numVal tenTo17 denVal
                   (if resultNegative \<noteq> roundUp then denVal - 1 else 0)) (\<lambda>amount.
             round_result so1 so2 issue amount (numOffset - denOffset - 17) resultNegative
               roundUp))"

text \<open>\<^verbatim>\<open>multiply (fraction, factor, issue)\<close>.\<close>

definition multiply_fraction :: "int \<times> int \<Rightarrow> int \<Rightarrow> Issue \<Rightarrow> STAmount result" where
  "multiply_fraction fraction factor issue =
     (let (num, den) = fraction in
      if den \<noteq> 0
      then st_multiply (mk_native (u64 (factor + den - 1) div den) False) (mk_native num False) issue
      else mk_amount issue 0 0 False)"

subsection \<open>Rates\<close>

definition getRate :: "STAmount \<Rightarrow> STAmount \<Rightarrow> int" where
  "getRate offerOut offerIn =
     (if is_zero offerOut then 0
      else case st_divide offerIn offerOut noIssue of
             Inl e \<Rightarrow> 0
           | Inr r \<Rightarrow>
               if is_zero r then 0
               else u64 (push_bit 56 (u64 (mOffset r + 100))) OR mValue r)"

definition amountFromQuality :: "int \<Rightarrow> STAmount result" where
  "amountFromQuality rate =
     (if rate = 0 then mk_amount noIssue 0 0 False
      else mk_amount noIssue (rate AND NOT (push_bit 56 255)) (drop_bit 56 rate - 100) False)"

subsection \<open>Bit fields of a rate\<close>

lemma rate_or:
  fixes e m :: int
  assumes "0 \<le> m" "m < 2 ^ 56"
  shows "push_bit 56 e OR m = e * 2 ^ 56 + m"
proof -
  have "m = take_bit 56 m" using assms by (simp add: take_bit_int_eq_self)
  then have "push_bit 56 e AND m = 0"
    by (metis (no_types, opaque_lifting) bit_eqI bit_and_iff bit_push_bit_iff bit_take_bit_iff
        bit_0_eq bot_apply bot_bool_def leD)
  then show ?thesis
    using disjunctive_add_eq_or [of "push_bit 56 e" m] by (simp add: push_bit_eq_mult)
qed

lemma rate_and:
  fixes r :: int
  assumes "u64_range r"
  shows "r AND NOT (push_bit 56 255) = r mod 2 ^ 56"
proof -
  have r: "r = take_bit 64 r"
    using assms by (simp add: take_bit_int_eq_self u64_range_def)
  have 255: "(255::int) = mask 8" by (simp add: mask_eq_exp_minus_1)
  have "r AND NOT (push_bit 56 255) = take_bit 56 r"
    unfolding 255 by (subst r, rule bit_eqI) (auto simp: bit_simps)
  then show ?thesis by (simp add: take_bit_eq_mod)
qed

definition rate_code :: "STAmount \<Rightarrow> int" where
  "rate_code r = (mOffset r + 100) * 2 ^ 56 + mValue r"

lemma st_ok_nonzero:
  assumes "st_ok r" "\<not> mIsNative r" "mValue r \<noteq> 0"
  shows "cMinValue \<le> mValue r" "mValue r \<le> cMaxValue"
    "cMinOffset \<le> mOffset r" "mOffset r \<le> cMaxOffset"
  using assms
  by (auto simp: st_ok_def iou_ok_def st_abs_def iou_zero_def abs_if amount_simps
      split: if_splits)

lemma rate_code_or:
  assumes "st_ok r" "\<not> mIsNative r" "mValue r \<noteq> 0"
  shows "u64 (push_bit 56 (u64 (mOffset r + 100))) OR mValue r = rate_code r"
    and "u64_range (rate_code r)" "0 < rate_code r"
proof -
  note b = st_ok_nonzero [OF assms]
  have o: "u64 (mOffset r + 100) = mOffset r + 100"
    using b by (intro u64_id) (simp add: u64_range_def amount_simps)
  have p: "u64 (push_bit 56 (mOffset r + 100)) = push_bit 56 (mOffset r + 100)"
    using b by (intro u64_id) (simp add: u64_range_def amount_simps push_bit_eq_mult)
  show "u64 (push_bit 56 (u64 (mOffset r + 100))) OR mValue r = rate_code r"
    unfolding o p rate_code_def using b by (intro rate_or) (auto simp: amount_simps)
  show "u64_range (rate_code r)" "0 < rate_code r"
    using b by (auto simp: u64_range_def rate_code_def amount_simps)
qed

lemma field_split:
  fixes k m n :: int
  assumes "0 \<le> m" "m < n"
  shows "(k * n + m) mod n = m" "(k * n + m) div n = k"
  using assms by auto

lemma rate_code_split:
  assumes "st_ok r" "\<not> mIsNative r" "mValue r \<noteq> 0"
  shows "rate_code r AND NOT (push_bit 56 255) = mValue r"
    and "drop_bit 56 (rate_code r) - 100 = mOffset r"
proof -
  note b = st_ok_nonzero [OF assms]
  have v: "0 \<le> mValue r" "mValue r < 2 ^ 56" using b by (auto simp: amount_simps)
  show "rate_code r AND NOT (push_bit 56 255) = mValue r"
    unfolding rate_and [OF rate_code_or(2) [OF assms]] unfolding rate_code_def
    using v by (rule field_split)
  show "drop_bit 56 (rate_code r) - 100 = mOffset r"
    unfolding rate_code_def drop_bit_eq_div field_split(2) [OF v] by simp
qed

text \<open>The order of rate codes is the order of the magnitudes.\<close>

lemma rate_code_less:
  assumes "st_ok a" "\<not> mIsNative a" "mValue a \<noteq> 0" "st_ok b" "\<not> mIsNative b" "mValue b \<noteq> 0"
  shows "rate_code a < rate_code b \<longleftrightarrow> \<bar>st_val a\<bar> < \<bar>st_val b\<bar>"
proof -
  note a = st_ok_nonzero [OF assms(1-3)] and b = st_ok_nonzero [OF assms(4-6)]
  have val: "\<bar>st_val a\<bar> = dec (mValue a) (mOffset a)" "\<bar>st_val b\<bar> = dec (mValue b) (mOffset b)"
    using a b by (auto simp: st_val_def iou_val_def dec_minus amount_simps)
  have "rate_code a < rate_code b \<longleftrightarrow>
      mOffset a < mOffset b \<or> mOffset a = mOffset b \<and> mValue a < mValue b"
    using a b by (auto simp: rate_code_def amount_simps)
  also have "\<dots> \<longleftrightarrow> dec (mValue a) (mOffset a) < dec (mValue b) (mOffset b)"
    using a b by (intro dec_less_same_sign [symmetric]) (auto simp: amount_simps)
  finally show ?thesis by (simp add: val)
qed

lemma mk_amount_issued:
  assumes "mk_amount i v e neg = Inr r" "\<not> isM i" "0 \<le> v"
  shows "st_ok r" "\<not> mIsNative r" "mIssue r = i"
    "mValue r \<noteq> 0 \<Longrightarrow> mIsNegative r = neg \<and> mDecimal r = decimals (mValue r) (mOffset r)"
proof -
  let ?a = "\<lparr>mIssue = i, mValue = v, mOffset = e, mIsNative = False, mIsNegative = neg,
             mDecimal = 0\<rparr>"
  have c: "canonicalize ?a = Inr r" using assms(1) by (simp add: mk_amount_def)
  have g: "\<not> isM (mIssue ?a)" "0 \<le> mValue ?a" using assms by auto
  show "st_ok r" "\<not> mIsNative r" "mIssue r = i"
    using canonicalize_st_ok [OF c g] by auto
  show "mIsNegative r = neg \<and> mDecimal r = decimals (mValue r) (mOffset r)" if "mValue r \<noteq> 0"
    using that c canonicalize_norm [OF g] by (auto split: sum.splits)
qed

lemma noIssue_issued [simp]: "\<not> isM noIssue"
  by (simp add: isM_def noIssue_def)

lemma mk_amount_canonical:
  assumes "st_ok r" "\<not> mIsNative r" "mValue r \<noteq> 0" "\<not> isM i"
  shows "mk_amount i (mValue r) (mOffset r) neg =
    Inr \<lparr>mIssue = i, mValue = mValue r, mOffset = mOffset r, mIsNative = False,
         mIsNegative = neg, mDecimal = decimals (mValue r) (mOffset r)\<rparr>"
  using assms(3,4) st_ok_nonzero [OF assms(1-3)]
  by (simp add: mk_amount_def canonicalize_def canon_up.simps canon_down.simps)

lemma st_divide_issued:
  assumes "st_divide a b i = Inr r" "\<not> isM i"
  shows "st_ok r" "\<not> mIsNative r" "mIssue r = i"
    "mValue r \<noteq> 0 \<Longrightarrow> mDecimal r = decimals (mValue r) (mOffset r)"
proof -
  from assms(1) obtain v e neg where "mk_amount i v e neg = Inr r" "0 \<le> v"
    by (auto simp: st_divide_def Let_def rbind_Inr_iff u64_def split: if_splits prod.splits)
  from mk_amount_issued [OF this(1) assms(2) this(2)]
  show "st_ok r" "\<not> mIsNative r" "mIssue r = i"
    "mValue r \<noteq> 0 \<Longrightarrow> mDecimal r = decimals (mValue r) (mOffset r)" by auto
qed

lemma getRate_nonzero:
  assumes "getRate offerOut offerIn \<noteq> 0"
  obtains r where "st_divide offerIn offerOut noIssue = Inr r" "mValue r \<noteq> 0"
    "getRate offerOut offerIn = rate_code r"
proof -
  from assms obtain r where r: "st_divide offerIn offerOut noIssue = Inr r" "mValue r \<noteq> 0"
    by (auto simp: getRate_def split: if_splits sum.splits)
  note ok = st_divide_issued [OF r(1) noIssue_issued]
  have "mValue offerOut \<noteq> 0" using assms by (auto simp: getRate_def)
  then have "getRate offerOut offerIn = rate_code r"
    using r rate_code_or(1) [OF ok(1,2) r(2)] by (simp add: getRate_def)
  with r that show thesis by blast
qed

text \<open>
  C22. An offer's rate is read back exactly: when \<open>getRate\<close> is not zero,
  \<open>amountFromQuality\<close> of it is the quotient it was computed from, without the sign.
\<close>
theorem getRate_roundtrip:
  assumes "getRate offerOut offerIn \<noteq> 0"
  shows "\<exists>r. st_divide offerIn offerOut noIssue = Inr r \<and>
             amountFromQuality (getRate offerOut offerIn) = Inr (r\<lparr>mIsNegative := False\<rparr>)"
proof -
  from assms obtain r where r: "st_divide offerIn offerOut noIssue = Inr r" "mValue r \<noteq> 0"
      "getRate offerOut offerIn = rate_code r"
    by (rule getRate_nonzero)
  note ok = st_divide_issued [OF r(1) noIssue_issued]
  have "amountFromQuality (rate_code r) = Inr (r\<lparr>mIsNegative := False\<rparr>)"
    using assms r(3) rate_code_split [OF ok(1,2) r(2)] mk_amount_canonical [OF ok(1,2) r(2)]
      ok r(2)
    by (simp add: amountFromQuality_def)
  with r show ?thesis by auto
qed

theorem getRate_roundtrip_witness:
  "amountFromQuality (getRate (mk_native 4 False) (mk_native 10 False)) =
     Inr \<lparr>mIssue = noIssue, mValue = 2500000000000000, mOffset = - 15, mIsNative = False,
          mIsNegative = False, mDecimal = 1\<rparr>"
proof -
  let ?r = "\<lparr>mIssue = noIssue, mValue = 2500000000000000, mOffset = - 15, mIsNative = False,
          mIsNegative = False, mDecimal = 1\<rparr>"
  have d: "st_divide (mk_native 10 False) (mk_native 4 False) noIssue = Inr ?r"
    by (simp add: st_divide_def mk_native_def bring_native_def bring.simps muldiv_def u64_def
        mk_amount_def canonicalize_def canon_up.simps canon_down.simps decimals_def
        strip_zeros.simps u64_max_def amount_simps)
  then have "getRate (mk_native 4 False) (mk_native 10 False) \<noteq> 0"
    by (simp add: getRate_def) (simp add: mk_native_def push_bit_eq_mult u64_def)
  from getRate_roundtrip [OF this] d show ?thesis by simp
qed

text \<open>
  C23. Rates order offers by price: for two offers with non-zero rates, the 64-bit rates
  compare as the magnitudes of the quotients in/out do.
\<close>
theorem getRate_order:
  assumes "getRate out1 in1 \<noteq> 0" "getRate out2 in2 \<noteq> 0"
    and "st_divide in1 out1 noIssue = Inr r1" "st_divide in2 out2 noIssue = Inr r2"
  shows "getRate out1 in1 < getRate out2 in2 \<longleftrightarrow> \<bar>st_val r1\<bar> < \<bar>st_val r2\<bar>"
proof -
  have r: "getRate out1 in1 = rate_code r1" "mValue r1 \<noteq> 0"
    using getRate_nonzero [OF assms(1)] assms(3) by auto
  have s: "getRate out2 in2 = rate_code r2" "mValue r2 \<noteq> 0"
    using getRate_nonzero [OF assms(2)] assms(4) by auto
  show ?thesis
    unfolding r(1) s(1)
    by (rule rate_code_less [OF st_divide_issued(1,2) [OF assms(3) noIssue_issued] r(2)
          st_divide_issued(1,2) [OF assms(4) noIssue_issued] s(2)])
qed

theorem getRate_order_witness:
  "getRate (mk_native 4 False) (mk_native 8 False) < getRate (mk_native 4 False) (mk_native 10 False)"
proof -
  let ?d = "\<lambda>v. \<lparr>mIssue = noIssue, mValue = v, mOffset = - 15, mIsNative = False,
          mIsNegative = False, mDecimal = (if v = 2000000000000000 then 0 else 1)\<rparr>"
  have d: "st_divide (mk_native 8 False) (mk_native 4 False) noIssue = Inr (?d 2000000000000000)"
      "st_divide (mk_native 10 False) (mk_native 4 False) noIssue = Inr (?d 2500000000000000)"
    by (simp_all add: st_divide_def mk_native_def bring_native_def bring.simps muldiv_def u64_def
        mk_amount_def canonicalize_def canon_up.simps canon_down.simps decimals_def
        strip_zeros.simps u64_max_def amount_simps)
  then have n: "getRate (mk_native 4 False) (mk_native 8 False) \<noteq> 0"
      "getRate (mk_native 4 False) (mk_native 10 False) \<noteq> 0"
    by (simp_all add: getRate_def) (simp_all add: mk_native_def push_bit_eq_mult u64_def)
  have "\<bar>st_val (?d 2000000000000000)\<bar> < \<bar>st_val (?d 2500000000000000)\<bar>"
    by (simp add: st_val_def iou_val_def dec_abs)
  with getRate_order [OF n d] show ?thesis by simp
qed

subsection \<open>Accuracy of division and multiplication\<close>

lemma bring_form:
  "0 < v \<Longrightarrow> \<exists>k. bring v off = (v * 10 ^ k, off - int k) \<and> cMinValue \<le> v * 10 ^ k \<and>
     (k = 0 \<or> v * 10 ^ k \<le> cMaxValue)"
proof (induction v off rule: bring.induct)
  case (1 v off)
  show ?case
  proof (cases "v < cMinValue")
    case True
    with "1.prems" have w: "u64 (v * 10) = v * 10" by (intro u64_times_10) auto
    with 1 True obtain k where
      k: "bring (v * 10) (off - 1) = (v * 10 * 10 ^ k, off - 1 - int k)"
         "cMinValue \<le> v * 10 * 10 ^ k" "k = 0 \<or> v * 10 * 10 ^ k \<le> cMaxValue"
      by auto
    have "v * 10 * 10 ^ k \<le> cMaxValue" using k True by (auto simp: amount_simps)
    with k True "1.prems" w show ?thesis
      by (intro exI [of _ "Suc k"]) (simp add: bring.simps [of v off] algebra_simps)
  next
    case False
    then show ?thesis by (intro exI [of _ 0]) (simp add: bring.simps [of v off])
  qed
qed

text \<open>Amounts the arithmetic accepts: canonical, non-zero, natively within the supply.\<close>

definition operand :: "STAmount \<Rightarrow> bool" where
  "operand a \<longleftrightarrow> st_ok a \<and> mValue a \<noteq> 0 \<and> mValue a \<le> cMaxNativeN"

lemma st_val_abs: "st_ok a \<Longrightarrow> \<bar>st_val a\<bar> = dec (mValue a) (mOffset a)"
  by (auto simp: st_val_def iou_val_def dec_minus st_ok_def)

lemma bring_native_operand:
  assumes "operand a" "bring_native a = (v, off)"
  shows "dec v off = \<bar>st_val a\<bar>" "cMinValue \<le> v" "v \<le> cMaxNativeN"
proof -
  have ok: "st_ok a" "mValue a \<noteq> 0" "mValue a \<le> cMaxNativeN" using assms by (auto simp: operand_def)
  then have pos: "0 < mValue a" by (auto simp: st_ok_def)
  have "dec v off = \<bar>st_val a\<bar> \<and> cMinValue \<le> v \<and> v \<le> cMaxNativeN"
  proof (cases "mIsNative a")
    case True
    obtain k where k: "bring (mValue a) (mOffset a) = (mValue a * 10 ^ k, mOffset a - int k)"
        "cMinValue \<le> mValue a * 10 ^ k" "k = 0 \<or> mValue a * 10 ^ k \<le> cMaxValue"
      using bring_form [OF pos] by blast
    have "v \<le> cMaxNativeN" using k assms(2) ok True
      by (auto simp: bring_native_def amount_simps)
    moreover have "v = mValue a * 10 ^ k" "off = mOffset a - int k"
      using k(1) assms(2) True by (auto simp: bring_native_def)
    ultimately show ?thesis
      using k(2) dec_shift_pow [of "mValue a" k "mOffset a - int k"]
      by (simp add: st_val_abs [OF ok(1)])
  next
    case False
    then show ?thesis
      using assms(2) st_ok_nonzero [OF ok(1) False ok(2)] ok
      by (auto simp: bring_native_def st_val_abs)
  qed
  then show "dec v off = \<bar>st_val a\<bar>" "cMinValue \<le> v" "v \<le> cMaxNativeN" by auto
qed

lemma ulp_bound:
  assumes "st_ok r" "\<not> mIsNative r" "mValue r \<noteq> 0"
  shows "10 ^ 15 * dec 1 (mOffset r) \<le> \<bar>st_val r\<bar>"
proof -
  have "10 ^ 15 * dec 1 (mOffset r) = dec cMinValue (mOffset r)"
    by (simp add: dec_def cMinValue_def)
  also have "\<dots> \<le> dec (mValue r) (mOffset r)" using st_ok_nonzero [OF assms] by simp
  finally show ?thesis by (simp add: st_val_abs [OF assms(1)])
qed

lemma truncation_close:
  fixes x d s u :: real
  assumes "10 ^ 15 * u \<le> s" "s \<le> d" "d < s + u" "\<bar>d - x\<bar> \<le> 8 / 10 ^ 15 * x" "0 < x"
  shows "\<bar>s - x\<bar> \<le> 1 / 10 ^ 14 * x"
proof -
  have "d - x \<le> 8 / 10 ^ 15 * x" "x - d \<le> 8 / 10 ^ 15 * x" using assms(4) by linarith+
  then have "s - x \<le> 1 / 10 ^ 14 * x" "x - s \<le> 1 / 10 ^ 14 * x"
    using assms(1,2,3,5) by (simp_all add: field_simps)
  then show ?thesis by linarith
qed

text \<open>Constructing an issued amount from an approximation of \<open>x\<close>.\<close>

lemma mk_amount_close:
  fixes x :: real
  assumes i: "\<not> isM i" and m: "0 < m"
    and close: "\<bar>dec m e - x\<bar> \<le> 8 / 10 ^ 15 * x"
    and rng: "dec 1 (- 80) \<le> x" "x \<le> dec 1 95"
  shows "\<exists>r. mk_amount i m e neg = Inr r \<and> st_ok r \<and> mIssue r = i \<and> mIsNegative r = neg \<and>
             mValue r \<noteq> 0 \<and> \<bar>\<bar>st_val r\<bar> - x\<bar> \<le> 1 / 10 ^ 14 * x"
proof -
  let ?a = "\<lparr>mIssue = i, mValue = m, mOffset = e, mIsNative = False, mIsNegative = neg,
             mDecimal = 0\<rparr>"
  have x0: "0 < x" using rng(1) less_le_trans [of 0 "dec 1 (- 80)" x] by simp
  have d: "\<bar>dec (mantissa (st_abs ?a)) (exponent (st_abs ?a))\<bar> = dec m e"
    using m by (simp add: dec_minus)
  have p: "dec 1 96 = 10 * dec 1 95" "dec 1 (- 80) = 10 * dec 1 (- 81)"
    using dec_shift [of 1 95] dec_shift [of 1 "- 81"] by (simp_all add: dec_def)
  have lo: "\<not> dec m e < dec 1 (- 81)" and hi: "\<not> dec 1 96 \<le> dec m e"
    using close rng p x0 by (auto simp: abs_le_iff)
  have n: "normalize (st_abs ?a) = normalize \<lparr>mantissa = mantissa (st_abs ?a),
      exponent = exponent (st_abs ?a)\<rparr>" by (simp add: st_abs_def)
  note nc = normalize_cases [of "mantissa (st_abs ?a)" "exponent (st_abs ?a)", folded n, unfolded d]
  have g: "\<not> isM (mIssue ?a)" "0 \<le> mValue ?a" using i m by auto
  obtain r where r: "canonicalize ?a = Inr r"
    using canonicalize_abs [OF g] nc hi by (cases "canonicalize ?a") auto
  have ok: "st_ok r" "\<not> mIsNative r" "mIssue r = i"
    and nr: "normalize (st_abs ?a) = Inr (st_abs r)"
    using canonicalize_abs [OF g] r by auto
  have v: "st_abs r \<noteq> iou_zero" "\<bar>st_val r\<bar> \<le> dec m e" "dec m e < \<bar>st_val r\<bar> + dec 1 (mOffset r)"
    using nc nr lo by (auto simp: st_val_def)
  have nz: "mValue r \<noteq> 0"
    using v(1) ok by (auto simp: st_ok_def iou_ok_def amount_simps split: if_splits)
  have "10 ^ 15 * dec 1 (mOffset r) \<le> \<bar>st_val r\<bar>" by (rule ulp_bound [OF ok(1,2) nz])
  then have "\<bar>\<bar>st_val r\<bar> - x\<bar> \<le> 1 / 10 ^ 14 * x"
    using v(2,3) close x0 by (rule truncation_close)
  moreover have "mIsNegative r = neg"
    using mk_amount_issued(4) [of i m e neg r] r nz i m by (simp add: mk_amount_def)
  ultimately show ?thesis using r ok nz by (simp add: mk_amount_def)
qed

lemma st_val_sign: "st_ok a \<Longrightarrow> st_val a = (if mIsNegative a then - \<bar>st_val a\<bar> else \<bar>st_val a\<bar>)"
  by (auto simp: st_val_def iou_val_def dec_minus st_ok_def)

lemma signed_close:
  fixes x :: real
  assumes "st_ok r" "mIsNegative r = neg" "\<bar>\<bar>st_val r\<bar> - x\<bar> \<le> c"
  shows "\<bar>st_val r - (if neg then - x else x)\<bar> \<le> c"
  using st_val_sign [OF assms(1)] assms(2,3) by (cases neg) auto

text \<open>
  The last step of both operations: a truncated quotient plus a small correction,
  converted to an amount.
\<close>

lemma approx_amount:
  fixes q x :: real and ret c :: int
  assumes i: "\<not> isM i" and f: "of_int ret \<le> q" "q < of_int ret + 1"
    and q: "10 ^ 15 \<le> q" "q \<le> 10 ^ 19" and c: "0 \<le> c" "c \<le> 7"
    and x: "x = q * 10 powi e" "dec 1 (- 80) \<le> x" "x \<le> dec 1 95"
  shows "0 \<le> ret \<and> ret \<le> u64_max"
    and "\<exists>r. mk_amount i (u64 (ret + c)) e neg = Inr r \<and> st_ok r \<and> mIssue r = i \<and>
             \<bar>st_val r - (if neg then - x else x)\<bar> \<le> 1 / 10 ^ 14 * x"
proof -
  have "real_of_int 0 < of_int ret" "real_of_int ret \<le> of_int (10 ^ 19)" using f q by simp_all
  then have ret: "0 < ret" "ret \<le> 10 ^ 19" unfolding of_int_less_iff of_int_le_iff .
  then show "0 \<le> ret \<and> ret \<le> u64_max" by (simp add: u64_max_def)
  have u: "u64 (ret + c) = ret + c" using ret c by (intro u64_id) (simp add: u64_range_def)
  have "0 \<le> real_of_int c" "real_of_int c \<le> 7" using c by simp_all
  then have "\<bar>real_of_int (ret + c) - q\<bar> \<le> 7" using f unfolding of_int_add by linarith
  also have "7 \<le> 8 / 10 ^ 15 * q" using q(1) by simp
  finally have "\<bar>real_of_int (ret + c) - q\<bar> * 10 powi e \<le> 8 / 10 ^ 15 * q * 10 powi e"
    by (intro mult_right_mono) auto
  then have close: "\<bar>dec (ret + c) e - x\<bar> \<le> 8 / 10 ^ 15 * x"
    unfolding x(1) dec_def by (simp add: abs_mult left_diff_distrib [symmetric])
  have "0 < ret + c" using ret c by simp
  from mk_amount_close [OF i this close x(2,3), of neg] signed_close
  show "\<exists>r. mk_amount i (u64 (ret + c)) e neg = Inr r \<and> st_ok r \<and> mIssue r = i \<and>
             \<bar>st_val r - (if neg then - x else x)\<bar> \<le> 1 / 10 ^ 14 * x"
    unfolding u by blast
qed

lemma of_int_le_divide: "0 < d \<Longrightarrow> k * d \<le> n \<Longrightarrow> real_of_int k \<le> real_of_int n / real_of_int d"
  by (simp add: pos_le_divide_eq flip: of_int_mult)

lemma of_int_divide_le: "0 < d \<Longrightarrow> n \<le> k * d \<Longrightarrow> real_of_int n / real_of_int d \<le> real_of_int k"
  by (simp add: pos_divide_le_eq flip: of_int_mult)

lemma mantissa_product:
  fixes a b :: int
  assumes "l \<le> a" "a \<le> g" "l \<le> b" "b \<le> h" "0 \<le> l"
  shows "l * l \<le> a * b" "a * b \<le> g * h"
  using assms by (auto intro!: mult_mono)

lemma bring_native_issued:
  assumes "operand a" "\<not> mIsNative a" "bring_native a = (v, off)"
  shows "v \<le> cMaxValue"
  using assms st_ok_nonzero [of a] by (auto simp: bring_native_def operand_def)

lemma product_sign:
  assumes "operand a" "operand b"
  defines "neg \<equiv> mIsNegative a \<noteq> mIsNegative b"
  shows "st_val a * st_val b = (if neg then - \<bar>st_val a * st_val b\<bar> else \<bar>st_val a * st_val b\<bar>)"
    and "st_val a / st_val b = (if neg then - \<bar>st_val a / st_val b\<bar> else \<bar>st_val a / st_val b\<bar>)"
  using st_val_sign [of a] st_val_sign [of b] assms(1,2)
  by (auto simp: operand_def neg_def abs_mult abs_divide)

lemma quotient_value:
  assumes "operand a" "operand b" "bring_native a = (n, on)" "bring_native b = (d, od)"
  defines "q \<equiv> of_int (n * tenTo17) / of_int d :: real"
  shows "\<bar>st_val a / st_val b\<bar> = q * 10 powi (on - od - 17)" "10 ^ 15 \<le> q" "q \<le> 10 ^ 19" "0 < d"
proof -
  note a = bring_native_operand [OF assms(1,3)] and b = bring_native_operand [OF assms(2,4)]
  show d0: "0 < d" using b by (simp add: amount_simps)
  show "\<bar>st_val a / st_val b\<bar> = q * 10 powi (on - od - 17)"
    unfolding q_def abs_divide a(1) [symmetric] b(1) [symmetric]
    by (simp add: dec_def amount_simps power_int_diff power_int_add field_simps)
  show "10 ^ 15 \<le> q" "q \<le> 10 ^ 19"
    using of_int_le_divide [OF d0, of "10 ^ 15" "n * tenTo17"]
      of_int_divide_le [OF d0, of "n * tenTo17" "10 ^ 19"] a b
    by (simp_all add: q_def amount_simps)
qed

lemma product_value:
  assumes "operand a" "operand b" "bring_native a = (n, on)" "bring_native b = (d, od)"
    and "\<not> mIsNative a \<or> \<not> mIsNative b"
  defines "q \<equiv> of_int (n * d) / of_int tenTo14 :: real"
  shows "\<bar>st_val a * st_val b\<bar> = q * 10 powi (on + od + 14)" "10 ^ 15 \<le> q" "q \<le> 10 ^ 19"
proof -
  note a = bring_native_operand [OF assms(1,3)] and b = bring_native_operand [OF assms(2,4)]
  have t: "0 < tenTo14" by (simp add: amount_simps)
  show "\<bar>st_val a * st_val b\<bar> = q * 10 powi (on + od + 14)"
    unfolding q_def abs_mult a(1) [symmetric] b(1) [symmetric]
    by (simp add: dec_def amount_simps power_int_add field_simps)
  have "cMinValue * cMinValue \<le> n * d \<and> n * d \<le> cMaxValue * cMaxNativeN"
    using assms(5) mantissa_product [OF a(2) bring_native_issued [OF assms(1) _ assms(3)] b(2,3)]
      mantissa_product [OF a(2,3) b(2) bring_native_issued [OF assms(2) _ assms(4)]]
    by (auto simp: cMinValue_def mult.commute)
  then show "10 ^ 15 \<le> q" "q \<le> 10 ^ 19"
    using of_int_le_divide [OF t, of "10 ^ 15" "n * d"]
      of_int_divide_le [OF t, of "n * d" "10 ^ 19"]
    by (simp_all add: q_def amount_simps)
qed





end
