(* ===== verification/STAmountRound.thy ===== *)
theory STAmountRound
  imports STAmountArith
begin

text \<open>
  \<^verbatim>\<open>mulRound\<close> and \<^verbatim>\<open>divRound\<close>: the direction in which they round and how far they are
  from the exact value, and the exactness of native products.
\<close>

subsection \<open>canonicalizeRound\<close>

lemma cr_issued_form:
  "\<exists>j. cr_issued v off = (v div 10 ^ j, off + int j) \<and> v div 10 ^ j \<le> 10 * cMaxValue \<and>
       (j = 0 \<or> cMaxValue \<le> v div 10 ^ j)"
proof (induction v off rule: cr_issued.induct)
  case (1 v off)
  show ?case
  proof (cases "v > 10 * cMaxValue")
    case True
    with 1 obtain j where j: "cr_issued (v div 10) (off + 1) =
          (v div 10 div 10 ^ j, off + 1 + int j)"
        "v div 10 div 10 ^ j \<le> 10 * cMaxValue" "j = 0 \<or> cMaxValue \<le> v div 10 div 10 ^ j"
      by blast
    have "cMaxValue \<le> v div 10 div 10 ^ j" using j True by (auto simp: amount_simps)
    with j True show ?thesis
      by (intro exI [of _ "Suc j"])
        (simp add: cr_issued.simps [of v off] div_10_pow algebra_simps del: power_Suc)
  next
    case False
    then show ?thesis by (intro exI [of _ 0]) (simp add: cr_issued.simps [of v off])
  qed
qed

lemma dec_mult: "c * dec m e = of_int m * c * 10 powi e"
  by (simp add: dec_def)

lemma dec_le_scaled: "of_int a \<le> c * of_int b \<Longrightarrow> dec a e \<le> c * dec b e"
  by (simp add: dec_def mult_right_mono flip: mult.assoc)

lemma dec_ge_scaled: "c * of_int b \<le> of_int a \<Longrightarrow> c * dec b e \<le> dec a e"
  by (simp add: dec_def mult_right_mono flip: mult.assoc)

text \<open>
  For an issued currency the value is brought to 16 digits, rounding up the last
  digit; digits dropped before that are lost, at most \<open>10^-16\<close> of the value.
\<close>

lemma canonicalizeRound_issued:
  assumes A: "cMinValue \<le> A" and cr: "canonicalizeRound False A e = (A', e')"
  shows "cMinValue \<le> A'" "A' \<le> cMaxValue"
    "(1 - 1 / 10 ^ 16) * dec A e \<le> dec A' e'" "dec A' e' \<le> (1 + 1 / 10 ^ 15) * dec A e"
proof -
  have "cMinValue \<le> A' \<and> A' \<le> cMaxValue \<and> (1 - 1 / 10 ^ 16) * dec A e \<le> dec A' e' \<and>
      dec A' e' \<le> (1 + 1 / 10 ^ 15) * dec A e"
  proof (cases "A > cMaxValue")
    case True
    obtain j where j: "cr_issued A e = (A div 10 ^ j, e + int j)" "A div 10 ^ j \<le> 10 * cMaxValue"
        "j = 0 \<or> cMaxValue \<le> A div 10 ^ j"
      using cr_issued_form by blast
    define w where "w = A div 10 ^ j"
    have w: "cMaxValue \<le> w" "w \<le> 10 * cMaxValue" using j True by (auto simp: w_def)
    have "u64 (w + 9) = w + 9" using w by (intro u64_id) (simp add: u64_range_def amount_simps)
    then have A': "A' = (w + 9) div 10" "e' = e + int j + 1"
      using cr True j(1) by (auto simp: canonicalizeRound_def w_def)
    have eq: "dec A' e' = dec (10 * A') (e + int j)" by (simp add: A' dec_shift)
    have b: "w \<le> 10 * A'" "10 * A' \<le> w + 9" using A'(1) by auto
    have lo: "(1 - 1 / 10 ^ 16) * dec A e \<le> dec w (e + int j)"
    proof (cases "j = 0")
      case True
      then show ?thesis using A by (simp add: w_def amount_simps mult_left_le_one_le)
    next
      case False
      have "real_of_int cMaxValue \<le> of_int w" using w(1) by simp
      then have "(1 - 1 / 10 ^ 16) * real_of_int (w + 1) \<le> of_int w"
        by (simp add: amount_simps field_simps)
      then have "(1 - 1 / 10 ^ 16) * dec (w + 1) (e + int j) \<le> dec w (e + int j)"
        by (rule dec_ge_scaled)
      moreover have "(1 - 1 / 10 ^ 16) * dec A e \<le> (1 - 1 / 10 ^ 16) * dec (w + 1) (e + int j)"
        using dec_trunc(2) [of A e j] A by (intro mult_left_mono) (auto simp: w_def amount_simps)
      ultimately show ?thesis by linarith
    qed
    also have "\<dots> \<le> dec A' e'" unfolding eq using b by simp
    finally have 1: "(1 - 1 / 10 ^ 16) * dec A e \<le> dec A' e'" .
    have "real_of_int cMaxValue \<le> of_int w" using w(1) by simp
    then have "dec (w + 9) (e + int j) \<le> (1 + 1 / 10 ^ 15) * dec w (e + int j)"
      by (intro dec_le_scaled) (simp add: amount_simps field_simps)
    moreover have "dec w (e + int j) \<le> dec A e"
      using dec_trunc(1) [of A j e] A by (simp add: w_def amount_simps)
    ultimately have "dec A' e' \<le> (1 + 1 / 10 ^ 15) * dec A e"
      unfolding eq using b by (smt (verit, best) dec_le_iff mult_left_mono divide_nonneg_nonneg zero_le_power)
    with 1 show ?thesis using w A'(1) by (auto simp: amount_simps)
  next
    case False
    then have "A' = A" "e' = e" using cr by (auto simp: canonicalizeRound_def)
    moreover have "0 \<le> dec A e" using A by (simp add: amount_simps)
    ultimately show ?thesis using A False by (auto simp: field_simps)
  qed
  then show "cMinValue \<le> A'" "A' \<le> cMaxValue"
    "(1 - 1 / 10 ^ 16) * dec A e \<le> dec A' e'" "dec A' e' \<le> (1 + 1 / 10 ^ 15) * dec A e" by auto
qed

subsection \<open>Directed rounding\<close>

text \<open>
  \<open>directed r y up\<close>: \<open>r\<close> is \<open>y\<close> rounded in the requested direction. Towards zero the
  magnitude never exceeds the exact one; away from zero it falls short of it by at
  most \<open>10^-16\<close>; the relative error is at most \<open>10^-14\<close> in both cases.
\<close>

definition directed :: "STAmount \<Rightarrow> real \<Rightarrow> bool \<Rightarrow> bool" where
  "directed r y up \<longleftrightarrow>
     (if (y < 0) = up then \<bar>st_val r\<bar> \<le> \<bar>y\<bar> else (1 - 1 / 10 ^ 16) * \<bar>y\<bar> \<le> \<bar>st_val r\<bar>) \<and>
     \<bar>st_val r - y\<bar> \<le> 1 / 10 ^ 14 * \<bar>y\<bar>"

lemma mk_amount_le:
  assumes "mk_amount i m e neg = Inr r" "\<not> isM i" "0 \<le> m"
  shows "\<bar>st_val r\<bar> \<le> dec m e"
proof -
  let ?a = "\<lparr>mIssue = i, mValue = m, mOffset = e, mIsNative = False, mIsNegative = neg,
             mDecimal = 0\<rparr>"
  have g: "\<not> isM (mIssue ?a)" "0 \<le> mValue ?a" using assms by auto
  have "normalize (st_abs ?a) = Inr (st_abs r)"
    using canonicalize_abs [OF g] assms(1) by (simp add: mk_amount_def)
  moreover have e: "st_abs ?a = \<lparr>mantissa = (if neg then - m else m), exponent = e\<rparr>"
    by (cases neg) (simp_all add: st_abs_def)
  ultimately have "normalize \<lparr>mantissa = (if neg then - m else m), exponent = e\<rparr> = Inr (st_abs r)"
    unfolding e by blast
  then show ?thesis
    using normalize_cases [of "if neg then - m else m" e] assms(3)
    by (auto simp: st_val_def dec_minus split: if_splits)
qed

lemma mk_amount_exact:
  assumes "mk_amount i m e neg = Inr r" "\<not> isM i" "cMinValue \<le> m" "m \<le> cMaxValue" "mValue r \<noteq> 0"
  shows "\<bar>st_val r\<bar> = dec m e"
proof -
  have "m \<noteq> 0" using assms by (auto simp: amount_simps)
  then have "mValue r = m" "mOffset r = e"
    using assms by (auto simp: mk_amount_def canonicalize_def canon_up.simps canon_down.simps
        split: if_splits)
  moreover have "st_ok r" using mk_amount_issued [OF assms(1,2)] assms(3) by (simp add: amount_simps)
  ultimately show ?thesis by (simp add: st_val_abs)
qed

text \<open>The common tail, from a truncated or rounded-up 128-bit quotient.\<close>

lemma round_result_toward:
  fixes x :: real
  assumes "\<not> isM i" "cMinValue \<le> A" "dec A e \<le> x" "x \<le> dec A e + 1 / 10 ^ 15 * x"
    and "dec 1 (- 80) \<le> x" "x \<le> dec 1 95" "0 < x"
  shows "\<exists>r. round_result so1 so2 i A e up up = Inr r \<and> st_ok r \<and> mIssue r = i \<and>
             directed r (if up then - x else x) up"
proof -
  have A: "0 < A" using assms by (simp add: amount_simps)
  have "\<bar>dec A e - x\<bar> \<le> 8 / 10 ^ 15 * x" using assms(3,4,7) by (simp add: abs_le_iff)
  from mk_amount_close [OF assms(1) A this assms(5,6), of up] obtain r where
    r: "mk_amount i A e up = Inr r" "st_ok r" "mIssue r = i" "mIsNegative r = up" "mValue r \<noteq> 0"
      "\<bar>\<bar>st_val r\<bar> - x\<bar> \<le> 1 / 10 ^ 14 * x" by blast
  have "\<bar>st_val r\<bar> \<le> x" using mk_amount_le [OF r(1) assms(1)] A assms(3) by simp
  with signed_close [OF r(2,4,6)] assms(7) have "directed r (if up then - x else x) up"
    by (cases up) (simp_all add: directed_def)
  with r show ?thesis by (auto simp: round_result_def)
qed

lemma round_result_away:
  fixes x :: real
  assumes "\<not> isM i" "cMinValue \<le> A" "x \<le> dec A e" "dec A e \<le> x + 1 / 10 ^ 15 * x"
    and "dec 1 (- 80) \<le> x" "x \<le> dec 1 95" "0 < x"
  shows "\<exists>r. round_result so1 so2 i A e (\<not> up) up = Inr r \<and> st_ok r \<and> mIssue r = i \<and>
             directed r (if up then x else - x) up"
proof -
  obtain A' e' where cr: "canonicalizeRound False A e = (A', e')" by fastforce
  note c = canonicalizeRound_issued [OF assms(2) cr]
  have lo: "(1 - 1 / 10 ^ 16) * x \<le> dec A' e'"
    using assms(3) c(3) by (smt (verit) mult_left_mono divide_le_eq_1_pos one_le_power power_eq_0_iff zero_less_power)
  have hi: "dec A' e' \<le> x + 8 / 10 ^ 15 * x" using assms(4,7) c(4) by simp
  have "dec A' e' - x \<le> 8 / 10 ^ 15 * x" "x - dec A' e' \<le> 8 / 10 ^ 15 * x"
    using lo hi assms(7) by (simp_all add: field_simps)
  then have "\<bar>dec A' e' - x\<bar> \<le> 8 / 10 ^ 15 * x" by linarith
  moreover have "0 < A'" using c(1) by (simp add: amount_simps)
  ultimately obtain r where
    r: "mk_amount i A' e' (\<not> up) = Inr r" "st_ok r" "mIssue r = i" "mIsNegative r = (\<not> up)"
      "mValue r \<noteq> 0" "\<bar>\<bar>st_val r\<bar> - x\<bar> \<le> 1 / 10 ^ 14 * x"
    using mk_amount_close [OF assms(1) _ _ assms(5,6), of A' e' "\<not> up"] by blast
  have "(1 - 1 / 10 ^ 16) * x \<le> \<bar>st_val r\<bar>"
    using mk_amount_exact [OF r(1) assms(1) c(1,2) r(5)] lo by simp
  with signed_close [OF r(2,4,6)] assms(7) have "directed r (if up then x else - x) up"
    by (cases up) (simp_all add: directed_def)
  with r cr assms(1) show ?thesis by (auto simp: round_result_def)
qed

lemma ceil_real_close:
  fixes n d :: int
  assumes "0 < d"
  shows "n / d \<le> real_of_int ((n + (d - 1)) div d)" "real_of_int ((n + (d - 1)) div d) < n / d + 1"
proof -
  let ?k = "(n + (d - 1)) div d"
  have e: "?k * d + (n + (d - 1)) mod d = n + (d - 1)" by (rule div_mult_mod_eq)
  have m: "0 \<le> (n + (d - 1)) mod d" "(n + (d - 1)) mod d < d" using assms by auto
  have "n \<le> ?k * d" "?k * d < n + d" using e m by linarith+
  then have "real_of_int n \<le> of_int (?k * d)" "real_of_int (?k * d) < of_int (n + d)"
    unfolding of_int_le_iff of_int_less_iff by auto
  then show "n / d \<le> real_of_int ?k" "real_of_int ?k < n / d + 1"
    using assms by (simp_all add: field_simps)
qed

text \<open>
  From the exact quotient \<open>q\<close> of the mantissas: \<open>muldiv_round\<close> truncates it or rounds it
  up to an integer, depending on the direction, and the tail does the rest.
\<close>

lemma muldiv_round_result:
  fixes q x :: real
  assumes i: "\<not> isM i" and d: "0 < d" and q: "q = of_int (n * m) / of_int d"
    and rng: "10 ^ 15 \<le> q" "q \<le> 10 ^ 19"
    and x: "x = q * 10 powi e" "dec 1 (- 80) \<le> x" "x \<le> dec 1 95"
  shows "\<exists>r. rbind (muldiv_round n m d (if neg \<noteq> up then d - 1 else 0))
               (\<lambda>A. round_result so1 so2 i A e neg up) = Inr r \<and> st_ok r \<and> mIssue r = i \<and>
             directed r (if neg then - x else x) up"
proof -
  have x0: "0 < x" using x(2) less_le_trans [of 0 "dec 1 (- 80)" x] by simp
  define A where "A = (n * m + (if neg \<noteq> up then d - 1 else 0)) div d"
  have A: "of_int A \<le> q + 1" "q - 1 < of_int A" "neg = up \<Longrightarrow> of_int A \<le> q" "neg \<noteq> up \<Longrightarrow> q \<le> of_int A"
    using div_real_close [OF d, of "n * m"] ceil_real_close [OF d, of "n * m"]
    unfolding A_def q by (cases "neg = up"; simp; linarith)+
  have "real_of_int (10 ^ 15 - 1) < of_int A" "real_of_int A \<le> of_int (10 ^ 19 + 1)"
    using A(1,2) rng by simp_all
  then have Ab: "cMinValue \<le> A" "A \<le> u64_max"
    unfolding of_int_less_iff of_int_le_iff by (simp_all add: cMinValue_def u64_max_def)
  have p: "dec a e \<le> c * 10 powi e" if "of_int a \<le> c" for a c
    using that by (simp add: dec_def mult_right_mono)
  have p': "c * 10 powi e \<le> dec a e" if "c \<le> of_int a" for a c
    using that by (simp add: dec_def mult_right_mono)
  have "rbind (muldiv_round n m d (if neg \<noteq> up then d - 1 else 0))
      (\<lambda>A. round_result so1 so2 i A e neg up) = round_result so1 so2 i A e neg up"
    using d Ab(2) by (simp add: muldiv_round_def A_def)
  moreover have "\<exists>r. round_result so1 so2 i A e neg up = Inr r \<and> st_ok r \<and> mIssue r = i \<and>
             directed r (if neg then - x else x) up"
  proof (cases "neg = up")
    case True
    have "(q - 1 / 10 ^ 15 * q) * 10 powi e \<le> dec A e" using A(2) rng by (intro p') simp
    then have "x \<le> dec A e + 1 / 10 ^ 15 * x" unfolding x(1) by (simp add: left_diff_distrib)
    moreover have "dec A e \<le> x" unfolding x(1) using A(3) [OF True] by (rule p)
    ultimately show ?thesis
      using round_result_toward [OF i Ab(1) _ _ x(2,3) x0, of e so1 so2 up] True by simp
  next
    case False
    have "dec A e \<le> (q + 1 / 10 ^ 15 * q) * 10 powi e" using A(1) rng by (intro p) simp
    then have "dec A e \<le> x + 1 / 10 ^ 15 * x" unfolding x(1) by (simp add: distrib_right)
    moreover have "x \<le> dec A e" unfolding x(1) using A(4) [OF False] by (rule p')
    moreover have "neg = (\<not> up)" using False by auto
    ultimately show ?thesis
      using round_result_away [OF i Ab(1) _ _ x(2,3) x0, of e so1 so2 up] by (cases up) simp_all
  qed
  ultimately show ?thesis by simp
qed





text \<open>
  The bound for the direction away from zero is not slack: digits dropped by the
  loop of \<^verbatim>\<open>canonicalizeRound\<close> are not rounded up, so a product rounded up can be
  smaller than the exact product, here \<open>10000000000000000757448163836348 * 10^-30\<close>.
\<close>

lemma mulRound_up_falls_short:
  "mulRound True True
     \<lparr>mIssue = noIssue, mValue = 2107153168100498, mOffset = - 15, mIsNative = False,
      mIsNegative = False, mDecimal = 15\<rparr>
     \<lparr>mIssue = noIssue, mValue = 4745739489367326, mOffset = - 15, mIsNative = False,
      mIsNegative = False, mDecimal = 15\<rparr> noIssue True =
   Inr \<lparr>mIssue = noIssue, mValue = 1000000000000000, mOffset = - 14, mIsNative = False,
        mIsNegative = False, mDecimal = 0\<rparr>"
  "dec 1000000000000000 (- 14) < dec (2107153168100498 * 4745739489367326) (- 30)"
proof -
  have "dec 1000000000000000 (- 14) = dec (1000000000000000 * 10 ^ 16) (- 30)"
    using dec_shift_pow [of 1000000000000000 16 "- 30"] by simp
  then show "dec 1000000000000000 (- 14) < dec (2107153168100498 * 4745739489367326) (- 30)"
    by simp
qed (simp add: mulRound_def bring_native_def muldiv_round_def round_result_def
      canonicalizeRound_def cr_issued.simps u64_def mk_amount_def canonicalize_def canon_up.simps
      canon_down.simps decimals_def strip_zeros.simps u64_max_def isM_def noIssue_def
      amount_simps)

subsection \<open>Native products\<close>

lemma native_tests_no_wrap:
  fixes lo hi :: int
  assumes "0 < lo" "lo \<le> 3000000000" "0 < hi" "hi div 2 ^ 32 * lo \<le> 2095475792"
  shows "lo * hi < 2 ^ 64"
proof -
  define q r where "q = hi div 2 ^ 32" and "r = hi mod 2 ^ 32"
  have hi: "hi = q * 2 ^ 32 + r" "0 \<le> r" "r < 2 ^ 32" "0 \<le> q"
    using assms(3) by (auto simp: q_def r_def pos_imp_zdiv_nonneg_iff)
  have e: "lo * hi = q * lo * 2 ^ 32 + r * lo" by (simp add: hi(1) algebra_simps)
  show ?thesis
  proof (cases "q = 0")
    case True
    have "r * lo \<le> 2 ^ 32 * 3000000000" using hi assms by (intro mult_mono) auto
    then show ?thesis unfolding e using True by simp
  next
    case False
    then have "1 * lo \<le> q * lo" using hi assms by (intro mult_right_mono) auto
    then have "lo \<le> 2095475792" using assms(4) by (simp add: q_def)
    then have "r * lo \<le> 2 ^ 32 * 2095475792" using hi assms by (intro mult_mono) auto
    then show ?thesis unfolding e using assms(4) [folded q_def] by simp
  qed
qed

lemma native_tests_fail:
  fixes lo hi :: int
  assumes "0 < lo" "lo \<le> hi" "lo > 3000000000 \<or> hi div 2 ^ 32 * lo > 2095475792"
  shows "3000000000 * 3000000000 \<le> lo * hi"
proof (cases "lo > 3000000000")
  case True
  with assms show ?thesis by (intro mult_mono) auto
next
  case False
  have "hi div 2 ^ 32 * 2 ^ 32 \<le> hi" by simp
  then have "hi div 2 ^ 32 * 2 ^ 32 * lo \<le> hi * lo" using assms(1) by (intro mult_right_mono) auto
  with False assms(3) show ?thesis by (simp add: mult_ac)
qed

lemma mul_native_sorted:
  assumes ok: "st_ok a" "st_ok b" "mIsNative a" "mIsNative b"
  defines "x \<equiv> if mIsNegative a then - mValue a else mValue a"
  defines "y \<equiv> if mIsNegative b then - mValue b else mValue b"
  shows "mul_native a b =
    (let lo = u64 (min x y); hi = u64 (max x y) in
     if lo > 3000000000 \<or> u64 (hi div 2 ^ 32 * lo) > 2095475792
     then Inl (runtime_error ''Native value overflow'') else Inr (mk_native (u64 (lo * hi)) False))"
  using ok by (auto simp: mul_native_def getSNValue_def st_ok_s64 x_def y_def Let_def min_def max_def
      drop_bit_eq_div)

text \<open>
  C28. The product of two native amounts, in native units: a negative factor always
  throws; otherwise the two range tests guarantee that the 64-bit product does not wrap
  around, so the result is the exact product of the drops, and an exception is thrown
  only for products of \<open>9 * 10^18\<close> drops or more.
\<close>
theorem mul_native_exact:
  assumes "st_ok a" "st_ok b" "mIsNative a" "mIsNative b" "mValue a \<noteq> 0" "mValue b \<noteq> 0"
  shows "case mul_native a b of
           Inl x \<Rightarrow> x = runtime_error ''Native value overflow'' \<and>
             (mIsNegative a \<or> mIsNegative b \<or> cMaxNative \<le> mValue a * mValue b)
         | Inr r \<Rightarrow> \<not> mIsNegative a \<and> \<not> mIsNegative b \<and>
             mValue r = mValue a * mValue b \<and> u64_range (mValue r) \<and> \<not> mIsNegative r"
proof -
  have v: "0 < mValue a" "0 < mValue b" "mValue a < 2 ^ 63" "mValue b < 2 ^ 63"
    using assms by (auto simp: st_ok_def)
  show ?thesis
  proof (cases "mIsNegative a \<or> mIsNegative b")
    case True
    define m where "m = min (if mIsNegative a then - mValue a else mValue a)
                            (if mIsNegative b then - mValue b else mValue b)"
    have "- (2 ^ 63) < m" "m < 0" using True v by (auto simp: m_def min_def)
    then have "(m + 2 ^ 64) mod 2 ^ 64 = m + 2 ^ 64" by (intro mod_pos_pos_trivial) auto
    then have "u64 m = m + 2 ^ 64" by (simp add: u64_def)
    then have "u64 m > 3000000000" using \<open>- (2 ^ 63) < m\<close> by simp
    with True mul_native_sorted [OF assms(1-4), folded m_def] show ?thesis by auto
  next
    case False
    define lo hi where "lo = min (mValue a) (mValue b)" and "hi = max (mValue a) (mValue b)"
    have b: "0 < lo" "lo \<le> hi" "hi < 2 ^ 63" using v by (auto simp: lo_def hi_def)
    have prod: "lo * hi = mValue a * mValue b"
      by (auto simp: lo_def hi_def min_def max_def)
    have u: "u64 lo = lo" "u64 hi = hi" using b by (auto simp: u64_range_def)
    have w: "u64 (hi div 2 ^ 32 * lo) = hi div 2 ^ 32 * lo" if "lo \<le> 3000000000"
    proof (rule u64_id)
      have "hi div 2 ^ 32 * lo \<le> 2 ^ 31 * 3000000000" using that b by (intro mult_mono) auto
      then show "u64_range (hi div 2 ^ 32 * lo)"
        using b by (simp add: u64_range_def pos_imp_zdiv_nonneg_iff)
    qed
    have na: "(if mIsNegative a then - mValue a else mValue a) = mValue a"
      and nb: "(if mIsNegative b then - mValue b else mValue b) = mValue b"
      using False by auto
    note eq = mul_native_sorted [OF assms(1-4), unfolded na nb, folded lo_def hi_def,
        unfolded Let_def u]
    show ?thesis
    proof (cases "lo > 3000000000 \<or> hi div 2 ^ 32 * lo > 2095475792")
      case True
      then have "mul_native a b = Inl (runtime_error ''Native value overflow'')"
        using eq w by (cases "lo > 3000000000") simp_all
      moreover have "cMaxNative \<le> mValue a * mValue b"
        using native_tests_fail [OF b(1,2) True] by (simp add: cMaxNative_def prod)
      ultimately show ?thesis by simp
    next
      case ok: False
      have "lo * hi < 2 ^ 64" using native_tests_no_wrap [of lo hi] ok b by simp
      then have r: "u64_range (lo * hi)" using b by (simp add: u64_range_def)
      have "mul_native a b = Inr (mk_native (lo * hi) False)"
        using eq ok w u64_id [OF r] by simp
      with False r prod show ?thesis by (simp add: mk_native_def)
    qed
  qed
qed

theorem mul_native_exact_witness:
  "\<exists>r. mul_native (mk_native 3000000000 False) (mk_native 4294967295 False) = Inr r \<and>
       mValue r = 3000000000 * 4294967295 \<and> cMaxNative < mValue r"
proof -
  let ?a = "mk_native 3000000000 False" and ?b = "mk_native 4294967295 False"
  have h: "st_ok ?a" "st_ok ?b" "mIsNative ?a" "mIsNative ?b" "mValue ?a \<noteq> 0" "mValue ?b \<noteq> 0"
    by (simp_all add: mk_native_def st_ok_def isM_def mIssue0_def)
  have "mul_native ?a ?b \<noteq> Inl (runtime_error ''Native value overflow'')"
    by (simp add: mul_native_def getSNValue_def mk_native_def s64_def u64_def drop_bit_eq_div)
  with mul_native_exact [OF h] show ?thesis
    by (cases "mul_native ?a ?b") (auto simp: mk_native_def cMaxNative_def)
qed

end
