(* ===== verification/Quality.thy ===== *)
theory Quality
  imports STAmountRound
begin

unbundle bit_operations_syntax

text \<open>
  \<^verbatim>\<open>protocol/impl/Quality.cpp\<close>, \<^verbatim>\<open>protocol/impl/Rate2.cpp\<close>,
  \<^verbatim>\<open>protocol/AmountConversions.h\<close>: the price of an offer (a \<open>Quality\<close> is its 64-bit
  value \<^verbatim>\<open>m_value\<close>, smaller is better), capping of offer amounts at a price, transfer rates
  in billionths, and the conversions between the amount types. The amendment switches
  of the rounding operations are \<open>so1\<close>, \<open>so2\<close>.
\<close>

record Amounts =
  am_in :: STAmount
  am_out :: STAmount

definition quality_of :: "Amounts \<Rightarrow> int" where
  "quality_of a = getRate (am_out a) (am_in a)"

definition q_incr :: "int \<Rightarrow> int" where
  "q_incr q = u64 (q - 1)"

definition q_decr :: "int \<Rightarrow> int" where
  "q_decr q = u64 (q + 1)"

definition q_rate :: "int \<Rightarrow> STAmount result" where
  "q_rate q = amountFromQuality q"

text \<open>\<^verbatim>\<open>operator<\<close>: a larger value is a lower quality.\<close>

definition q_less :: "int \<Rightarrow> int \<Rightarrow> bool" where
  "q_less a b \<longleftrightarrow> a > b"

definition ceil_in :: "bool \<Rightarrow> bool \<Rightarrow> int \<Rightarrow> Amounts \<Rightarrow> STAmount \<Rightarrow> Amounts result" where
  "ceil_in so1 so2 q amount limit =
     rbind (st_less limit (am_in amount)) (\<lambda>over.
       if over then
         rbind (q_rate q) (\<lambda>rate.
         rbind (divRound so1 so2 limit rate (mIssue (am_out amount)) True) (\<lambda>out.
         rbind (st_less (am_out amount) out) (\<lambda>above.
           Inr \<lparr>am_in = limit, am_out = (if above then am_out amount else out)\<rparr>)))
       else Inr amount)"

definition ceil_out :: "bool \<Rightarrow> bool \<Rightarrow> int \<Rightarrow> Amounts \<Rightarrow> STAmount \<Rightarrow> Amounts result" where
  "ceil_out so1 so2 q amount limit =
     rbind (st_less limit (am_out amount)) (\<lambda>over.
       if over then
         rbind (q_rate q) (\<lambda>rate.
         rbind (mulRound so1 so2 limit rate (mIssue (am_in amount)) True) (\<lambda>inn.
         rbind (st_less (am_in amount) inn) (\<lambda>above.
           Inr \<lparr>am_in = (if above then am_in amount else inn), am_out = limit\<rparr>)))
       else Inr amount)"

definition composed_quality :: "bool \<Rightarrow> bool \<Rightarrow> int \<Rightarrow> int \<Rightarrow> int result" where
  "composed_quality so1 so2 lhs rhs =
     rbind (q_rate lhs) (\<lambda>lhs_rate. rbind (q_rate rhs) (\<lambda>rhs_rate.
       rbind (mulRound so1 so2 lhs_rate rhs_rate (mIssue lhs_rate) True) (\<lambda>rate.
         Inr (u64 (push_bit 56 (u64 (mOffset rate + 100))) OR mValue rate))))"

definition mod_table :: "int list" where
  "mod_table =
     [10000000000000000, 1000000000000000, 100000000000000, 10000000000000, 1000000000000,
      100000000000, 10000000000, 1000000000, 100000000, 10000000, 1000000, 100000, 10000,
      1000, 100, 10, 1]"

text \<open>An index outside the table is undefined behaviour in the source; here an error.\<close>

definition q_round :: "int \<Rightarrow> nat \<Rightarrow> int result" where
  "q_round q digits =
     (if digits < length mod_table then
        let md = mod_table ! digits;
            ex = drop_bit 56 q;
            m1 = u64 ((q AND 0x00ffffffffffffff) + md - 1);
            m2 = m1 - m1 mod md
        in Inr (u64 (push_bit 56 ex) OR m2)
      else Inl (logic_error ''mod[digits]''))"

subsection \<open>Transfer rates\<close>

definition parityRate :: int where "parityRate = 1000000000"

definition as_amount :: "int \<Rightarrow> STAmount result" where
  "as_amount rate = mk_amount noIssue rate (- 9) False"

definition rate_multiply :: "STAmount \<Rightarrow> int \<Rightarrow> STAmount result" where
  "rate_multiply amount rate =
     (if rate = parityRate then Inr amount
      else rbind (as_amount rate) (\<lambda>r. st_multiply amount r (mIssue amount)))"

definition rate_multiplyRound :: "bool \<Rightarrow> bool \<Rightarrow> STAmount \<Rightarrow> int \<Rightarrow> bool \<Rightarrow> STAmount result" where
  "rate_multiplyRound so1 so2 amount rate roundUp =
     (if rate = parityRate then Inr amount
      else rbind (as_amount rate) (\<lambda>r. mulRound so1 so2 amount r (mIssue amount) roundUp))"

definition rate_multiplyRound_issue ::
    "bool \<Rightarrow> bool \<Rightarrow> STAmount \<Rightarrow> int \<Rightarrow> Issue \<Rightarrow> bool \<Rightarrow> STAmount result" where
  "rate_multiplyRound_issue so1 so2 amount rate issue roundUp =
     (if rate = parityRate then Inr amount
      else rbind (as_amount rate) (\<lambda>r. mulRound so1 so2 amount r issue roundUp))"

definition rate_divide :: "STAmount \<Rightarrow> int \<Rightarrow> STAmount result" where
  "rate_divide amount rate =
     (if rate = parityRate then Inr amount
      else rbind (as_amount rate) (\<lambda>r. st_divide amount r (mIssue amount)))"

definition rate_divideRound :: "bool \<Rightarrow> bool \<Rightarrow> STAmount \<Rightarrow> int \<Rightarrow> bool \<Rightarrow> STAmount result" where
  "rate_divideRound so1 so2 amount rate roundUp =
     (if rate = parityRate then Inr amount
      else rbind (as_amount rate) (\<lambda>r. divRound so1 so2 amount r (mIssue amount) roundUp))"

definition rate_divideRound_issue ::
    "bool \<Rightarrow> bool \<Rightarrow> STAmount \<Rightarrow> int \<Rightarrow> Issue \<Rightarrow> bool \<Rightarrow> STAmount result" where
  "rate_divideRound_issue so1 so2 amount rate issue roundUp =
     (if rate = parityRate then Inr amount
      else rbind (as_amount rate) (\<lambda>r. divRound so1 so2 amount r issue roundUp))"

subsection \<open>Conversions\<close>

definition toSTAmount_iou :: "IOUAmount \<Rightarrow> Issue \<Rightarrow> STAmount" where
  "toSTAmount_iou iou iss =
     (let isNeg = iou_signum iou < 0 in
      \<lparr>mIssue = iss, mValue = u64 (if isNeg then - mantissa iou else mantissa iou),
       mOffset = exponent iou, mIsNative = False, mIsNegative = isNeg, mDecimal = 0\<rparr>)"

definition toSTAmount_m :: "int \<Rightarrow> STAmount" where
  "toSTAmount_m drops =
     (let isNeg = drops < 0 in mk_native (u64 (if isNeg then - drops else drops)) isNeg)"

definition toAmount_iou :: "STAmount \<Rightarrow> IOUAmount result" where
  "toAmount_iou amt =
     mk_iou (if mIsNegative amt then - s64 (mValue amt) else s64 (mValue amt)) (mOffset amt)"

definition toAmount_m :: "STAmount \<Rightarrow> int" where
  "toAmount_m amt = (if mIsNegative amt then - s64 (mValue amt) else s64 (mValue amt))"

subsection \<open>Rounding a quality\<close>

lemma mod_table_eq: "mod_table = map (\<lambda>d. 10 ^ (16 - d)) [0..<17]"
  by code_simp

lemma mod_table_nth: "d \<le> 16 \<Longrightarrow> mod_table ! d = 10 ^ (16 - d)"
  unfolding mod_table_eq by (subst nth_map) auto

lemma round_up_multiple:
  fixes m md :: int
  assumes "0 < md" "0 \<le> m"
  defines "r \<equiv> m + md - 1 - (m + md - 1) mod md"
  shows "m \<le> r" "r < m + md" "md dvd r"
proof -
  have "0 \<le> (m + md - 1) mod md" "(m + md - 1) mod md < md" using assms by auto
  then show "m \<le> r" "r < m + md" by (auto simp: r_def)
  show "md dvd r" by (simp add: r_def minus_mod_eq_mult_div)
qed

lemma and_low56: "0 \<le> q \<Longrightarrow> q AND 0x00ffffffffffffff = q mod (2 ^ 56 :: int)"
proof -
  have "q AND mask 56 = take_bit 56 q" by (simp add: take_bit_eq_mask)
  then show ?thesis by (simp add: mask_eq_exp_minus_1 take_bit_eq_mod)
qed

text \<open>
  C31. Rounding a quality to \<open>digits\<close> significant digits keeps the exponent field,
  yields a mantissa that is a multiple of \<open>10^(16 - digits)\<close>, and moves the value up
  (to the next worse quality) by less than that.
\<close>
theorem q_round_correct:
  assumes "u64_range q" "q mod 2 ^ 56 \<le> cMaxValue" "1 \<le> digits" "digits \<le> 16"
  shows "\<exists>r. q_round q digits = Inr r \<and> q \<le> r \<and> r < q + 10 ^ (16 - digits) \<and>
             r div 2 ^ 56 = q div 2 ^ 56 \<and> 10 ^ (16 - digits) dvd r mod 2 ^ 56"
proof -
  define md :: int where "md = 10 ^ (16 - digits)"
  define m where "m = q mod 2 ^ 56"
  define r where "r = m + md - 1 - (m + md - 1) mod md"
  have "16 - digits \<le> 15" using assms(3) by simp
  then have md: "0 < md" "md \<le> 10 ^ 15"
    unfolding md_def by (simp, intro power_increasing) auto
  have m: "0 \<le> m" "m \<le> cMaxValue" using assms(2) by (auto simp: m_def)
  note r = round_up_multiple [OF md(1) m(1), folded r_def]
  have r56: "0 \<le> r" "r < 2 ^ 56" using r m md by (auto simp: cMaxValue_def)
  have u: "u64 (m + md - 1) = m + md - 1"
    using m md by (intro u64_id) (simp add: u64_range_def cMaxValue_def)
  have q: "q = q div 2 ^ 56 * 2 ^ 56 + m" by (simp add: m_def)
  have q0: "0 \<le> q" "q < 2 ^ 64" using assms(1) by (auto simp: u64_range_def)
  have p: "u64 (push_bit 56 (q div 2 ^ 56)) = push_bit 56 (q div 2 ^ 56)"
  proof (rule u64_id)
    have "q div 2 ^ 56 * 2 ^ 56 \<le> q" by simp
    moreover have "0 \<le> q div 2 ^ 56" using q0 by (simp add: pos_imp_zdiv_nonneg_iff)
    ultimately show "u64_range (push_bit 56 (q div 2 ^ 56))"
      using q0 by (simp add: u64_range_def push_bit_eq_mult)
  qed
  have "q_round q digits = Inr (push_bit 56 (q div 2 ^ 56) OR r)"
    using assms(4) mod_table_nth [OF assms(4), folded md_def] u p
      and_low56 [OF q0(1), folded m_def]
    by (simp add: q_round_def Let_def drop_bit_eq_div r_def mod_table_eq del: nth_map_upt)
  then have e: "q_round q digits = Inr (q div 2 ^ 56 * 2 ^ 56 + r)"
    using rate_or [OF r56, of "q div 2 ^ 56"] by simp
  have "q \<le> q div 2 ^ 56 * 2 ^ 56 + r" "q div 2 ^ 56 * 2 ^ 56 + r < q + md"
    using r q by linarith+
  then show ?thesis
    using e field_split [OF r56, of "q div 2 ^ 56"] r(3) unfolding md_def by auto
qed

theorem q_round_correct_witness:
  "\<exists>r. q_round (85 * 2 ^ 56 + 1234567890123456) 5 = Inr r \<and>
       85 * 2 ^ 56 + 1234567890123456 \<le> r \<and> r < 85 * 2 ^ 56 + 1234567890123456 + 10 ^ 11"
  using q_round_correct [of "85 * 2 ^ 56 + 1234567890123456" 5]
  by (auto simp: u64_range_def cMaxValue_def)

subsection \<open>Capping offers\<close>

lemma mk_amount_ok:
  assumes "mk_amount i v e False = Inr r" "u64_range v"
  shows "st_ok r" "mIssue r = i"
proof -
  have v: "0 \<le> v" using assms(2) by (simp add: u64_range_def)
  have "st_ok r \<and> mIssue r = i"
  proof (cases "isM i")
    case False
    with mk_amount_issued [OF assms(1) False v] show ?thesis by simp
  next
    case True
    obtain w where w: "0 \<le> w" "native_up (fst (native_down v e)) (snd (native_down v e)) = (w, 0)"
    proof (cases "e < 0")
      case True
      then show thesis
        using that [of "v div 10 ^ nat (- e)"] v
        by (simp add: native_down_form native_up.simps pos_imp_zdiv_nonneg_iff)
    next
      case False
      then show thesis
        using that [of "u64 (v * 10 ^ nat e)"] assms(2)
        by (simp add: native_down_pos native_up_form u64_def)
    qed
    have "mIssue r = i \<and> mOffset r = 0 \<and> mIsNative r \<and> \<not> mIsNegative r \<and>
        0 \<le> mValue r \<and> mValue r \<le> cMaxNativeN"
      using assms(1) True w
      by (auto simp: mk_amount_def canonicalize_def Let_def case_prod_beta cMaxNativeN_def
          split: if_splits)
    then show ?thesis using True by (simp add: st_ok_def cMaxNativeN_def)
  qed
  then show "st_ok r" "mIssue r = i" by auto
qed

text \<open>The results of the rounding operations on non-negative operands are canonical.\<close>

lemma round_result_ok:
  assumes "round_result so1 so2 i A e False up = Inr r" "u64_range A"
  shows "st_ok r" "mIssue r = i"
proof -
  obtain A' e' where c: "(if up then canonicalizeRound (isM i) A e else (A, e)) = (A', e')"
    by fastforce
  have "u64_range (u64 k div 10)" for k
    using u64_in_range [of k] by (auto simp: u64_range_def)
  then have A': "u64_range A'"
    using c assms(2) by (auto simp: canonicalizeRound_def Let_def split: if_splits prod.splits)
  obtain v where v: "mk_amount i A' e' False = Inr v"
      "r = v \<or> mk_amount i 1 0 False = Inr r \<or> mk_amount i cMinValue cMinOffset False = Inr r"
    using assms(1) c by (auto simp: round_result_def rbind_Inr_iff split: if_splits prod.splits)
  have "u64_range 1" "u64_range cMinValue" by (simp_all add: u64_range_def cMinValue_def)
  with v A' mk_amount_ok [OF v(1) A'] mk_amount_ok [of i 1 0 r]
    mk_amount_ok [of i cMinValue cMinOffset r]
  show "st_ok r" "mIssue r = i" by auto
qed

lemma bring_native_nonneg: "st_ok a \<Longrightarrow> bring_native a = (v, off) \<Longrightarrow> 0 \<le> v"
  using bring_form [of "mValue a" "mOffset a"]
  by (cases "mValue a = 0") (auto simp: bring_native_def st_ok_def bring.simps split: if_splits)

lemma muldiv_round_range:
  assumes "muldiv_round n m d k = Inr A" "0 \<le> n" "0 \<le> m" "0 \<le> d" "0 \<le> k"
  shows "u64_range A"
  using assms by (auto simp: muldiv_round_def Let_def u64_range_def u64_max_def
      pos_imp_zdiv_nonneg_iff split: if_splits)

lemma divRound_ok:
  assumes "divRound so1 so2 a b i up = Inr r" "st_ok a" "st_ok b" "mIsNegative a = mIsNegative b"
  shows "st_ok r" "mIssue r = i"
proof -
  obtain n on where A: "bring_native a = (n, on)" by fastforce
  obtain d od where B: "bring_native b = (d, od)" by fastforce
  have nd: "0 \<le> n" "0 \<le> d" using bring_native_nonneg A B assms by auto
  have t: "0 \<le> tenTo17" and z: "u64_range 0" by (simp_all add: u64_range_def amount_simps)
  consider "mk_amount i 0 0 False = Inr r"
    | V where "d \<noteq> 0" "muldiv_round n tenTo17 d (if up then d - 1 else 0) = Inr V"
        "round_result so1 so2 i V (on - od - 17) False up = Inr r"
    using assms(1,4) A B
    by (auto simp: divRound_def rbind_Inr_iff muldiv_round_def split: if_splits)
  then have "st_ok r \<and> mIssue r = i"
  proof cases
    case 1
    with mk_amount_ok [OF 1 z] show ?thesis by simp
  next
    case 2
    have "u64_range V" using muldiv_round_range [OF 2(2) nd(1) t nd(2)] 2(1) nd(2) by simp
    with round_result_ok [OF 2(3)] show ?thesis by simp
  qed
  then show "st_ok r" "mIssue r = i" by auto
qed

lemma mulRound_ok:
  assumes "mulRound so1 so2 a b i up = Inr r" "st_ok a" "st_ok b" "mIsNegative a = mIsNegative b"
    and nn: "\<not> mIsNative b"
  shows "st_ok r" "mIssue r = i"
proof -
  obtain n on where A: "bring_native a = (n, on)" by fastforce
  obtain d od where B: "bring_native b = (d, od)" by fastforce
  have nd: "0 \<le> n" "0 \<le> d" using bring_native_nonneg A B assms by auto
  have t: "0 \<le> tenTo14" and z: "u64_range 0" by (simp_all add: u64_range_def amount_simps)
  consider "mk_amount i 0 0 False = Inr r"
    | V where "muldiv_round n d tenTo14 (if up then tenTo14m1 else 0) = Inr V"
        "round_result so1 so2 i V (on + od + 14) False up = Inr r"
    using assms(1,4) A B nn
    by (auto simp: mulRound_def rbind_Inr_iff split: if_splits)
  then have "st_ok r \<and> mIssue r = i"
  proof cases
    case 1
    with mk_amount_ok [OF 1 z] show ?thesis by simp
  next
    case 2
    have "u64_range V" using muldiv_round_range [OF 2(1) nd t] by (simp add: amount_simps)
    with round_result_ok [OF 2(2)] show ?thesis by simp
  qed
  then show "st_ok r" "mIssue r = i" by auto
qed

lemma q_rate_ok:
  assumes "q_rate q = Inr r" "u64_range q"
  shows "st_ok r" "\<not> mIsNegative r" "\<not> mIsNative r"
proof -
  have "0 \<le> q mod 2 ^ 56" by simp
  then have "\<exists>v e. mk_amount noIssue v e False = Inr r \<and> 0 \<le> v"
    using assms rate_and [OF assms(2)]
    by (auto simp: q_rate_def amountFromQuality_def split: if_splits)
  then obtain v e where v: "mk_amount noIssue v e False = Inr r" "0 \<le> v" by blast
  note m = mk_amount_issued [OF v(1) noIssue_issued v(2)]
  show "st_ok r" "\<not> mIsNative r" by (rule m)+
  show "\<not> mIsNegative r" using m by (cases "mValue r = 0") (auto simp: st_ok_def)
qed

lemma st_less_Inr:
  assumes "st_less a b = Inr t" "st_ok a" "st_ok b"
  shows "t \<longleftrightarrow> st_val a < st_val b"
  using assms st_less_value [OF assms(2,3)] by (auto split: if_splits)

lemma ceil_in_caps:
  assumes ok: "u64_range q" "st_ok (am_in amount)" "st_ok (am_out amount)" "st_ok limit"
      "\<not> mIsNegative limit"
    and r: "ceil_in so1 so2 q amount limit = Inr r"
  shows "st_val (am_in r) = min (st_val (am_in amount)) (st_val limit) \<and>
    st_val (am_out r) \<le> st_val (am_out amount) \<and> st_ok (am_in r) \<and> st_ok (am_out r)"
proof -
  obtain over where over: "st_less limit (am_in amount) = Inr over"
    using r by (auto simp: ceil_in_def rbind_Inr_iff)
  note o = st_less_Inr [OF over ok(4,2)]
  show ?thesis
  proof (cases over)
    case True
    then obtain rate out above where x: "q_rate q = Inr rate"
        "divRound so1 so2 limit rate (mIssue (am_out amount)) True = Inr out"
        "st_less (am_out amount) out = Inr above"
        "r = \<lparr>am_in = limit, am_out = (if above then am_out amount else out)\<rparr>"
      using r over by (auto simp: ceil_in_def rbind_Inr_iff)
    note q = q_rate_ok [OF x(1) ok(1)]
    have "st_ok out" using divRound_ok(1) [OF x(2) ok(4) q(1)] ok(5) q(2) by simp
    with st_less_Inr [OF x(3) ok(3)] x(4) o True ok show ?thesis by (auto simp: min_def)
  next
    case False
    then have "r = amount" using r over by (simp add: ceil_in_def)
    with False o ok show ?thesis by (auto simp: min_def)
  qed
qed

lemma ceil_out_caps:
  assumes ok: "u64_range q" "st_ok (am_in amount)" "st_ok (am_out amount)" "st_ok limit"
      "\<not> mIsNegative limit"
    and r: "ceil_out so1 so2 q amount limit = Inr r"
  shows "st_val (am_out r) = min (st_val (am_out amount)) (st_val limit) \<and>
    st_val (am_in r) \<le> st_val (am_in amount) \<and> st_ok (am_in r) \<and> st_ok (am_out r)"
proof -
  obtain over where over: "st_less limit (am_out amount) = Inr over"
    using r by (auto simp: ceil_out_def rbind_Inr_iff)
  note o = st_less_Inr [OF over ok(4,3)]
  show ?thesis
  proof (cases over)
    case True
    then obtain rate inn above where x: "q_rate q = Inr rate"
        "mulRound so1 so2 limit rate (mIssue (am_in amount)) True = Inr inn"
        "st_less (am_in amount) inn = Inr above"
        "r = \<lparr>am_in = (if above then am_in amount else inn), am_out = limit\<rparr>"
      using r over by (auto simp: ceil_out_def rbind_Inr_iff)
    note q = q_rate_ok [OF x(1) ok(1)]
    have "st_ok inn" using mulRound_ok(1) [OF x(2) ok(4) q(1) _ q(3)] ok(5) q(2) by simp
    with st_less_Inr [OF x(3) ok(2)] x(4) o True ok show ?thesis by (auto simp: min_def)
  next
    case False
    then have "r = amount" using r over by (simp add: ceil_out_def)
    with False o ok show ?thesis by (auto simp: min_def)
  qed
qed

text \<open>
  C32. Capping an offer at a price creates no money. For canonical amounts and a
  non-negative limit, whenever \<^verbatim>\<open>ceil_in\<close> returns, the input is the smaller of the
  offer's input and the limit and the output is at most the offer's output; dually for
  \<^verbatim>\<open>ceil_out\<close>. Both results are canonical.
\<close>
theorem ceil_no_creation:
  assumes "u64_range q" "st_ok (am_in amount)" "st_ok (am_out amount)" "st_ok limit"
    "\<not> mIsNegative limit"
  shows "(\<forall>r. ceil_in so1 so2 q amount limit = Inr r \<longrightarrow>
            st_val (am_in r) = min (st_val (am_in amount)) (st_val limit) \<and>
            st_val (am_out r) \<le> st_val (am_out amount) \<and> st_ok (am_in r) \<and> st_ok (am_out r)) \<and>
         (\<forall>r. ceil_out so1 so2 q amount limit = Inr r \<longrightarrow>
            st_val (am_out r) = min (st_val (am_out amount)) (st_val limit) \<and>
            st_val (am_in r) \<le> st_val (am_in amount) \<and> st_ok (am_in r) \<and> st_ok (am_out r))"
  using ceil_in_caps [OF assms] ceil_out_caps [OF assms] by blast

theorem ceil_no_creation_witness:
  "\<exists>r. ceil_in True True (85 * 2 ^ 56 + 2000000000000000)
         \<lparr>am_in = mk_native 10 False, am_out = mk_native 5 False\<rparr> (mk_native 4 False) = Inr r \<and>
       st_val (am_in r) = 4 \<and> st_val (am_out r) \<le> 5"
proof -
  let ?o = "\<lparr>am_in = mk_native 10 False, am_out = mk_native 5 False\<rparr>"
  have v: "st_val (mk_native k False) = k" if "0 \<le> k" for k
    by (simp add: st_val_def iou_val_def dec_def mk_native_def)
  have k: "st_ok (mk_native k False)" if "0 \<le> k" "k < 100" for k
    using that by (simp add: mk_native_def st_ok_def isM_def mIssue0_def)
  have r: "ceil_in True True (85 * 2 ^ 56 + 2000000000000000) ?o (mk_native 4 False) =
      Inr \<lparr>am_in = mk_native 4 False, am_out = mk_native 2 False\<rparr>"
    by code_simp
  have "u64_range (85 * 2 ^ 56 + 2000000000000000)" "\<not> mIsNegative (mk_native 4 False)"
    by (simp_all add: u64_range_def mk_native_def)
  then have "st_val (am_in \<lparr>am_in = mk_native 4 False, am_out = mk_native 2 False\<rparr>) = 4 \<and>
      st_val (am_out \<lparr>am_in = mk_native 4 False, am_out = mk_native 2 False\<rparr>) \<le> 5"
    using ceil_no_creation [of "85 * 2 ^ 56 + 2000000000000000" ?o "mk_native 4 False" True True,
        THEN conjunct1, THEN spec, THEN mp, OF _ _ _ _ _ r]
    by (simp add: k v)
  with r show ?thesis by blast
qed

text \<open>
  The conversions used by the payment engine lose nothing: an issued amount
  and a number of drops survive the trip to \<^verbatim>\<open>STAmount\<close> and back.
\<close>
theorem conversions_roundtrip:
  assumes "iou_ok iou" "\<not> isM iss" "int64_range drops"
  shows "toAmount_iou (toSTAmount_iou iou iss) = Inr iou \<and> st_ok (toSTAmount_iou iou iss) \<and>
         toAmount_m (toSTAmount_m drops) = drops \<and> st_ok (toSTAmount_m drops)"
proof -
  have b: "\<bar>mantissa iou\<bar> \<le> maxMantissa" using assms(1) by (rule iou_ok_mantissa)
  then have u: "u64 \<bar>mantissa iou\<bar> = \<bar>mantissa iou\<bar>" "s64 \<bar>mantissa iou\<bar> = \<bar>mantissa iou\<bar>"
    by (auto intro!: u64_id s64_id simp: u64_range_def maxMantissa_def)
  have a: "st_abs (toSTAmount_iou iou iss) = iou"
    using u by (cases iou) (auto simp: toSTAmount_iou_def st_abs_def iou_signum_def abs_if Let_def
        split: if_splits)
  have d: "u64 \<bar>drops\<bar> = \<bar>drops\<bar>" "s64 \<bar>drops\<bar> = \<bar>drops\<bar>"
    using assms(3) by (auto intro!: u64_id s64_id simp: u64_range_def int64_range_def)
  have "toAmount_iou (toSTAmount_iou iou iss) = mk_iou (mantissa iou) (exponent iou)"
    using u by (auto simp: toAmount_iou_def toSTAmount_iou_def iou_signum_def abs_if Let_def
        split: if_splits)
  then have "toAmount_iou (toSTAmount_iou iou iss) = Inr iou"
    using normalize_canonical [OF assms(1)] by (cases iou) (simp add: mk_iou_def)
  moreover have "st_ok (toSTAmount_iou iou iss)"
    using a assms(1,2) u by (auto simp: st_ok_def toSTAmount_iou_def iou_signum_def Let_def abs_if
        split: if_splits)
  moreover have "toAmount_m (toSTAmount_m drops) = drops \<and> st_ok (toSTAmount_m drops)"
    using d assms(3)
    by (auto simp: toAmount_m_def toSTAmount_m_def mk_native_def st_ok_def isM_def mIssue0_def
        int64_range_def Let_def abs_if split: if_splits)
  ultimately show ?thesis by blast
qed

theorem conversions_roundtrip_witness:
  "toAmount_iou (toSTAmount_iou \<lparr>mantissa = - 2500000000000000, exponent = - 15\<rparr> noIssue) =
     Inr \<lparr>mantissa = - 2500000000000000, exponent = - 15\<rparr> \<and>
   toAmount_m (toSTAmount_m (- 42)) = - 42"
  using conversions_roundtrip [of "\<lparr>mantissa = - 2500000000000000, exponent = - 15\<rparr>" noIssue "- 42"]
  by (simp add: iou_ok_def int64_range_def amount_simps)

end
