(* ===== verification/SortedMap.thy ===== *)
theory SortedMap
  imports Main
begin

text \<open>
  Ordered containers. \<^verbatim>\<open>std::map\<close> is a list of key/value pairs in strictly
  increasing order of keys, so that iteration is list traversal; \<open>map_of\<close> is
  \<^verbatim>\<open>find\<close>. The locale \<open>ordered_map\<close> is the interface the state tables use, and
  \<open>least_above\<close> the successor function of an ordered key set.
\<close>

type_synonym ('k, 'v) smap = "('k \<times> 'v) list"

definition smap_ok :: "('k::linorder, 'v) smap \<Rightarrow> bool" where
  "smap_ok xs \<longleftrightarrow> sorted_wrt (<) (map fst xs)"

text \<open>\<^verbatim>\<open>map[k] = v\<close>: insert at the ordered position or overwrite.\<close>

fun smap_put :: "'k::linorder \<Rightarrow> 'v \<Rightarrow> ('k, 'v) smap \<Rightarrow> ('k, 'v) smap" where
  "smap_put k v [] = [(k, v)]"
| "smap_put k v ((k', v') # xs) =
     (if k < k' then (k, v) # (k', v') # xs
      else if k = k' then (k, v) # xs
      else (k', v') # smap_put k v xs)"

definition smap_del :: "'k \<Rightarrow> ('k, 'v) smap \<Rightarrow> ('k, 'v) smap" where
  "smap_del k xs = filter (\<lambda>p. fst p \<noteq> k) xs"

text \<open>The elements from \<^verbatim>\<open>upper_bound (k)\<close> to the end.\<close>

definition smap_above :: "'k::linorder \<Rightarrow> ('k, 'v) smap \<Rightarrow> ('k, 'v) smap" where
  "smap_above k xs = dropWhile (\<lambda>p. fst p \<le> k) xs"

locale ordered_map =
  fixes invar :: "'m \<Rightarrow> bool"
    and find :: "'m \<Rightarrow> 'k::linorder \<Rightarrow> 'v option"
    and put :: "'k \<Rightarrow> 'v \<Rightarrow> 'm \<Rightarrow> 'm"
    and del :: "'k \<Rightarrow> 'm \<Rightarrow> 'm"
    and entries :: "'m \<Rightarrow> ('k \<times> 'v) list"
  assumes invar_put: "invar m \<Longrightarrow> invar (put k v m)"
    and invar_del: "invar m \<Longrightarrow> invar (del k m)"
    and find_put: "invar m \<Longrightarrow> find (put k v m) = (find m)(k \<mapsto> v)"
    and find_del: "invar m \<Longrightarrow> find (del k m) = (find m)(k := None)"
    and entries_find: "invar m \<Longrightarrow> (k, v) \<in> set (entries m) \<longleftrightarrow> find m k = Some v"
    and entries_sorted: "invar m \<Longrightarrow> sorted_wrt (<) (map fst (entries m))"
begin

lemma dom_find: "invar m \<Longrightarrow> dom (find m) = fst ` set (entries m)"
  using entries_find by force

lemma finite_dom: "invar m \<Longrightarrow> finite (dom (find m))"
  by (simp add: dom_find)

lemma entries_distinct: "invar m \<Longrightarrow> distinct (map fst (entries m))"
  using entries_sorted strict_sorted_iff by blast

lemma find_put_put: "invar m \<Longrightarrow> find (put k v (put k w m)) = find (put k v m)"
  by (simp add: find_put invar_put)

end

lemma smap_ok_Nil [simp]: "smap_ok []"
  by (simp add: smap_ok_def)

lemma smap_ok_Cons [simp]:
  "smap_ok (p # xs) \<longleftrightarrow> (\<forall>q \<in> set xs. fst p < fst q) \<and> smap_ok xs"
  by (simp add: smap_ok_def)

lemma set_smap_put_fst: "fst ` set (smap_put k v xs) = insert k (fst ` set xs)"
  by (induction k v xs rule: smap_put.induct) auto

lemma smap_ok_put: "smap_ok xs \<Longrightarrow> smap_ok (smap_put k v xs)"
proof (induction k v xs rule: smap_put.induct)
  case (2 k v k' v' xs)
  have "\<forall>q \<in> set (smap_put k v xs). fst q \<in> insert k (fst ` set xs)"
    by (simp add: set_smap_put_fst [of k v xs, symmetric])
  with 2 show ?case by fastforce
qed simp

lemma smap_ok_del: "smap_ok xs \<Longrightarrow> smap_ok (smap_del k xs)"
  by (induction xs) (auto simp: smap_del_def)

lemma map_of_above: "\<forall>q \<in> set xs. (k :: 'k::linorder) < fst q \<Longrightarrow> map_of xs k = None"
  by (fastforce simp: map_of_eq_None_iff)

lemma map_of_smap_put: "smap_ok xs \<Longrightarrow> map_of (smap_put k v xs) = (map_of xs)(k \<mapsto> v)"
  by (induction k v xs rule: smap_put.induct) (auto simp: fun_eq_iff)

lemma map_of_smap_del: "map_of (smap_del k xs) = (map_of xs)(k := None)"
  by (induction xs) (auto simp: smap_del_def fun_eq_iff)

lemma smap_ok_distinct: "smap_ok xs \<Longrightarrow> distinct (map fst xs)"
  by (simp add: smap_ok_def strict_sorted_iff)

lemma smap_mem: "smap_ok xs \<Longrightarrow> (k, v) \<in> set xs \<longleftrightarrow> map_of xs k = Some v"
  using smap_ok_distinct map_of_is_SomeI map_of_SomeD by fastforce

interpretation smap: ordered_map smap_ok map_of smap_put smap_del "\<lambda>xs. xs"
  by unfold_locales
    (simp_all add: smap_ok_put smap_ok_del map_of_smap_put map_of_smap_del smap_mem,
      simp add: smap_ok_def)

lemma smap_above_filter: "smap_ok xs \<Longrightarrow> smap_above k xs = filter (\<lambda>p. k < fst p) xs"
proof (induction xs)
  case (Cons p xs)
  show ?case
  proof (cases "fst p \<le> k")
    case True
    with Cons show ?thesis by (simp add: smap_above_def)
  next
    case False
    with Cons.prems have "\<forall>q \<in> set xs. k < fst q" by auto
    with False show ?thesis by (simp add: smap_above_def)
  qed
qed (simp add: smap_above_def)

lemma smap_ok_filter: "smap_ok xs \<Longrightarrow> smap_ok (filter P xs)"
  by (induction xs) auto

lemma map_of_smap_above: "smap_ok xs \<Longrightarrow> map_of (smap_above k xs) = map_of xs |` {x. k < x}"
proof -
  have "map_of (filter (\<lambda>p. k < fst p) xs) = map_of xs |` {x. k < x}"
    by (induction xs) (auto simp: restrict_map_def fun_eq_iff)
  then show "smap_ok xs \<Longrightarrow> map_of (smap_above k xs) = map_of xs |` {x. k < x}"
    by (simp add: smap_above_filter)
qed

lemma smap_ok_above: "smap_ok xs \<Longrightarrow> smap_ok (smap_above k xs)"
  by (simp add: smap_above_filter smap_ok_filter)

subsection \<open>Successors\<close>

definition least_above :: "nat set \<Rightarrow> nat \<Rightarrow> nat option" where
  "least_above S k = (if \<exists>x \<in> S. k < x then Some (LEAST x. x \<in> S \<and> k < x) else None)"

lemma least_above_eq_Some:
  "least_above S k = Some n \<longleftrightarrow> n \<in> S \<and> k < n \<and> (\<forall>x \<in> S. k < x \<longrightarrow> n \<le> x)"
proof
  assume "least_above S k = Some n"
  then have ex: "\<exists>x. x \<in> S \<and> k < x" and n: "n = (LEAST x. x \<in> S \<and> k < x)"
    by (auto simp: least_above_def split: if_splits)
  from LeastI_ex [OF ex] n show "n \<in> S \<and> k < n \<and> (\<forall>x \<in> S. k < x \<longrightarrow> n \<le> x)"
    by (auto intro: Least_le)
next
  assume n: "n \<in> S \<and> k < n \<and> (\<forall>x \<in> S. k < x \<longrightarrow> n \<le> x)"
  then have "(LEAST x. x \<in> S \<and> k < x) = n" by (intro Least_equality) auto
  with n show "least_above S k = Some n" by (auto simp: least_above_def)
qed

lemma least_above_eq_None: "least_above S k = None \<longleftrightarrow> (\<forall>x \<in> S. \<not> k < x)"
  by (auto simp: least_above_def)

text \<open>Skipping a successor that is not in the smaller set.\<close>

lemma least_above_skip:
  assumes "least_above S k = Some n" "T \<subseteq> S" "n \<notin> T"
  shows "least_above T k = least_above T n"
proof -
  have n: "n \<in> S" "k < n" "\<And>x. x \<in> S \<Longrightarrow> k < x \<Longrightarrow> n \<le> x"
    using assms(1) by (auto simp: least_above_eq_Some)
  have "k < x \<longleftrightarrow> n < x" if "x \<in> T" for x
    using n(2) n(3) [of x] that assms(2,3) by (cases "x = n") force+
  then show ?thesis by (simp add: least_above_def cong: conj_cong)
qed

lemma least_above_smap:
  assumes "smap_ok xs"
  shows "map_option fst (case smap_above k xs of [] \<Rightarrow> None | p # ps \<Rightarrow> Some p) =
    least_above (fst ` set xs) k"
proof (cases "smap_above k xs")
  case Nil
  then have "\<forall>p \<in> set xs. \<not> k < fst p"
    using smap_above_filter [OF assms] by (simp add: filter_empty_conv)
  with Nil show ?thesis by (simp add: least_above_eq_None [THEN iffD2])
next
  case (Cons p ps)
  have f: "filter (\<lambda>p. k < fst p) xs = p # ps" using Cons smap_above_filter [OF assms] by simp
  then have "smap_ok (p # ps)" using smap_ok_filter [OF assms] by metis
  moreover have "q \<in> set (p # ps) \<longleftrightarrow> q \<in> set xs \<and> k < fst q" for q
    using f by (metis (mono_tags, lifting) mem_Collect_eq set_filter)
  ultimately have m: "fst p \<le> fst q" if "q \<in> set xs" "k < fst q" for q
    using that by (metis less_imp_le order_refl set_ConsD smap_ok_Cons)
  have "p \<in> set (filter (\<lambda>p. k < fst p) xs)" unfolding f by simp
  with m have "least_above (fst ` set xs) k = Some (fst p)"
    by (auto simp: least_above_eq_Some)
  with Cons show ?thesis by simp
qed

end
