(* ===== verification/Serializer.thy ===== *)
theory Serializer
  imports Prelude "HOL-Library.Word"
begin

unbundle bit_operations_syntax

text \<open>
  \<^verbatim>\<open>protocol/Serializer.h\<close>, \<^verbatim>\<open>protocol/impl/Serializer.cpp\<close>: the byte-level wire format.
  A byte is an \<open>8 word\<close>, the integers written are words of their width. The \<^verbatim>\<open>add\<close>
  operations of \<^verbatim>\<open>Serializer\<close> return the old length and the extended buffer;
  \<^verbatim>\<open>SerialIter\<close> is the buffer with the two counters of the class. The locale \<open>codec\<close> is
  the contract between a writer and a reader: reading back gives the value and leaves the
  rest, so that an encoding can be followed by anything.
\<close>

type_synonym byte = "8 word"
type_synonym Blob = "byte list"

subsection \<open>Serializer\<close>

definition addZeros :: "nat \<Rightarrow> Blob \<Rightarrow> nat \<times> Blob" where
  "addZeros uBytes s = (length s, s @ replicate uBytes 0)"

definition add8 :: "byte \<Rightarrow> Blob \<Rightarrow> nat \<times> Blob" where
  "add8 b s = (length s, s @ [b])"

definition add16 :: "16 word \<Rightarrow> Blob \<Rightarrow> nat \<times> Blob" where
  "add16 i s = (length s, s @ [ucast (drop_bit 8 i), ucast (i AND 0xFF)])"

definition add32 :: "32 word \<Rightarrow> Blob \<Rightarrow> nat \<times> Blob" where
  "add32 i s = (length s, s @
     [ucast (drop_bit 24 i), ucast (drop_bit 16 i AND 0xFF), ucast (drop_bit 8 i AND 0xFF),
      ucast (i AND 0xFF)])"

definition add64 :: "64 word \<Rightarrow> Blob \<Rightarrow> nat \<times> Blob" where
  "add64 i s = (length s, s @
     [ucast (drop_bit 56 i), ucast (drop_bit 48 i AND 0xFF), ucast (drop_bit 40 i AND 0xFF),
      ucast (drop_bit 32 i AND 0xFF), ucast (drop_bit 24 i AND 0xFF),
      ucast (drop_bit 16 i AND 0xFF), ucast (drop_bit 8 i AND 0xFF), ucast (i AND 0xFF)])"

definition addRaw :: "Blob \<Rightarrow> Blob \<Rightarrow> nat \<times> Blob" where
  "addRaw v s = (length s, s @ v)"

text \<open>A \<^verbatim>\<open>base_uint\<close> of \<open>n\<close> bytes is kept, and copied, in big-endian byte order.\<close>

fun be_bytes :: "nat \<Rightarrow> int \<Rightarrow> Blob" where
  "be_bytes 0 x = []"
| "be_bytes (Suc n) x = be_bytes n (x div 256) @ [word_of_int x]"

definition be_int :: "Blob \<Rightarrow> int" where
  "be_int bs = foldl (\<lambda>a b. a * 256 + uint b) 0 bs"

definition addBitString :: "nat \<Rightarrow> int \<Rightarrow> Blob \<Rightarrow> nat \<times> Blob" where
  "addBitString n i s = (length s, s @ be_bytes n i)"

definition ser_getBitString :: "nat \<Rightarrow> Blob \<Rightarrow> nat \<Rightarrow> int option" where
  "ser_getBitString n s off =
     (if off + n \<le> length s then Some (be_int (take n (drop off s))) else None)"

definition addFieldID :: "int \<Rightarrow> int \<Rightarrow> Blob \<Rightarrow> nat \<times> Blob" where
  "addFieldID type name s = (length s, s @
     (if type < 16 then
        if name < 16 then [word_of_int (push_bit 4 type OR name)]
        else [word_of_int (push_bit 4 type), word_of_int name]
      else if name < 16 then [word_of_int name, word_of_int type]
      else [0, word_of_int type, word_of_int name]))"

definition ser_get8 :: "Blob \<Rightarrow> nat \<Rightarrow> int option" where
  "ser_get8 s off = (if off \<ge> length s then None else Some (uint (s ! off)))"

definition chop :: "nat \<Rightarrow> Blob \<Rightarrow> bool \<times> Blob" where
  "chop bytes s = (if bytes > length s then (False, s) else (True, take (length s - bytes) s))"

definition ser_getRaw :: "Blob \<Rightarrow> nat \<Rightarrow> nat \<Rightarrow> Blob option" where
  "ser_getRaw s off len = (if off + len > length s then None else Some (take len (drop off s)))"

definition addEncoded :: "int \<Rightarrow> Blob \<Rightarrow> (nat \<times> Blob) result" where
  "addEncoded len s =
     (if len \<le> 192 then Inr (addRaw [word_of_int len] s)
      else if len \<le> 12480 then
        (let l = len - 193 in
         Inr (addRaw [193 + word_of_int (drop_bit 8 l), word_of_int (l AND 0xFF)] s))
      else if len \<le> 918744 then
        (let l = len - 12481 in
         Inr (addRaw [241 + word_of_int (drop_bit 16 l), word_of_int (drop_bit 8 l AND 0xFF),
                      word_of_int (l AND 0xFF)] s))
      else Inl (overflow_error ''lenlen''))"

definition addVL :: "Blob \<Rightarrow> Blob \<Rightarrow> (nat \<times> Blob) result" where
  "addVL v s = rbind (addEncoded (int (length v)) s) (\<lambda>(ret, s'). Inr (ret, snd (addRaw v s')))"

definition encodeLengthLength :: "int \<Rightarrow> int result" where
  "encodeLengthLength len =
     (if len < 0 then Inl (overflow_error ''len<0'')
      else if len \<le> 192 then Inr 1
      else if len \<le> 12480 then Inr 2
      else if len \<le> 918744 then Inr 3
      else Inl (overflow_error ''len>918744''))"

definition decodeLengthLength :: "int \<Rightarrow> int result" where
  "decodeLengthLength b1 =
     (if b1 < 0 then Inl (overflow_error ''b1<0'')
      else if b1 \<le> 192 then Inr 1
      else if b1 \<le> 240 then Inr 2
      else if b1 \<le> 254 then Inr 3
      else Inl (overflow_error ''b1>254''))"

definition decodeVLLength1 :: "int \<Rightarrow> int result" where
  "decodeVLLength1 b1 =
     (if b1 < 0 then Inl (overflow_error ''b1<0'')
      else if b1 > 254 then Inl (overflow_error ''b1>254'')
      else Inr b1)"

definition decodeVLLength2 :: "int \<Rightarrow> int \<Rightarrow> int result" where
  "decodeVLLength2 b1 b2 =
     (if b1 < 193 then Inl (overflow_error ''b1<193'')
      else if b1 > 240 then Inl (overflow_error ''b1>240'')
      else Inr (193 + (b1 - 193) * 256 + b2))"

definition decodeVLLength3 :: "int \<Rightarrow> int \<Rightarrow> int \<Rightarrow> int result" where
  "decodeVLLength3 b1 b2 b3 =
     (if b1 < 241 then Inl (overflow_error ''b1<241'')
      else if b1 > 254 then Inl (overflow_error ''b1>254'')
      else Inr (12481 + (b1 - 241) * 65536 + b2 * 256 + b3))"

text \<open>
  The common part of \<^verbatim>\<open>getVL\<close> and \<^verbatim>\<open>getVLLength\<close>: the length and the offset behind it.
  \<^verbatim>\<open>decodeLengthLength\<close> is called before the \<^verbatim>\<open>try\<close> block, so its exception escapes.
\<close>

definition caught :: "'a result \<Rightarrow> 'a option" where
  "caught r = (case r of Inl _ \<Rightarrow> None | Inr x \<Rightarrow> Some x)"

definition vl_length_at :: "Blob \<Rightarrow> nat \<Rightarrow> (int \<times> int \<times> nat) option result" where
  "vl_length_at s off =
     (case ser_get8 s off of
        None \<Rightarrow> Inr None
      | Some b1 \<Rightarrow>
          rbind (decodeLengthLength b1) (\<lambda>lenLen.
            if lenLen = 1
            then Inr (map_option (\<lambda>d. (lenLen, d, off + 1)) (caught (decodeVLLength1 b1)))
            else if lenLen = 2
            then (case ser_get8 s (off + 1) of
                    None \<Rightarrow> Inr None
                  | Some b2 \<Rightarrow>
                      Inr (map_option (\<lambda>d. (lenLen, d, off + 2)) (caught (decodeVLLength2 b1 b2))))
            else if lenLen = 3
            then (case (ser_get8 s (off + 1), ser_get8 s (off + 2)) of
                    (Some b2, Some b3) \<Rightarrow>
                      Inr (map_option (\<lambda>d. (lenLen, d, off + 3)) (caught (decodeVLLength3 b1 b2 b3)))
                  | _ \<Rightarrow> Inr None)
            else Inr None))"

definition ser_getVL :: "Blob \<Rightarrow> nat \<Rightarrow> (Blob \<times> int) option result" where
  "ser_getVL s off =
     rbind (vl_length_at s off) (\<lambda>r. Inr (case r of
        None \<Rightarrow> None
      | Some (lenLen, datLen, o') \<Rightarrow>
          map_option (\<lambda>v. (v, lenLen + datLen)) (ser_getRaw s o' (nat datLen))))"

definition ser_getVLLength :: "Blob \<Rightarrow> nat \<Rightarrow> int option result" where
  "ser_getVLLength s off =
     rbind (vl_length_at s off) (\<lambda>r. Inr (map_option (\<lambda>(lenLen, datLen, o'). datLen) r))"

subsection \<open>SerialIter\<close>

record SerialIter =
  si_data :: Blob
  si_used :: nat
  si_remain :: nat

definition SerialIter_of :: "Blob \<Rightarrow> SerialIter" where
  "SerialIter_of d = \<lparr>si_data = d, si_used = 0, si_remain = length d\<rparr>"

definition si_reset :: "SerialIter \<Rightarrow> SerialIter" where
  "si_reset it = it\<lparr>si_remain := si_remain it + si_used it, si_used := 0\<rparr>"

definition advance :: "nat \<Rightarrow> SerialIter \<Rightarrow> SerialIter" where
  "advance n it = it\<lparr>si_used := si_used it + n, si_remain := si_remain it - n\<rparr>"

text \<open>The byte at \<^verbatim>\<open>p_ + k\<close>, and the bytes from \<^verbatim>\<open>p_\<close> on.\<close>

definition byte_at :: "SerialIter \<Rightarrow> nat \<Rightarrow> byte" where
  "byte_at it k = si_data it ! (si_used it + k)"

definition si_skip :: "nat \<Rightarrow> SerialIter \<Rightarrow> SerialIter result" where
  "si_skip n it =
     (if si_remain it < n then Inl (runtime_error ''invalid SerialIter skip'') else Inr (advance n it))"

definition si_get8 :: "SerialIter \<Rightarrow> (byte \<times> SerialIter) result" where
  "si_get8 it =
     (if si_remain it < 1 then Inl (runtime_error ''invalid SerialIter get8'')
      else Inr (byte_at it 0, advance 1 it))"

definition si_get16 :: "SerialIter \<Rightarrow> (16 word \<times> SerialIter) result" where
  "si_get16 it =
     (if si_remain it < 2 then Inl (runtime_error ''invalid SerialIter get16'')
      else Inr (ucast (push_bit 8 (ucast (byte_at it 0) :: 64 word) + ucast (byte_at it 1)),
                advance 2 it))"

definition si_get32 :: "SerialIter \<Rightarrow> (32 word \<times> SerialIter) result" where
  "si_get32 it =
     (if si_remain it < 4 then Inl (runtime_error ''invalid SerialIter get32'')
      else Inr (ucast (push_bit 24 (ucast (byte_at it 0) :: 64 word) + push_bit 16 (ucast (byte_at it 1)) +
                       push_bit 8 (ucast (byte_at it 2)) + ucast (byte_at it 3)),
                advance 4 it))"

definition si_get64 :: "SerialIter \<Rightarrow> (64 word \<times> SerialIter) result" where
  "si_get64 it =
     (if si_remain it < 8 then Inl (runtime_error ''invalid SerialIter get64'')
      else Inr (push_bit 56 (ucast (byte_at it 0)) + push_bit 48 (ucast (byte_at it 1)) +
                push_bit 40 (ucast (byte_at it 2)) + push_bit 32 (ucast (byte_at it 3)) +
                push_bit 24 (ucast (byte_at it 4)) + push_bit 16 (ucast (byte_at it 5)) +
                push_bit 8 (ucast (byte_at it 6)) + ucast (byte_at it 7),
                advance 8 it))"

definition si_getFieldID :: "SerialIter \<Rightarrow> ((int \<times> int) \<times> SerialIter) result" where
  "si_getFieldID it =
     rbind (si_get8 it) (\<lambda>(b, it).
       let name = uint b AND 15; type = drop_bit 4 (uint b) in
       rbind (if type = 0 then
                rbind (si_get8 it) (\<lambda>(t, it).
                  if uint t = 0 \<or> uint t < 16
                  then Inl (runtime_error ''gFID: uncommon type out of range'')
                  else Inr (uint t, it))
              else Inr (type, it)) (\<lambda>(type, it).
       rbind (if name = 0 then
                rbind (si_get8 it) (\<lambda>(n, it).
                  if uint n = 0 \<or> uint n < 16
                  then Inl (runtime_error ''gFID: uncommon name out of range'')
                  else Inr (uint n, it))
              else Inr (name, it)) (\<lambda>(name, it).
       Inr ((type, name), it))))"

definition bytes_at :: "SerialIter \<Rightarrow> nat \<Rightarrow> Blob" where
  "bytes_at it n = take n (drop (si_used it) (si_data it))"

definition si_getRaw :: "nat \<Rightarrow> SerialIter \<Rightarrow> (Blob \<times> SerialIter) result" where
  "si_getRaw n it =
     (if si_remain it < n then Inl (runtime_error ''invalid SerialIter getRaw'')
      else Inr (bytes_at it n, advance n it))"

definition si_getBitString :: "nat \<Rightarrow> SerialIter \<Rightarrow> (int \<times> SerialIter) result" where
  "si_getBitString n it =
     (if si_remain it < n then Inl (runtime_error ''invalid SerialIter getBitString'')
      else Inr (be_int (bytes_at it n), advance n it))"

definition si_getSlice :: "nat \<Rightarrow> SerialIter \<Rightarrow> (Blob \<times> SerialIter) result" where
  "si_getSlice n it =
     (if n > si_remain it then Inl (runtime_error ''invalid SerialIter getSlice'')
      else Inr (bytes_at it n, advance n it))"

definition si_getVLDataLength :: "SerialIter \<Rightarrow> (int \<times> SerialIter) result" where
  "si_getVLDataLength it =
     rbind (si_get8 it) (\<lambda>(b1, it).
     rbind (decodeLengthLength (uint b1)) (\<lambda>lenLen.
       if lenLen = 1 then rbind (decodeVLLength1 (uint b1)) (\<lambda>d. Inr (d, it))
       else if lenLen = 2 then
         rbind (si_get8 it) (\<lambda>(b2, it).
         rbind (decodeVLLength2 (uint b1) (uint b2)) (\<lambda>d. Inr (d, it)))
       else
         rbind (si_get8 it) (\<lambda>(b2, it).
         rbind (si_get8 it) (\<lambda>(b3, it).
         rbind (decodeVLLength3 (uint b1) (uint b2) (uint b3)) (\<lambda>d. Inr (d, it))))))"

definition si_getVL :: "SerialIter \<Rightarrow> (Blob \<times> SerialIter) result" where
  "si_getVL it = rbind (si_getVLDataLength it) (\<lambda>(n, it). si_getRaw (nat n) it)"

subsection \<open>Bounds\<close>

text \<open>The counters add up to the size of the buffer, so that no read leaves it.\<close>

definition si_ok :: "SerialIter \<Rightarrow> bool" where
  "si_ok it \<longleftrightarrow> si_used it + si_remain it = length (si_data it)"

definition si_left :: "SerialIter \<Rightarrow> Blob" where
  "si_left it = drop (si_used it) (si_data it)"

lemma si_left_length: "si_ok it \<Longrightarrow> length (si_left it) = si_remain it"
  by (simp add: si_ok_def si_left_def)

lemma advance_ok:
  assumes "si_ok it" "n \<le> si_remain it"
  shows "si_ok (advance n it)" "si_left (advance n it) = drop n (si_left it)"
    "si_data (advance n it) = si_data it" "si_used (advance n it) = si_used it + n"
    "si_remain (advance n it) = si_remain it - n"
  using assms by (simp_all add: si_ok_def advance_def si_left_def add.commute)

lemma byte_at_left: "si_ok it \<Longrightarrow> k < si_remain it \<Longrightarrow> byte_at it k = si_left it ! k"
  by (simp add: byte_at_def si_left_def si_ok_def)

lemma bytes_at_left: "bytes_at it n = take n (si_left it)"
  by (simp add: bytes_at_def si_left_def)

lemma SerialIter_of_ok [simp]: "si_ok (SerialIter_of d)" "si_left (SerialIter_of d) = d"
  by (simp_all add: SerialIter_of_def si_ok_def si_left_def)

subsection \<open>Big-endian integers\<close>

lemma be_bytes_length [simp]: "length (be_bytes n x) = n"
  by (induction n arbitrary: x) auto

lemma be_int_snoc [simp]: "be_int (bs @ [b]) = be_int bs * 256 + uint b"
  by (simp add: be_int_def)

lemma be_int_Nil [simp]: "be_int [] = 0"
  by (simp add: be_int_def)

lemma be_int_bytes: "be_int (be_bytes n x) = x mod 256 ^ n"
proof (induction n arbitrary: x)
  case (Suc n)
  have "be_int (be_bytes (Suc n) x) = (x div 256) mod 256 ^ n * 256 + x mod 256"
    using Suc by (simp add: uint_word_of_int)
  also have "\<dots> = x mod (256 * 256 ^ n)"
    by (simp add: zmod_zmult2_eq)
  finally show ?case by simp
qed simp

lemma be_int_bounds: "0 \<le> be_int bs \<and> be_int bs < 256 ^ length bs"
proof (induction bs rule: rev_induct)
  case (snoc b bs)
  have "0 \<le> uint b" "uint b < 256" using uint_lt2p [of b] by simp_all
  with snoc show ?case by simp
qed simp

lemma be_bytes_int: "be_bytes (length bs) (be_int bs) = bs"
proof (induction bs rule: rev_induct)
  case (snoc b bs)
  have "0 \<le> uint b" "uint b < 256" using uint_lt2p [of b] by simp_all
  then have "(be_int bs * 256 + uint b) div 256 = be_int bs" by simp
  moreover have "word_of_int (be_int bs * 256 + uint b) = b"
    unfolding word_uint_eq_iff uint_word_of_int using \<open>0 \<le> uint b\<close> \<open>uint b < 256\<close> by simp
  ultimately show ?case using snoc by simp
qed simp

text \<open>The writers and readers of fixed-width integers are big-endian.\<close>

lemma and_255: "(x :: 'a::len word) AND 0xFF = take_bit 8 x"
  by (simp add: take_bit_eq_mask mask_eq_exp_minus_1)

lemma byte_of_word_top: "(ucast (drop_bit n i) :: byte) = word_of_int (uint i div 2 ^ n)"
  by (rule bit_word_eqI) (simp flip: drop_bit_eq_div, simp add: bit_simps)

lemma byte_of_word: "(ucast (drop_bit n i AND 0xFF) :: byte) = word_of_int (uint i div 2 ^ n)"
  unfolding and_255 by (rule bit_word_eqI) (simp flip: drop_bit_eq_div, simp add: bit_simps)

lemma byte_of_word0: "(ucast (i AND 0xFF) :: byte) = word_of_int (uint i)"
  using byte_of_word [of 0 i] by simp

lemma be_bytes_2_4_8:
  "be_bytes 2 x = [word_of_int (x div 2 ^ 8), word_of_int x]"
  "be_bytes 4 x = [word_of_int (x div 2 ^ 24), word_of_int (x div 2 ^ 16), word_of_int (x div 2 ^ 8),
     word_of_int x]"
  "be_bytes 8 x = [word_of_int (x div 2 ^ 56), word_of_int (x div 2 ^ 48), word_of_int (x div 2 ^ 40),
     word_of_int (x div 2 ^ 32), word_of_int (x div 2 ^ 24), word_of_int (x div 2 ^ 16),
     word_of_int (x div 2 ^ 8), word_of_int x]"
  by (simp_all add: eval_nat_numeral zdiv_zmult2_eq [symmetric])

lemma add16_bytes: "add16 i s = (length s, s @ be_bytes 2 (uint i))"
  unfolding add16_def be_bytes_2_4_8 byte_of_word byte_of_word_top unfolding byte_of_word0 by (rule refl)

lemma add32_bytes: "add32 i s = (length s, s @ be_bytes 4 (uint i))"
  unfolding add32_def be_bytes_2_4_8 byte_of_word byte_of_word_top unfolding byte_of_word0 by (rule refl)

lemma add64_bytes: "add64 i s = (length s, s @ be_bytes 8 (uint i))"
  unfolding add64_def be_bytes_2_4_8 byte_of_word byte_of_word_top unfolding byte_of_word0 by (rule refl)

lemma take_nths: "n \<le> length xs \<Longrightarrow> take n xs = map (\<lambda>i. xs ! i) [0..<n]"
  by (simp add: list_eq_iff_nth_eq)

lemma push_ucast: "push_bit k (ucast (b :: byte) :: 'a::len word) = word_of_int (uint b * 2 ^ k)"
  by (simp add: push_bit_eq_mult)

lemma ucast_byte: "(ucast (b :: byte) :: 'a::len word) = word_of_int (uint b)"
  by simp

lemma word_sum: "(word_of_int a :: 'a::len word) + word_of_int b = word_of_int (a + b)"
  by simp

lemma ucast_down_int: "LENGTH('a::len) \<le> 64 \<Longrightarrow> (ucast (word_of_int z :: 64 word) :: 'a word) = word_of_int z"
  by (rule bit_word_eqI) (auto simp: bit_ucast_iff bit_word_of_int_iff)

lemma si_get16_be:
  assumes "si_ok it" "2 \<le> si_remain it"
  shows "si_get16 it = Inr (word_of_int (be_int (take 2 (si_left it))), advance 2 it)"
proof -
  have "take 2 (si_left it) = [byte_at it 0, byte_at it 1]"
    using assms by (simp add: take_nths si_left_length byte_at_left upt_rec eval_nat_numeral)
  then have b: "be_int (take 2 (si_left it)) = uint (byte_at it 0) * 2 ^ 8 + uint (byte_at it 1)"
    by (simp add: be_int_def)
  show ?thesis using assms(2) unfolding si_get16_def push_ucast unfolding ucast_byte word_sum b [symmetric]
    by (subst ucast_down_int) simp_all
qed

lemma si_get32_be:
  assumes "si_ok it" "4 \<le> si_remain it"
  shows "si_get32 it = Inr (word_of_int (be_int (take 4 (si_left it))), advance 4 it)"
proof -
  have "take 4 (si_left it) = [byte_at it 0, byte_at it 1, byte_at it 2, byte_at it 3]"
    using assms by (simp add: take_nths si_left_length byte_at_left upt_rec eval_nat_numeral)
  then have b: "be_int (take 4 (si_left it)) = uint (byte_at it 0) * 2 ^ 24 + uint (byte_at it 1) * 2 ^ 16 +
      uint (byte_at it 2) * 2 ^ 8 + uint (byte_at it 3)"
    by (simp add: be_int_def)
  show ?thesis using assms(2) unfolding si_get32_def push_ucast unfolding ucast_byte word_sum b [symmetric]
    by (subst ucast_down_int) simp_all
qed

lemma si_get64_be:
  assumes "si_ok it" "8 \<le> si_remain it"
  shows "si_get64 it = Inr (word_of_int (be_int (take 8 (si_left it))), advance 8 it)"
proof -
  have "take 8 (si_left it) = [byte_at it 0, byte_at it 1, byte_at it 2, byte_at it 3,
      byte_at it 4, byte_at it 5, byte_at it 6, byte_at it 7]"
    using assms by (simp add: take_nths si_left_length byte_at_left upt_rec eval_nat_numeral)
  then have b: "be_int (take 8 (si_left it)) = uint (byte_at it 0) * 2 ^ 56 + uint (byte_at it 1) * 2 ^ 48 +
      uint (byte_at it 2) * 2 ^ 40 + uint (byte_at it 3) * 2 ^ 32 + uint (byte_at it 4) * 2 ^ 24 +
      uint (byte_at it 5) * 2 ^ 16 + uint (byte_at it 6) * 2 ^ 8 + uint (byte_at it 7)"
    by (simp add: be_int_def)
  show ?thesis using assms(2) unfolding si_get64_def push_ucast unfolding ucast_byte word_sum b [symmetric] by simp
qed

subsection \<open>The contract between writers and readers\<close>

locale codec =
  fixes valid :: "'a \<Rightarrow> bool" and enc :: "'a \<Rightarrow> Blob"
    and get :: "SerialIter \<Rightarrow> ('a \<times> SerialIter) result"
  assumes get_enc: "valid x \<Longrightarrow> si_ok it \<Longrightarrow> si_left it = enc x @ rest \<Longrightarrow>
    get it = Inr (x, advance (length (enc x)) it)"
begin

lemma enc_fits: "si_ok it \<Longrightarrow> si_left it = enc x @ rest \<Longrightarrow> length (enc x) \<le> si_remain it"
  using si_left_length [of it] by simp

lemma after: "si_ok it \<Longrightarrow> si_left it = enc x @ rest \<Longrightarrow>
    si_ok (advance (length (enc x)) it) \<and> si_left (advance (length (enc x)) it) = rest"
  using advance_ok [OF _ enc_fits] by simp

text \<open>No encoding is a prefix of another one: a stream is parsed in one way only.\<close>

lemma unique_parse:
  assumes "valid x" "valid y" "enc x @ r = enc y @ q"
  shows "x = y \<and> r = q"
proof -
  let ?it = "SerialIter_of (enc x @ r)"
  have "get ?it = Inr (x, advance (length (enc x)) ?it)" by (rule get_enc [OF assms(1)]) simp_all
  moreover have "get ?it = Inr (y, advance (length (enc y)) ?it)"
    by (rule get_enc [OF assms(2)]) (simp_all add: assms(3))
  ultimately show ?thesis using assms(3) by auto
qed

end

text \<open>One value after another.\<close>

definition get_pair ::
    "(SerialIter \<Rightarrow> ('a \<times> SerialIter) result) \<Rightarrow> (SerialIter \<Rightarrow> ('b \<times> SerialIter) result) \<Rightarrow>
       SerialIter \<Rightarrow> (('a \<times> 'b) \<times> SerialIter) result" where
  "get_pair ga gb it = rbind (ga it) (\<lambda>(a, it). rbind (gb it) (\<lambda>(b, it). Inr ((a, b), it)))"

lemma codec_pair:
  assumes "codec va ea ga" "codec vb eb gb"
  shows "codec (\<lambda>(a, b). va a \<and> vb b) (\<lambda>(a, b). ea a @ eb b) (get_pair ga gb)"
proof
  fix x it rest
  assume "(\<lambda>(a, b). va a \<and> vb b) x" and ok: "si_ok it" and l: "si_left it = (\<lambda>(a, b). ea a @ eb b) x @ rest"
  then obtain a b where x: "x = (a, b)" "va a" "vb b" by auto
  let ?it = "advance (length (ea a)) it"
  have l': "si_left it = ea a @ eb b @ rest" using l x by simp
  have it: "si_ok ?it" "si_left ?it = eb b @ rest" using codec.after [OF assms(1) ok l'] by simp_all
  show "get_pair ga gb it = Inr (x, advance (length ((\<lambda>(a, b). ea a @ eb b) x)) it)"
    using codec.get_enc [OF assms(1) x(2) ok l'] codec.get_enc [OF assms(2) x(3) it]
    by (simp add: get_pair_def x(1) advance_def add.assoc)
qed

end
