(* ===== verification/WireCodec.thy ===== *)
theory WireCodec
  imports Serializer
begin

unbundle bit_operations_syntax

text \<open>
  The wire formats of \<^verbatim>\<open>Serializer\<close> and \<^verbatim>\<open>SerialIter\<close> fit together: interpretations of the
  locale \<open>codec\<close> for fixed-width integers, \<^verbatim>\<open>base_uint\<close> values, field identifiers,
  variable-length prefixes and variable-length byte strings, and what follows from them.
\<close>

lemma codec_be:
  assumes g: "\<And>it. si_ok it \<Longrightarrow> n \<le> si_remain it \<Longrightarrow> get it = Inr (f (be_int (take n (si_left it))), advance n it)"
    and f: "\<And>x. valid x \<Longrightarrow> f (g x mod 256 ^ n) = x"
  shows "codec valid (\<lambda>x. be_bytes n (g x)) get"
proof
  fix x it rest
  assume v: "valid x" and ok: "si_ok it" and l: "si_left it = be_bytes n (g x) @ rest"
  have "n \<le> si_remain it" using si_left_length [OF ok] l by simp
  from g [OF ok this] show "get it = Inr (x, advance (length (be_bytes n (g x))) it)"
    using f [OF v] by (simp add: l be_int_bytes)
qed

lemma si_get8_be:
  assumes "si_ok it" "1 \<le> si_remain it"
  shows "si_get8 it = Inr (word_of_int (be_int (take 1 (si_left it))), advance 1 it)"
proof -
  have "take 1 (si_left it) = [byte_at it 0]"
    using assms by (simp add: take_nths si_left_length byte_at_left)
  then show ?thesis using assms(2) by (simp add: si_get8_def be_int_def)
qed

interpretation u8: codec "\<lambda>_. True" "\<lambda>i. snd (add8 i [])" si_get8
proof -
  have "(\<lambda>i. snd (add8 i [])) = (\<lambda>i. be_bytes 1 (uint i))" by (simp add: add8_def fun_eq_iff)
  then show "codec (\<lambda>_. True) (\<lambda>i. snd (add8 i [])) si_get8"
    using codec_be [of 1 si_get8 word_of_int "\<lambda>_. True" uint, OF si_get8_be] uint_lt2p [of "_ :: byte"]
    by simp
qed

interpretation u16: codec "\<lambda>_. True" "\<lambda>i. snd (add16 i [])" si_get16
  unfolding add16_bytes snd_conv append_Nil
  by (rule codec_be [where f = word_of_int, OF si_get16_be])
    (use uint_lt2p [of "_ :: 16 word"] in simp_all)

interpretation u32: codec "\<lambda>_. True" "\<lambda>i. snd (add32 i [])" si_get32
  unfolding add32_bytes snd_conv append_Nil
  by (rule codec_be [where f = word_of_int, OF si_get32_be])
    (use uint_lt2p [of "_ :: 32 word"] in simp_all)

interpretation u64: codec "\<lambda>_. True" "\<lambda>i. snd (add64 i [])" si_get64
  unfolding add64_bytes snd_conv append_Nil
  by (rule codec_be [where f = word_of_int, OF si_get64_be])
    (use uint_lt2p [of "_ :: 64 word"] in simp_all)

interpretation bits: codec "\<lambda>x. 0 \<le> x \<and> x < 256 ^ n" "\<lambda>x. snd (addBitString n x [])" "si_getBitString n"
proof -
  have g: "si_getBitString n it = Inr (id (be_int (take n (si_left it))), advance n it)"
    if "si_ok it" "n \<le> si_remain it" for it
    using that by (simp add: si_getBitString_def bytes_at_left)
  show "codec (\<lambda>x. 0 \<le> x \<and> x < 256 ^ n) (\<lambda>x. snd (addBitString n x [])) (si_getBitString n)"
    using codec_be [OF g, of "\<lambda>x. 0 \<le> x \<and> x < 256 ^ n" "\<lambda>x. x"] by (simp add: addBitString_def)
qed

subsection \<open>Field identifiers\<close>

lemma si_get8_Cons:
  assumes "si_ok it" "si_left it = b # rest"
  shows "si_get8 it = Inr (b, advance 1 it)" "si_ok (advance 1 it)" "si_left (advance 1 it) = rest"
  using u8.get_enc [OF TrueI assms(1), of b rest] u8.after [OF assms(1), of b rest] assms(2)
  by (simp_all add: add8_def)

lemma nibbles:
  assumes "0 \<le> n" "n < (16 :: int)"
  shows "push_bit 4 t OR n = 16 * t + n"
proof -
  have t: "take_bit 4 n = n" using assms by (simp add: take_bit_eq_mod)
  have nb: "\<not> bit n k" if "4 \<le> k" for k
    using bit_take_bit_iff [of 4 n k] that unfolding t by simp
  have "push_bit 4 t AND n = 0"
    by (rule bit_eqI) (auto simp: bit_and_iff bit_push_bit_iff nb)
  then have "push_bit 4 t + n = push_bit 4 t OR n"
    by (rule disjunctive_add_eq_or)
  then show ?thesis by (simp add: push_bit_eq_mult)
qed

text \<open>The byte of a number below 256, opaque to the arithmetic on words.\<close>

definition byte_of :: "int \<Rightarrow> byte" where
  "byte_of x = word_of_int x"

lemma uint_byte [simp]: "0 \<le> x \<Longrightarrow> x < 256 \<Longrightarrow> uint (byte_of x) = x"
  unfolding byte_of_def uint_word_of_int by simp

lemma byte_nibbles [simp]:
  assumes "0 \<le> t" "t < 16" "0 \<le> n" "n < 16"
  shows "uint (byte_of (16 * t + n)) AND 15 = n" "drop_bit 4 (uint (byte_of (16 * t + n))) = t"
proof -
  have u: "uint (byte_of (16 * t + n)) = 16 * t + n" using assms by (intro uint_byte) auto
  have "(16 * t + n) AND 15 = (16 * t + n) mod 16"
    using take_bit_eq_mask [of 4 "16 * t + n"] by (simp add: take_bit_eq_mod mask_eq_exp_minus_1)
  then show "uint (byte_of (16 * t + n)) AND 15 = n" using assms by (simp add: u)
  show "drop_bit 4 (uint (byte_of (16 * t + n))) = t"
    unfolding u using assms by (simp add: drop_bit_eq_div)
qed

lemma addFieldID_bytes:
  assumes "0 < t" "0 < n"
  shows "addFieldID t n s = (length s, s @
     (if t < 16 then if n < 16 then [byte_of (16 * t + n)] else [byte_of (16 * t + 0), byte_of n]
      else if n < 16 then [byte_of (16 * 0 + n), byte_of t]
      else [byte_of (16 * 0 + 0), byte_of t, byte_of n]))"
  using assms nibbles [of n t]
  by (auto simp: addFieldID_def byte_of_def push_bit_eq_mult mult.commute simp del: of_int_add of_int_mult)

lemma read_field_id:
  assumes ok: "si_ok it" and b: "0 < t" "t < 256" "0 < n" "n < 256"
    and l: "si_left it = snd (addFieldID t n []) @ rest"
  shows "si_getFieldID it = Inr ((t, n), advance (length (snd (addFieldID t n []))) it)"
proof -
  note l = l [unfolded addFieldID_bytes [OF b(1,3)]]
  note defs = si_getFieldID_def addFieldID_bytes [OF b(1,3)] advance_def add.commute
  consider "t < 16" "n < 16" | "t < 16" "\<not> n < 16" | "\<not> t < 16" "n < 16" | "\<not> t < 16" "\<not> n < 16" by blast
  then show ?thesis
  proof cases
    case 1
    then have l1: "si_left it = byte_of (16 * t + n) # rest" using l by simp
    with si_get8_Cons [OF ok l1] 1 b byte_nibbles [of t n] show ?thesis by (simp add: defs)
  next
    case 2
    then have l2: "si_left it = byte_of (16 * t + 0) # byte_of n # rest" using l by simp
    note g = si_get8_Cons [OF ok l2]
    show ?thesis using g(1) si_get8_Cons [OF g(2,3)] 2 b byte_nibbles [of t 0] by (simp add: defs)
  next
    case 3
    then have l3: "si_left it = byte_of (16 * 0 + n) # byte_of t # rest" using l by simp
    note g = si_get8_Cons [OF ok l3]
    show ?thesis using g(1) si_get8_Cons [OF g(2,3)] 3 b byte_nibbles [of 0 n] by (simp add: defs)
  next
    case 4
    then have l4: "si_left it = byte_of (16 * 0 + 0) # byte_of t # byte_of n # rest" using l by simp
    note g = si_get8_Cons [OF ok l4] and g2 = si_get8_Cons [OF g(2,3)]
    show ?thesis
      using g(1) g2(1) si_get8_Cons [OF g2(2,3)] 4 b byte_nibbles [of 0 0] by (simp add: defs)
  qed
qed

interpretation field_id: codec "\<lambda>(t, n). 0 < t \<and> t < 256 \<and> 0 < n \<and> n < 256"
  "\<lambda>(t, n). snd (addFieldID t n [])" si_getFieldID
  by unfold_locales (use read_field_id in auto)

subsection \<open>Variable lengths\<close>

text \<open>The bytes \<^verbatim>\<open>addEncoded\<close> appends for a length.\<close>

definition vl_prefix :: "int \<Rightarrow> Blob" where
  "vl_prefix n =
     (if n \<le> 192 then [byte_of n]
      else if n \<le> 12480 then [byte_of (193 + (n - 193) div 256), byte_of ((n - 193) mod 256)]
      else [byte_of (241 + (n - 12481) div 65536), byte_of ((n - 12481) div 256 mod 256),
            byte_of ((n - 12481) mod 256)])"

lemma and_255_int: "(x :: int) AND 255 = x mod 256"
  using take_bit_eq_mask [of 8 x] by (simp add: take_bit_eq_mod mask_eq_exp_minus_1)

lemma addEncoded_prefix:
  "addEncoded n s = (if n \<le> 918744 then Inr (length s, s @ vl_prefix n) else Inl (overflow_error ''lenlen''))"
  by (simp add: addEncoded_def addRaw_def vl_prefix_def byte_of_def Let_def and_255_int drop_bit_eq_div)

lemma addVL_prefix:
  "addVL v s = (if length v \<le> 918744 then Inr (length s, s @ vl_prefix (int (length v)) @ v)
                else Inl (overflow_error ''lenlen''))"
  by (simp add: addVL_def addEncoded_prefix addRaw_def)

lemma read_vl_length:
  assumes ok: "si_ok it" and n: "0 \<le> n" "n \<le> 918744" and l: "si_left it = vl_prefix n @ rest"
  shows "si_getVLDataLength it = Inr (n, advance (length (vl_prefix n)) it)"
proof -
  note defs = si_getVLDataLength_def vl_prefix_def decodeLengthLength_def decodeVLLength1_def
    decodeVLLength2_def decodeVLLength3_def advance_def
  consider "n \<le> 192" | "192 < n" "n \<le> 12480" | "12480 < n" by linarith
  then show ?thesis
  proof cases
    case 1
    then have l1: "si_left it = byte_of n # rest" using l by (simp add: vl_prefix_def)
    with si_get8_Cons [OF ok l1] 1 n show ?thesis by (simp add: defs)
  next
    case 2
    define h where "h = (n - 193) div 256"
    define w where "w = (n - 193) mod 256"
    have r: "0 \<le> h" "h \<le> 47" "0 \<le> w" "w < 256" "n = 193 + h * 256 + w"
      using 2 by (auto simp: h_def w_def)
    have l2: "si_left it = byte_of (193 + h) # byte_of w # rest"
      using l 2 by (simp add: vl_prefix_def h_def w_def)
    note g = si_get8_Cons [OF ok l2]
    have "uint (byte_of (193 + h)) = 193 + h" using r by simp
    with g(1) si_get8_Cons [OF g(2,3)] 2 r show ?thesis by (simp add: defs)
  next
    case 3
    define h where "h = (n - 12481) div 65536"
    define u where "u = (n - 12481) div 256 mod 256"
    define w where "w = (n - 12481) mod 256"
    have "(n - 12481) div 65536 = (n - 12481) div 256 div 256" by (simp add: zdiv_zmult2_eq [symmetric])
    then have e: "n - 12481 = (h * 256 + u) * 256 + w" by (simp add: h_def u_def w_def)
    have r: "0 \<le> h" "h \<le> 13" "0 \<le> u" "u < 256" "0 \<le> w" "w < 256" using 3 n by (auto simp: h_def u_def w_def)
    have l3: "si_left it = byte_of (241 + h) # byte_of u # byte_of w # rest"
      using l 3 by (simp add: vl_prefix_def h_def u_def w_def)
    note g = si_get8_Cons [OF ok l3] and g2 = si_get8_Cons [OF g(2,3)]
    have "uint (byte_of (241 + h)) = 241 + h" using r by simp
    with g(1) g2(1) si_get8_Cons [OF g2(2,3)] 3 r e show ?thesis by (simp add: defs)
  qed
qed

interpretation vl_length: codec "\<lambda>n. 0 \<le> n \<and> n \<le> 918744" vl_prefix si_getVLDataLength
  by unfold_locales (use read_vl_length in auto)

interpretation raw_bytes: codec "\<lambda>v. length v = n" "\<lambda>v. v" "si_getRaw n"
proof
  fix v rest :: Blob and it
  assume "length v = n" "si_ok it" "si_left it = v @ rest"
  with si_left_length [of it] show "si_getRaw n it = Inr (v, advance (length v) it)"
    by (simp add: si_getRaw_def bytes_at_left)
qed

text \<open>A byte string with its length.\<close>

definition vl_bytes :: "Blob \<Rightarrow> Blob" where
  "vl_bytes v = vl_prefix (int (length v)) @ v"

interpretation vl: codec "\<lambda>v. length v \<le> 918744" vl_bytes si_getVL
proof
  fix v rest :: Blob and it
  assume v: "length v \<le> 918744" and ok: "si_ok it" and l: "si_left it = vl_bytes v @ rest"
  have p: "0 \<le> int (length v) \<and> int (length v) \<le> 918744" using v by simp
  have l': "si_left it = vl_prefix (int (length v)) @ v @ rest" using l by (simp add: vl_bytes_def)
  note a = vl_length.after [OF ok l', THEN conjunct1] vl_length.after [OF ok l', THEN conjunct2]
  show "si_getVL it = Inr (v, advance (length (vl_bytes v)) it)"
    using vl_length.get_enc [OF p ok l'] raw_bytes.get_enc [OF refl a]
    by (simp add: si_getVL_def vl_bytes_def advance_def)
qed

subsection \<open>Streams\<close>

lemma addFieldID_append: "snd (addFieldID t n s) = s @ snd (addFieldID t n [])"
  by (simp add: addFieldID_def)

lemmas stream_codec = codec_pair [OF field_id.codec_axioms codec_pair [OF u16.codec_axioms
    codec_pair [OF u32.codec_axioms codec_pair [OF u64.codec_axioms vl.codec_axioms]]]]

lemma SerialIter_at:
  "si_ok (advance (length s) (SerialIter_of (s @ e)))" "si_left (advance (length s) (SerialIter_of (s @ e))) = e"
  by (simp_all add: SerialIter_of_def si_ok_def si_left_def advance_def)

lemma advance_advance: "advance n (advance k it) = advance (k + n) it"
  by (simp add: advance_def)



subsection \<open>Lengths have one encoding\<close>

lemma si_get8_inv:
  assumes "si_ok it" "si_get8 it = Inr (b, it')"
  shows "si_left it = b # si_left it'" "si_ok it'"
proof -
  have r: "1 \<le> si_remain it" and e: "b = byte_at it 0" "it' = advance 1 it"
    using assms(2) by (auto simp: si_get8_def split: if_splits)
  show "si_ok it'" using advance_ok(1) [OF assms(1) r] e by simp
  have "si_left it \<noteq> []" using si_left_length [OF assms(1)] r by auto
  then show "si_left it = b # si_left it'"
    using advance_ok(2) [OF assms(1) r] e byte_at_left [OF assms(1), of 0] r
    by (cases "si_left it") simp_all
qed

lemma byte_of_uint: "byte_of (uint b) = b"
  by (simp add: byte_of_def)

lemma byte_bounds: "0 \<le> uint (b :: byte)" "uint b < 256"
  using uint_lt2p [of b] by simp_all

lemma vl_prefix_1: "0 \<le> d1 \<Longrightarrow> d1 \<le> 192 \<Longrightarrow> vl_prefix d1 = [byte_of d1]"
  by (simp add: vl_prefix_def)

lemma split_256:
  assumes "0 \<le> d" "d < (256 :: int)"
  shows "(x * 256 + d) div 256 = x" "(x * 256 + d) mod 256 = d"
  using assms by simp_all

lemma vl_prefix_2:
  assumes "193 \<le> d1" "d1 \<le> 240" "0 \<le> d2" "d2 < 256"
  shows "vl_prefix (193 + (d1 - 193) * 256 + d2) = [byte_of d1, byte_of d2]"
proof -
  define x where "x = d1 - 193"
  have n: "193 + (d1 - 193) * 256 + d2 = 193 + (x * 256 + d2)" by (simp add: x_def)
  have c: "\<not> 193 + (x * 256 + d2) \<le> 192" "193 + (x * 256 + d2) \<le> 12480" "193 + x = d1"
    using assms by (simp_all add: x_def)
  show ?thesis
    unfolding n vl_prefix_def if_not_P [OF c(1)] if_P [OF c(2)] add_diff_cancel_left'
      split_256 [OF assms(3,4)] c(3) by (rule refl)
qed

lemma vl_prefix_3:
  assumes "241 \<le> d1" "0 \<le> d2" "d2 < 256" "0 \<le> d3" "d3 < 256"
  shows "vl_prefix (12481 + (d1 - 241) * 65536 + d2 * 256 + d3) = [byte_of d1, byte_of d2, byte_of d3]"
proof -
  define y where "y = d1 - 241"
  define x where "x = y * 256 + d2"
  have n: "12481 + (d1 - 241) * 65536 + d2 * 256 + d3 = 12481 + (x * 256 + d3)" by (simp add: x_def y_def)
  have c: "\<not> 12481 + (x * 256 + d3) \<le> 192" "\<not> 12481 + (x * 256 + d3) \<le> 12480" "241 + y = d1"
    using assms by (simp_all add: x_def y_def)
  have q: "(x * 256 + d3) div 65536 = (x * 256 + d3) div 256 div 256"
    by (simp add: zdiv_zmult2_eq [symmetric])
  show ?thesis
    unfolding n vl_prefix_def if_not_P [OF c(1)] if_not_P [OF c(2)] add_diff_cancel_left' q
      split_256 [OF assms(4,5)]
    unfolding x_def split_256 [OF assms(2,3)] c(3) by (rule refl)
qed

lemma vl_length_inv:
  assumes ok: "si_ok it" and r: "si_getVLDataLength it = Inr (n, it')"
  shows "0 \<le> n" "n \<le> 929984" "si_left it = vl_prefix n @ si_left it'" "si_ok it'"
proof -
  obtain b1 it1 lenLen where 1: "si_get8 it = Inr (b1, it1)" "decodeLengthLength (uint b1) = Inr lenLen"
    using r by (auto simp: si_getVLDataLength_def rbind_Inr_iff)
  note g1 = si_get8_inv [OF ok 1(1)]
  consider "uint b1 \<le> 192" "lenLen = 1" | "193 \<le> uint b1" "uint b1 \<le> 240" "lenLen = 2"
    | "241 \<le> uint b1" "uint b1 \<le> 254" "lenLen = 3"
    using 1(2) by (auto simp: decodeLengthLength_def split: if_splits)
  then have "0 \<le> n \<and> n \<le> 929984 \<and> si_left it = vl_prefix n @ si_left it' \<and> si_ok it'"
  proof cases
    case 1
    with r \<open>si_get8 it = _\<close> \<open>decodeLengthLength _ = _\<close> have "n = uint b1" "it' = it1"
      by (auto simp: si_getVLDataLength_def rbind_Inr_iff decodeVLLength1_def split: if_splits)
    with 1 g1 byte_bounds [of b1] show ?thesis by (simp add: vl_prefix_1 byte_of_uint)
  next
    case 2
    with r \<open>si_get8 it = _\<close> \<open>decodeLengthLength _ = _\<close> obtain b2 where
      b2: "si_get8 it1 = Inr (b2, it')" "n = 193 + (uint b1 - 193) * 256 + uint b2"
      by (auto simp: si_getVLDataLength_def rbind_Inr_iff decodeVLLength2_def split: if_splits)
    note g2 = si_get8_inv [OF g1(2) b2(1)]
    from 2 g1 g2 byte_bounds [of b2] vl_prefix_2 [of "uint b1" "uint b2"]
    show ?thesis by (simp add: b2(2) byte_of_uint)
  next
    case 3
    with r \<open>si_get8 it = _\<close> \<open>decodeLengthLength _ = _\<close> obtain b2 it2 b3 where
      b2: "si_get8 it1 = Inr (b2, it2)" and b3: "si_get8 it2 = Inr (b3, it')"
        "n = 12481 + (uint b1 - 241) * 65536 + uint b2 * 256 + uint b3"
      by (auto simp: si_getVLDataLength_def rbind_Inr_iff decodeVLLength3_def split: if_splits)
    note g2 = si_get8_inv [OF g1(2) b2]
    note g3 = si_get8_inv [OF g2(2) b3(1)]
    from 3 g1 g2 g3 byte_bounds [of b2] byte_bounds [of b3] vl_prefix_3 [of "uint b1" "uint b2" "uint b3"]
    show ?thesis by (simp add: b3(2) byte_of_uint)
  qed
  then show "0 \<le> n" "n \<le> 929984" "si_left it = vl_prefix n @ si_left it'" "si_ok it'" by simp_all
qed



subsection \<open>Reads stay inside the buffer\<close>

definition reads_inside :: "(SerialIter \<Rightarrow> ('a \<times> SerialIter) result) \<Rightarrow> bool" where
  "reads_inside get \<longleftrightarrow> (\<forall>it x it'. si_ok it \<longrightarrow> get it = Inr (x, it') \<longrightarrow>
     si_ok it' \<and> si_data it' = si_data it \<and> si_used it \<le> si_used it')"

lemma reads_insideI:
  assumes "\<And>it. get it = (if si_remain it < n then Inl e else Inr (f it, advance n it))"
  shows "reads_inside get"
  unfolding reads_inside_def
  by (auto simp: assms not_less advance_ok split: if_splits)

lemma reads_inside_bind:
  assumes "reads_inside a" "\<And>x. reads_inside (b x)"
  shows "reads_inside (\<lambda>it. rbind (a it) (\<lambda>(x, it). b x it))"
  unfolding reads_inside_def
proof (intro allI impI)
  fix it y it'
  assume ok: "si_ok it" and "rbind (a it) (\<lambda>(x, it). b x it) = Inr (y, it')"
  then obtain x it1 where 1: "a it = Inr (x, it1)" "b x it1 = Inr (y, it')"
    by (auto simp: rbind_Inr_iff)
  have 2: "si_ok it1" "si_data it1 = si_data it" "si_used it \<le> si_used it1"
    using assms(1) ok 1(1) unfolding reads_inside_def by blast+
  have "si_ok it'" "si_data it' = si_data it1" "si_used it1 \<le> si_used it'"
    using assms(2) [of x] 2(1) 1(2) unfolding reads_inside_def by blast+
  with 2 show "si_ok it' \<and> si_data it' = si_data it \<and> si_used it \<le> si_used it'" by simp
qed

lemma reads_inside_pure:
  "reads_inside (\<lambda>it. rbind r (\<lambda>x. b x it)) \<longleftrightarrow> (\<forall>x. r = Inr x \<longrightarrow> reads_inside (b x))"
  by (cases r) (auto simp: reads_inside_def)

lemma reads_inside_return [intro!]: "reads_inside (\<lambda>it. Inr (x, it))" "reads_inside (\<lambda>it. Inl e)"
  by (simp_all add: reads_inside_def)

lemma reads_inside_if: "(c \<Longrightarrow> reads_inside a) \<Longrightarrow> (\<not> c \<Longrightarrow> reads_inside b) \<Longrightarrow> reads_inside (\<lambda>it. if c then a it else b it)"
  by (cases c) simp_all

lemma reads_inside_get8: "reads_inside si_get8"
  by (rule reads_insideI [where n = 1]) (rule si_get8_def)

lemma reads_inside_fieldID: "reads_inside si_getFieldID"
  unfolding si_getFieldID_def Let_def
  by (intro reads_inside_bind reads_inside_get8 reads_inside_if reads_inside_return)

lemma reads_inside_vl_length: "reads_inside si_getVLDataLength"
  unfolding si_getVLDataLength_def
  by (intro reads_inside_bind reads_inside_get8 reads_inside_pure [THEN iffD2] allI impI
      reads_inside_if reads_inside_return)

lemma reads_inside_raw: "reads_inside (si_getRaw n)"
  by (rule reads_insideI [where n = n]) (rule si_getRaw_def)


end
