(* ===== verification/LedgerView.thy ===== *)
theory LedgerView
  imports SortedMap WireCodec
begin

text \<open>
  Ledger entries and the two interfaces over them: \<^verbatim>\<open>ledger/ReadView.h\<close> (as the record
  of functions \<open>ReadView\<close>, with the locale \<open>ledger_view\<close> for what its clients rely on)
  and \<^verbatim>\<open>ledger/RawView.h\<close> (the record \<open>RawView\<close> and the locale \<open>raw_target\<close>, whose
  laws are the requirements and effects documented there). \<^verbatim>\<open>app/ledger/Ledger.cpp\<close>
  provides both; its SHAMap of serialized entries is represented by the ordered map
  from keys to entries. Keys (\<^verbatim>\<open>uint256\<close>) are natural numbers, entry types integers,
  and the fields of an entry beyond key and type are of an arbitrary type \<open>'v\<close>.
\<close>

record 'v SLE =
  sle_key :: nat
  sle_type :: int
  sle_obj :: 'v

record Keylet =
  kl_type :: int
  kl_key :: nat

definition ltANY :: int where "ltANY = - 3"
definition ltCHILD :: int where "ltCHILD = - 2"
definition ltINVALID :: int where "ltINVALID = - 1"
definition ltDIR_NODE :: int where "ltDIR_NODE = 100"

definition check :: "Keylet \<Rightarrow> 'v SLE \<Rightarrow> bool" where
  "check k sle =
     (if kl_type k = ltANY then True
      else if kl_type k = ltINVALID then False
      else if kl_type k = ltCHILD then sle_type sle \<noteq> ltDIR_NODE
      else sle_type sle = kl_type k)"

definition keylet_unchecked :: "nat \<Rightarrow> Keylet" where
  "keylet_unchecked key = \<lparr>kl_type = ltANY, kl_key = key\<rparr>"

text \<open>
  A view to read from. \<open>v_succ key lst\<close> is \<open>None\<close> when the call does not return.
\<close>

record 'v ReadView =
  v_exists :: "Keylet \<Rightarrow> bool"
  v_succ :: "nat \<Rightarrow> nat option \<Rightarrow> nat option option"
  v_read :: "Keylet \<Rightarrow> 'v SLE option"

text \<open>A view to write to, as operations on its state.\<close>

record ('v, 's) RawView =
  rawErase :: "'v SLE \<Rightarrow> 's \<Rightarrow> 's result"
  rawInsert :: "'v SLE \<Rightarrow> 's \<Rightarrow> 's result"
  rawReplace :: "'v SLE \<Rightarrow> 's \<Rightarrow> 's result"
  rawDestroyM :: "int \<Rightarrow> 's \<Rightarrow> 's"

subsection \<open>Specifications\<close>

definition bounded_by :: "nat option \<Rightarrow> nat option \<Rightarrow> nat option" where
  "bounded_by lst next =
     (case (next, lst) of (Some n, Some l) \<Rightarrow> if n \<ge> l then None else Some n | _ \<Rightarrow> next)"

definition lookup :: "(nat \<rightharpoonup> 'v SLE) \<Rightarrow> Keylet \<Rightarrow> 'v SLE option" where
  "lookup m k = (case m (kl_key k) of None \<Rightarrow> None | Some s \<Rightarrow> if check k s then Some s else None)"

definition keyed :: "(nat \<rightharpoonup> 'v SLE) \<Rightarrow> bool" where
  "keyed m \<longleftrightarrow> (\<forall>k s. m k = Some s \<longrightarrow> sle_key s = k)"

text \<open>What a reader relies on: the view shows the map \<open>m\<close>.\<close>

locale ledger_view =
  fixes v :: "'v ReadView" and m :: "nat \<rightharpoonup> 'v SLE"
  assumes keyed: "keyed m"
    and read: "kl_key k \<noteq> 0 \<Longrightarrow> v_read v k = lookup m k"
    and exists: "(\<And>s. m (kl_key k) = Some s \<Longrightarrow> check k s) \<Longrightarrow> v_exists v k \<longleftrightarrow> kl_key k \<in> dom m"
    and succ: "v_succ v key lst = Some (bounded_by lst (least_above (dom m) key))"
begin

lemma read_unchecked: "k \<noteq> 0 \<Longrightarrow> v_read v (keylet_unchecked k) = m k"
  by (simp add: read lookup_def keylet_unchecked_def check_def split: option.splits)

lemma read_exists: "kl_key k \<noteq> 0 \<Longrightarrow> v_read v k = Some s \<Longrightarrow> v_exists v k"
  by (subst exists) (auto simp: read lookup_def split: option.splits if_splits)

text \<open>Iterating \<^verbatim>\<open>succ\<close> visits the keys in increasing order and misses none.\<close>

lemma succ_complete:
  assumes "v_succ v key None = Some (Some n)"
  shows "n \<in> dom m" "key < n" "\<And>k. k \<in> dom m \<Longrightarrow> key < k \<Longrightarrow> n \<le> k"
  using assms by (auto simp: succ bounded_by_def least_above_eq_Some split: option.splits)

end

text \<open>
  What a writer relies on, with \<open>content s\<close> the entries the target holds and \<open>drops s\<close>
  the drops handed to \<^verbatim>\<open>rawDestroyM\<close> so far (the ledger adds them to its fee pool).
\<close>

locale raw_target =
  fixes raw :: "('v, 's) RawView" and invar :: "'s \<Rightarrow> bool"
    and content :: "'s \<Rightarrow> nat \<rightharpoonup> 'v SLE" and drops :: "'s \<Rightarrow> int"
  assumes erase: "invar s \<Longrightarrow> sle_key e \<in> dom (content s) \<Longrightarrow>
      \<exists>s'. rawErase raw e s = Inr s' \<and> invar s' \<and> drops s' = drops s \<and>
           content s' = (content s)(sle_key e := None)"
    and insert: "invar s \<Longrightarrow> sle_key e \<notin> dom (content s) \<Longrightarrow>
      \<exists>s'. rawInsert raw e s = Inr s' \<and> invar s' \<and> drops s' = drops s \<and>
           content s' = (content s)(sle_key e \<mapsto> e)"
    and replace: "invar s \<Longrightarrow> sle_key e \<in> dom (content s) \<Longrightarrow>
      \<exists>s'. rawReplace raw e s = Inr s' \<and> invar s' \<and> drops s' = drops s \<and>
           content s' = (content s)(sle_key e \<mapsto> e)"
    and destroy: "invar s \<Longrightarrow> invar (rawDestroyM raw fee s) \<and>
      content (rawDestroyM raw fee s) = content s \<and> drops (rawDestroyM raw fee s) = drops s + fee"

subsection \<open>The ledger\<close>

record 'v Ledger =
  stateMap :: "(nat, 'v SLE) smap"
  info_feePool :: int
  txMap :: "(nat, Blob) smap"

definition ledger_exists :: "'v Ledger \<Rightarrow> Keylet \<Rightarrow> bool" where
  "ledger_exists l k \<longleftrightarrow> map_of (stateMap l) (kl_key k) \<noteq> None"

definition ledger_succ :: "'v Ledger \<Rightarrow> nat \<Rightarrow> nat option \<Rightarrow> nat option" where
  "ledger_succ l key lst =
     (case smap_above key (stateMap l) of
        [] \<Rightarrow> None
      | item # _ \<Rightarrow>
          if (case lst of None \<Rightarrow> False | Some b \<Rightarrow> fst item \<ge> b) then None else Some (fst item))"

definition ledger_read :: "'v Ledger \<Rightarrow> Keylet \<Rightarrow> 'v SLE option" where
  "ledger_read l k =
     (if kl_key k = 0 then None
      else case map_of (stateMap l) (kl_key k) of
             None \<Rightarrow> None
           | Some sle \<Rightarrow> if check k sle then Some sle else None)"

definition ledger_rawErase :: "'v SLE \<Rightarrow> 'v Ledger \<Rightarrow> 'v Ledger result" where
  "ledger_rawErase sle l =
     (if map_of (stateMap l) (sle_key sle) = None
      then Inl (logic_error ''Ledger::rawErase: key not found'')
      else Inr (l\<lparr>stateMap := smap_del (sle_key sle) (stateMap l)\<rparr>))"

definition ledger_rawInsert :: "'v SLE \<Rightarrow> 'v Ledger \<Rightarrow> 'v Ledger result" where
  "ledger_rawInsert sle l =
     (if map_of (stateMap l) (sle_key sle) \<noteq> None
      then Inl (logic_error ''Ledger::rawInsert: key already exists'')
      else Inr (l\<lparr>stateMap := smap_put (sle_key sle) sle (stateMap l)\<rparr>))"

definition ledger_rawReplace :: "'v SLE \<Rightarrow> 'v Ledger \<Rightarrow> 'v Ledger result" where
  "ledger_rawReplace sle l =
     (if map_of (stateMap l) (sle_key sle) = None
      then Inl (logic_error ''Ledger::rawReplace: key not found'')
      else Inr (l\<lparr>stateMap := smap_put (sle_key sle) sle (stateMap l)\<rparr>))"

definition ledger_rawDestroyM :: "int \<Rightarrow> 'v Ledger \<Rightarrow> 'v Ledger" where
  "ledger_rawDestroyM fee l = l\<lparr>info_feePool := info_feePool l + fee\<rparr>"

text \<open>
  The item of the transaction map holds the transaction and its metadata, each with its
  length. The objects the source parses from the two slices are represented by the slices.
\<close>

definition ledger_rawTxInsert :: "nat \<Rightarrow> Blob \<Rightarrow> Blob option \<Rightarrow> 'v Ledger \<Rightarrow> 'v Ledger result" where
  "ledger_rawTxInsert key txn metaData l =
     (case metaData of
        None \<Rightarrow> Inl null_deref
      | Some meta \<Rightarrow>
          rbind (addVL txn []) (\<lambda>(_, s).
          rbind (addVL meta s) (\<lambda>(_, s).
            if map_of (txMap l) key \<noteq> None then Inl (logic_error ''duplicate_tx'')
            else Inr (l\<lparr>txMap := smap_put key s (txMap l)\<rparr>))))"

definition next_slice :: "SerialIter \<Rightarrow> (Blob \<times> SerialIter) result" where
  "next_slice sit = rbind (si_getVLDataLength sit) (\<lambda>(n, sit). si_getSlice (nat n) sit)"

definition deserializeTxPlusMeta :: "Blob \<Rightarrow> (Blob \<times> Blob) result" where
  "deserializeTxPlusMeta item =
     rbind (next_slice (SerialIter_of item)) (\<lambda>(tx, sit).
     rbind (next_slice sit) (\<lambda>(meta, sit). Inr (tx, meta)))"

definition ledger_txExists :: "'v Ledger \<Rightarrow> nat \<Rightarrow> bool" where
  "ledger_txExists l key \<longleftrightarrow> map_of (txMap l) key \<noteq> None"

definition ledger_txRead :: "'v Ledger \<Rightarrow> nat \<Rightarrow> (Blob \<times> Blob) option result" where
  "ledger_txRead l key =
     (case map_of (txMap l) key of
        None \<Rightarrow> Inr None
      | Some item \<Rightarrow> rbind (deserializeTxPlusMeta item) (\<lambda>result. Inr (Some result)))"

definition ledger_as_view :: "'v Ledger \<Rightarrow> 'v ReadView" where
  "ledger_as_view l =
     \<lparr>v_exists = ledger_exists l, v_succ = (\<lambda>key lst. Some (ledger_succ l key lst)),
      v_read = ledger_read l\<rparr>"

definition ledger_raw :: "('v, 'v Ledger) RawView" where
  "ledger_raw =
     \<lparr>rawErase = ledger_rawErase, rawInsert = ledger_rawInsert, rawReplace = ledger_rawReplace,
      rawDestroyM = ledger_rawDestroyM\<rparr>"

definition ledger_ok :: "'v Ledger \<Rightarrow> bool" where
  "ledger_ok l \<longleftrightarrow> smap_ok (stateMap l) \<and> keyed (map_of (stateMap l))"

lemma keyed_update:
  "keyed m \<Longrightarrow> keyed (m(k := None))"
  "keyed m \<Longrightarrow> keyed (m(sle_key e \<mapsto> e))"
  by (auto simp: keyed_def)

lemma ledger_ok_put: "ledger_ok l \<Longrightarrow> ledger_ok (l\<lparr>stateMap := smap_put (sle_key e) e (stateMap l)\<rparr>)"
  by (simp add: ledger_ok_def smap_ok_put map_of_smap_put keyed_update)

lemma ledger_ok_del: "ledger_ok l \<Longrightarrow> ledger_ok (l\<lparr>stateMap := smap_del k (stateMap l)\<rparr>)"
  by (simp add: ledger_ok_def smap_ok_del map_of_smap_del keyed_update)

lemma ledger_ok_smap: "ledger_ok l \<Longrightarrow> smap_ok (stateMap l)"
  by (simp add: ledger_ok_def)

interpretation ledger: raw_target ledger_raw ledger_ok "\<lambda>l. map_of (stateMap l)" info_feePool
proof
  fix s :: "'v Ledger" and e :: "'v SLE" and fee :: int
  assume ok: "ledger_ok s"
  show "ledger_ok (rawDestroyM ledger_raw fee s) \<and>
      map_of (stateMap (rawDestroyM ledger_raw fee s)) = map_of (stateMap s) \<and>
      info_feePool (rawDestroyM ledger_raw fee s) = info_feePool s + fee"
    using ok by (simp add: ledger_raw_def ledger_rawDestroyM_def ledger_ok_def)
  show "\<exists>s'. rawErase ledger_raw e s = Inr s' \<and> ledger_ok s' \<and> info_feePool s' = info_feePool s \<and>
      map_of (stateMap s') = (map_of (stateMap s))(sle_key e := None)"
    if "sle_key e \<in> dom (map_of (stateMap s))"
    using that ok ledger_ok_del [OF ok]
    by (simp add: domIff ledger_raw_def ledger_rawErase_def map_of_smap_del)
  show "\<exists>s'. rawInsert ledger_raw e s = Inr s' \<and> ledger_ok s' \<and> info_feePool s' = info_feePool s \<and>
      map_of (stateMap s') = (map_of (stateMap s))(sle_key e \<mapsto> e)"
    if "sle_key e \<notin> dom (map_of (stateMap s))"
    using that ledger_ok_put [OF ok] ledger_ok_smap [OF ok]
    by (simp add: domIff ledger_raw_def ledger_rawInsert_def map_of_smap_put)
  show "\<exists>s'. rawReplace ledger_raw e s = Inr s' \<and> ledger_ok s' \<and> info_feePool s' = info_feePool s \<and>
      map_of (stateMap s') = (map_of (stateMap s))(sle_key e \<mapsto> e)"
    if "sle_key e \<in> dom (map_of (stateMap s))"
    using that ledger_ok_put [OF ok] ledger_ok_smap [OF ok]
    by (simp add: domIff ledger_raw_def ledger_rawReplace_def map_of_smap_put)
qed

lemma ledger_succ_least:
  assumes "smap_ok (stateMap l)"
  shows "ledger_succ l key lst = bounded_by lst (least_above (dom (map_of (stateMap l))) key)"
  using least_above_smap [OF assms, of key]
  by (auto simp: ledger_succ_def bounded_by_def dom_map_of_conv_image_fst
      split: list.splits option.splits)

text \<open>A well-formed ledger is a view of its state map.\<close>

lemma ledger_view_ledger:
  "ledger_ok l \<Longrightarrow> ledger_view (ledger_as_view l) (map_of (stateMap l))"
  by unfold_locales
    (auto simp: ledger_as_view_def ledger_exists_def ledger_read_def ledger_ok_def lookup_def
      ledger_succ_least)

text \<open>The ledger that holds a given list of entries; every well-formed ledger is of this form.\<close>

definition ledger_of :: "'v SLE list \<Rightarrow> int \<Rightarrow> 'v Ledger" where
  "ledger_of es pool = \<lparr>stateMap = fold (\<lambda>e. smap_put (sle_key e) e) es [], info_feePool = pool, txMap = []\<rparr>"

lemma fold_put_ok:
  assumes "smap_ok xs" "keyed (map_of xs)"
  shows "smap_ok (fold (\<lambda>e. smap_put (sle_key e) e) es xs) \<and>
         keyed (map_of (fold (\<lambda>e. smap_put (sle_key e) e) es xs))"
  using assms
proof (induction es arbitrary: xs)
  case (Cons e es)
  have "keyed (map_of (smap_put (sle_key e) e xs))"
    unfolding map_of_smap_put [OF Cons.prems(1)] using Cons.prems(2) by (rule keyed_update)
  with Cons.IH [OF smap_ok_put [OF Cons.prems(1)]] show ?case by simp
qed simp

lemma keyed_empty [simp]: "keyed Map.empty"
  by (simp add: keyed_def)

lemma ledger_ok_of: "ledger_ok (ledger_of es pool)"
  using fold_put_ok [of "[]" es] by (simp add: ledger_ok_def ledger_of_def)

interpretation built: ledger_view "ledger_as_view (ledger_of es pool)"
  "map_of (stateMap (ledger_of es pool))"
  by (rule ledger_view_ledger [OF ledger_ok_of])

end
