(* ===== verification/TableSucc.thy ===== *)
theory TableSucc
  imports LedgerView
begin

text \<open>
  The successor search that \<^verbatim>\<open>RawStateTable::succ\<close> and \<^verbatim>\<open>ApplyStateTable::succ\<close> share
  word for word: the base successors that are not erased in the table, then the first
  item of the table above the key that is not an erasure, and the lower of the two if
  it is below the bound. \<open>gone\<close> says which items are erasures.
\<close>

text \<open>The loop over the base may not end for an arbitrary base, so it is a partial function.\<close>

definition erased_in :: "('a \<Rightarrow> bool) \<Rightarrow> (nat, 'a) smap \<Rightarrow> nat \<Rightarrow> bool" where
  "erased_in gone items k = (case map_of items k of None \<Rightarrow> False | Some x \<Rightarrow> gone x)"

partial_function (option) base_succ ::
    "(nat \<Rightarrow> bool) \<Rightarrow> 'v ReadView \<Rightarrow> nat \<Rightarrow> nat option \<Rightarrow> nat option option" where
  "base_succ erased base next lst =
     (case v_succ base next lst of
        None \<Rightarrow> None
      | Some None \<Rightarrow> Some None
      | Some (Some n) \<Rightarrow> if erased n then base_succ erased base n lst else Some (Some n))"

fun first_live :: "('a \<Rightarrow> bool) \<Rightarrow> (nat, 'a) smap \<Rightarrow> nat option" where
  "first_live gone [] = None"
| "first_live gone ((k, x) # xs) = (if \<not> gone x then Some k else first_live gone xs)"

definition lower_of :: "nat option \<Rightarrow> nat option \<Rightarrow> nat option" where
  "lower_of next own =
     (case own of
        None \<Rightarrow> next
      | Some k \<Rightarrow> (case next of None \<Rightarrow> Some k | Some n \<Rightarrow> if n > k then Some k else Some n))"

definition table_succ ::
    "('a \<Rightarrow> bool) \<Rightarrow> (nat, 'a) smap \<Rightarrow> 'v ReadView \<Rightarrow> nat \<Rightarrow> nat option \<Rightarrow> nat option option" where
  "table_succ gone items base key lst =
     (case base_succ (erased_in gone items) base key lst of
        None \<Rightarrow> None
      | Some next \<Rightarrow>
          Some (bounded_by lst (lower_of next (first_live gone (smap_above key items)))))"

subsection \<open>It finds the least visible key\<close>

text \<open>The keys a table over the key set \<open>S\<close> shows.\<close>

definition live :: "('a \<Rightarrow> bool) \<Rightarrow> (nat, 'a) smap \<Rightarrow> nat set" where
  "live gone items = {k. \<exists>x. map_of items k = Some x \<and> \<not> gone x}"

definition visible :: "('a \<Rightarrow> bool) \<Rightarrow> (nat, 'a) smap \<Rightarrow> nat set \<Rightarrow> nat set" where
  "visible gone items S = {k \<in> S. \<not> erased_in gone items k} \<union> live gone items"

lemma least_above_Un:
  "least_above (S \<union> T) k = lower_of (least_above S k) (least_above T k)"
proof (cases "least_above S k"; cases "least_above T k")
  assume n: "least_above S k = None" "least_above T k = None"
  then have "least_above (S \<union> T) k = None" unfolding least_above_eq_None by blast
  with n show ?thesis by (simp add: lower_of_def)
next
  fix t assume n: "least_above S k = None" "least_above T k = Some t"
  then have "least_above (S \<union> T) k = Some t"
    unfolding least_above_eq_None least_above_eq_Some by blast
  with n show ?thesis by (simp add: lower_of_def)
next
  fix s assume n: "least_above S k = Some s" "least_above T k = None"
  then have "least_above (S \<union> T) k = Some s"
    unfolding least_above_eq_None least_above_eq_Some by blast
  with n show ?thesis by (simp add: lower_of_def)
next
  fix s t assume n: "least_above S k = Some s" "least_above T k = Some t"
  then have s: "s \<in> S" "k < s" "\<And>x. x \<in> S \<Longrightarrow> k < x \<Longrightarrow> s \<le> x"
    and t: "t \<in> T" "k < t" "\<And>x. x \<in> T \<Longrightarrow> k < x \<Longrightarrow> t \<le> x"
    unfolding least_above_eq_Some by blast+
  have "(if s > t then t else s) \<le> x" if "x \<in> S \<union> T" "k < x" for x
    using s(3) [of x] t(3) [of x] that by auto
  with s(1,2) t(1,2) have "least_above (S \<union> T) k = Some (if s > t then t else s)"
    unfolding least_above_eq_Some by simp
  with n show ?thesis by (simp add: lower_of_def)
qed

lemma bounded_by_None: "bounded_by lst (Some n) = None \<longleftrightarrow> (\<exists>b. lst = Some b \<and> b \<le> n)"
  by (auto simp: bounded_by_def split: option.splits)

lemma bounded_by_Some: "bounded_by lst a = Some n \<Longrightarrow> a = Some n"
  by (auto simp: bounded_by_def split: option.splits if_splits)

lemma bounded_by_no [simp]: "bounded_by lst None = None"
  by (simp add: bounded_by_def)

lemma bounded_lower_of:
  "bounded_by lst (lower_of (bounded_by lst a) b) = bounded_by lst (lower_of a b)"
  by (auto simp: bounded_by_def lower_of_def split: option.splits)

lemma first_live_filter:
  "first_live gone xs = map_option fst (case filter (\<lambda>p. \<not> gone (snd p)) xs of
     [] \<Rightarrow> None | p # ps \<Rightarrow> Some p)"
  by (induction gone xs rule: first_live.induct) auto

lemma first_live_least:
  assumes "smap_ok items"
  shows "first_live gone (smap_above k items) = least_above (live gone items) k"
proof -
  let ?L = "filter (\<lambda>p. \<not> gone (snd p)) items"
  have "fst ` set ?L = live gone items"
    using smap_mem [OF assms] by (force simp: live_def)
  moreover have "filter (\<lambda>p. \<not> gone (snd p)) (smap_above k items) = smap_above k ?L"
    by (simp add: smap_above_filter assms smap_ok_filter conj_commute)
  ultimately show ?thesis
    using least_above_smap [OF smap_ok_filter [OF assms], of k]
    by (simp add: first_live_filter)
qed

lemma finite_erased: "finite {k. erased_in gone items k}"
proof (rule finite_subset)
  show "{k. erased_in gone items k} \<subseteq> dom (map_of items)"
    by (auto simp: erased_in_def split: option.splits)
qed (rule finite_dom_map_of)

context ledger_view
begin

text \<open>The loop over the base ends, since every repetition passes an erased item.\<close>

lemma base_succ_least:
  assumes fin: "finite {k. erased k}"
  shows "base_succ erased v key lst = Some (bounded_by lst (least_above {k \<in> dom m. \<not> erased k} key))"
proof (induction "card {k. erased k \<and> key < k}" arbitrary: key rule: less_induct)
  case less
  let ?D = "{k \<in> dom m. \<not> erased k}"
  have sub: "?D \<subseteq> dom m" by auto
  show ?case
  proof (cases "least_above (dom m) key")
    case None
    with sub have "least_above ?D key = None" by (auto simp: least_above_eq_None)
    with None show ?thesis by (subst base_succ.simps) (simp add: succ bounded_by_def)
  next
    case (Some n)
    then have n: "n \<in> dom m" "key < n" "\<And>x. x \<in> dom m \<Longrightarrow> key < x \<Longrightarrow> n \<le> x"
      by (auto simp: least_above_eq_Some)
    show ?thesis
    proof (cases "bounded_by lst (Some n)")
      case None
      then have "bounded_by lst (least_above ?D key) = None"
      proof (cases "least_above ?D key")
        case (Some k)
        with n(3) sub have "n \<le> k" unfolding least_above_eq_Some by blast
        with None Some show ?thesis by (auto simp: bounded_by_None)
      qed simp
      with None Some show ?thesis by (subst base_succ.simps) (simp add: succ)
    next
      case b: (Some n')
      then have n': "bounded_by lst (Some n) = Some n" using bounded_by_Some [OF b] by simp
      show ?thesis
      proof (cases "erased n")
        case True
        have "{k. erased k \<and> n < k} \<subset> {k. erased k \<and> key < k}" using True n(2) by auto
        then have "card {k. erased k \<and> n < k} < card {k. erased k \<and> key < k}"
          using fin by (intro psubset_card_mono) (auto intro: finite_subset)
        from less [OF this] have "base_succ erased v n lst = Some (bounded_by lst (least_above ?D n))" .
        moreover have "least_above ?D key = least_above ?D n"
          using least_above_skip [OF Some sub] True by auto
        ultimately show ?thesis
          using True n' Some by (subst base_succ.simps) (simp add: succ)
      next
        case False
        then have "n \<in> ?D" using n(1) by auto
        then have "least_above ?D key = Some n" using n sub unfolding least_above_eq_Some by blast
        with False n' Some show ?thesis
          by (subst base_succ.simps) (simp add: succ)
      qed
    qed
  qed
qed

lemma table_succ_least:
  assumes "smap_ok items"
  shows "table_succ gone items v key lst =
    Some (bounded_by lst (least_above (visible gone items (dom m)) key))"
  by (simp add: table_succ_def base_succ_least [OF finite_erased] bounded_lower_of visible_def
      least_above_Un first_live_least [OF assms])

end

end
