(* ===== verification/RawStateTable.thy ===== *)
theory RawStateTable
  imports TableSucc
begin

text \<open>
  \<^verbatim>\<open>ledger/detail/RawStateTable.h\<close>, \<^verbatim>\<open>ledger/impl/RawStateTable.cpp\<close>: the buffer of
  insertions, replacements and erasures an \<^verbatim>\<open>OpenView\<close> keeps over a base view.
  \<open>raw_abs\<close> is the state seen through the table, \<open>raw_ok\<close> the invariant that ties
  its actions to the base. The interpretation \<open>raw_table\<close> shows that the table
  is itself a target of raw modifications, \<open>raw_view_refines\<close> that it is a view, and
  \<open>raw_apply_commits\<close> that applying it to the base gives the state it showed.
\<close>

datatype Action = Erase | Insert | Replace

record 'v RawStateTable =
  rt_items :: "(nat, Action \<times> 'v SLE) smap"
  rt_dropsDestroyed :: int

definition raw_erase :: "'v SLE \<Rightarrow> 'v RawStateTable \<Rightarrow> 'v RawStateTable result" where
  "raw_erase sle t =
     (case map_of (rt_items t) (sle_key sle) of
        None \<Rightarrow> Inr (t\<lparr>rt_items := smap_put (sle_key sle) (Erase, sle) (rt_items t)\<rparr>)
      | Some (Erase, _) \<Rightarrow> Inl (logic_error ''RawStateTable::erase: already erased'')
      | Some (Insert, _) \<Rightarrow> Inr (t\<lparr>rt_items := smap_del (sle_key sle) (rt_items t)\<rparr>)
      | Some (Replace, _) \<Rightarrow>
          Inr (t\<lparr>rt_items := smap_put (sle_key sle) (Erase, sle) (rt_items t)\<rparr>))"

definition raw_insert :: "'v SLE \<Rightarrow> 'v RawStateTable \<Rightarrow> 'v RawStateTable result" where
  "raw_insert sle t =
     (case map_of (rt_items t) (sle_key sle) of
        None \<Rightarrow> Inr (t\<lparr>rt_items := smap_put (sle_key sle) (Insert, sle) (rt_items t)\<rparr>)
      | Some (Erase, _) \<Rightarrow>
          Inr (t\<lparr>rt_items := smap_put (sle_key sle) (Replace, sle) (rt_items t)\<rparr>)
      | Some (Insert, _) \<Rightarrow> Inl (logic_error ''RawStateTable::insert: already inserted'')
      | Some (Replace, _) \<Rightarrow> Inl (logic_error ''RawStateTable::insert: already exists''))"

definition raw_replace :: "'v SLE \<Rightarrow> 'v RawStateTable \<Rightarrow> 'v RawStateTable result" where
  "raw_replace sle t =
     (case map_of (rt_items t) (sle_key sle) of
        None \<Rightarrow> Inr (t\<lparr>rt_items := smap_put (sle_key sle) (Replace, sle) (rt_items t)\<rparr>)
      | Some (Erase, _) \<Rightarrow> Inl (logic_error ''RawStateTable::replace: was erased'')
      | Some (a, _) \<Rightarrow> Inr (t\<lparr>rt_items := smap_put (sle_key sle) (a, sle) (rt_items t)\<rparr>))"

definition raw_destroyM :: "int \<Rightarrow> 'v RawStateTable \<Rightarrow> 'v RawStateTable" where
  "raw_destroyM fee t = t\<lparr>rt_dropsDestroyed := rt_dropsDestroyed t + fee\<rparr>"

definition raw_exists :: "'v RawStateTable \<Rightarrow> 'v ReadView \<Rightarrow> Keylet \<Rightarrow> bool" where
  "raw_exists t base k =
     (case map_of (rt_items t) (kl_key k) of
        None \<Rightarrow> v_exists base k
      | Some (a, sle) \<Rightarrow> if a = Erase then False else check k sle)"

definition raw_read :: "'v RawStateTable \<Rightarrow> 'v ReadView \<Rightarrow> Keylet \<Rightarrow> 'v SLE option" where
  "raw_read t base k =
     (case map_of (rt_items t) (kl_key k) of
        None \<Rightarrow> v_read base k
      | Some (a, sle) \<Rightarrow>
          if a = Erase then None else if check k sle then Some sle else None)"

definition raw_succ ::
    "'v RawStateTable \<Rightarrow> 'v ReadView \<Rightarrow> nat \<Rightarrow> nat option \<Rightarrow> nat option option" where
  "raw_succ t base key lst =
     table_succ (\<lambda>(a, _). a = Erase) (rt_items t) base key lst"

text \<open>\<^verbatim>\<open>apply (RawView& to)\<close>: the items in order of their keys.\<close>

fun apply_items ::
    "('v, 's) RawView \<Rightarrow> (nat, Action \<times> 'v SLE) smap \<Rightarrow> 's \<Rightarrow> 's result" where
  "apply_items raw [] s = Inr s"
| "apply_items raw ((k, (a, sle)) # xs) s =
     rbind (case a of Erase \<Rightarrow> rawErase raw sle s
                    | Insert \<Rightarrow> rawInsert raw sle s
                    | Replace \<Rightarrow> rawReplace raw sle s)
       (apply_items raw xs)"

definition raw_apply :: "('v, 's) RawView \<Rightarrow> 'v RawStateTable \<Rightarrow> 's \<Rightarrow> 's result" where
  "raw_apply raw t s = apply_items raw (rt_items t) (rawDestroyM raw (rt_dropsDestroyed t) s)"

definition raw_as_view :: "'v RawStateTable \<Rightarrow> 'v ReadView \<Rightarrow> 'v ReadView" where
  "raw_as_view t base =
     \<lparr>v_exists = raw_exists t base, v_succ = raw_succ t base, v_read = raw_read t base\<rparr>"

definition raw_raw :: "('v, 'v RawStateTable) RawView" where
  "raw_raw = \<lparr>rawErase = raw_erase, rawInsert = raw_insert, rawReplace = raw_replace,
              rawDestroyM = raw_destroyM\<rparr>"

subsection \<open>What the table shows, and its invariant\<close>

definition shown :: "(nat, Action \<times> 'v SLE) smap \<Rightarrow> (nat \<rightharpoonup> 'v SLE) \<Rightarrow> (nat \<rightharpoonup> 'v SLE)" where
  "shown items m k =
     (case map_of items k of None \<Rightarrow> m k | Some (a, sle) \<Rightarrow> if a = Erase then None else Some sle)"

definition raw_abs :: "'v RawStateTable \<Rightarrow> (nat \<rightharpoonup> 'v SLE) \<Rightarrow> (nat \<rightharpoonup> 'v SLE)" where
  "raw_abs t m = shown (rt_items t) m"

definition items_ok :: "(nat, Action \<times> 'v SLE) smap \<Rightarrow> (nat \<rightharpoonup> 'v SLE) \<Rightarrow> bool" where
  "items_ok items m \<longleftrightarrow> smap_ok items \<and>
     (\<forall>k a sle. map_of items k = Some (a, sle) \<longrightarrow> sle_key sle = k \<and> (a = Insert \<longleftrightarrow> k \<notin> dom m))"

definition raw_ok :: "'v RawStateTable \<Rightarrow> (nat \<rightharpoonup> 'v SLE) \<Rightarrow> bool" where
  "raw_ok t m \<longleftrightarrow> items_ok (rt_items t) m"

lemma items_ok_smap: "items_ok items m \<Longrightarrow> smap_ok items"
  by (simp add: items_ok_def)

lemma items_okD:
  "items_ok items m \<Longrightarrow> map_of items k = Some (a, sle) \<Longrightarrow> sle_key sle = k \<and> (a = Insert \<longleftrightarrow> k \<notin> dom m)"
  unfolding items_ok_def by blast

lemma items_ok_put:
  "items_ok items m \<Longrightarrow> sle_key sle = k \<Longrightarrow> (a = Insert \<longleftrightarrow> k \<notin> dom m) \<Longrightarrow>
     items_ok (smap_put k (a, sle) items) m"
  by (auto simp: items_ok_def smap_ok_put map_of_smap_put)

lemma items_ok_del: "items_ok items m \<Longrightarrow> items_ok (smap_del k items) m"
  by (auto simp: items_ok_def smap_ok_del map_of_smap_del)

lemma shown_put:
  "smap_ok items \<Longrightarrow> shown (smap_put k (a, sle) items) m =
     (if a = Erase then (shown items m)(k := None) else (shown items m)(k \<mapsto> sle))"
  by (auto simp: shown_def map_of_smap_put fun_eq_iff)

lemma shown_del: "shown (smap_del k items) m = (shown items m)(k := m k)"
  by (auto simp: shown_def map_of_smap_del fun_eq_iff)

subsection \<open>The table as a target of raw modifications\<close>

lemma raw_erase_ok:
  assumes ok: "raw_ok t m" and k: "sle_key e \<in> dom (raw_abs t m)"
  shows "\<exists>t'. raw_erase e t = Inr t' \<and> raw_ok t' m \<and>
    rt_dropsDestroyed t' = rt_dropsDestroyed t \<and> raw_abs t' m = (raw_abs t m)(sle_key e := None)"
proof (cases "map_of (rt_items t) (sle_key e)")
  case None
  with k have "sle_key e \<in> dom m" by (auto simp: raw_abs_def shown_def)
  with ok None show ?thesis
    by (simp add: raw_erase_def raw_ok_def raw_abs_def items_ok_put shown_put items_ok_smap)
next
  case (Some p)
  obtain a s where p: "p = (a, s)" by fastforce
  have i: "a = Insert \<longleftrightarrow> sle_key e \<notin> dom m"
    using items_okD [of "rt_items t" m "sle_key e" a s] ok Some p by (simp add: raw_ok_def)
  have "a \<noteq> Erase" using k Some p by (auto simp: raw_abs_def shown_def split: if_splits)
  then consider "a = Insert" | "a = Replace" by (cases a) auto
  then show ?thesis
  proof cases
    case 1
    with i have "m (sle_key e) = None" by (simp add: domIff)
    with 1 ok Some p show ?thesis
      by (simp add: raw_erase_def raw_ok_def raw_abs_def items_ok_del shown_del)
  next
    case 2
    with i ok Some p show ?thesis
      by (simp add: raw_erase_def raw_ok_def raw_abs_def items_ok_put shown_put items_ok_smap)
  qed
qed

lemma raw_insert_ok:
  assumes ok: "raw_ok t m" and k: "sle_key e \<notin> dom (raw_abs t m)"
  shows "\<exists>t'. raw_insert e t = Inr t' \<and> raw_ok t' m \<and>
    rt_dropsDestroyed t' = rt_dropsDestroyed t \<and> raw_abs t' m = (raw_abs t m)(sle_key e \<mapsto> e)"
proof (cases "map_of (rt_items t) (sle_key e)")
  case None
  with k have "sle_key e \<notin> dom m" by (auto simp: raw_abs_def shown_def)
  with ok None show ?thesis
    by (simp add: raw_insert_def raw_ok_def raw_abs_def items_ok_put shown_put items_ok_smap)
next
  case (Some p)
  obtain a s where p: "p = (a, s)" by fastforce
  have i: "a = Insert \<longleftrightarrow> sle_key e \<notin> dom m"
    using items_okD [of "rt_items t" m "sle_key e" a s] ok Some p by (simp add: raw_ok_def)
  have "a = Erase" using k Some p by (auto simp: raw_abs_def shown_def split: if_splits)
  with i ok Some p show ?thesis
    by (simp add: raw_insert_def raw_ok_def raw_abs_def items_ok_put shown_put items_ok_smap)
qed

lemma raw_replace_ok:
  assumes ok: "raw_ok t m" and k: "sle_key e \<in> dom (raw_abs t m)"
  shows "\<exists>t'. raw_replace e t = Inr t' \<and> raw_ok t' m \<and>
    rt_dropsDestroyed t' = rt_dropsDestroyed t \<and> raw_abs t' m = (raw_abs t m)(sle_key e \<mapsto> e)"
proof (cases "map_of (rt_items t) (sle_key e)")
  case None
  with k have "sle_key e \<in> dom m" by (auto simp: raw_abs_def shown_def)
  with ok None show ?thesis
    by (simp add: raw_replace_def raw_ok_def raw_abs_def items_ok_put shown_put items_ok_smap)
next
  case (Some p)
  obtain a s where p: "p = (a, s)" by fastforce
  have i: "a = Insert \<longleftrightarrow> sle_key e \<notin> dom m"
    using items_okD [of "rt_items t" m "sle_key e" a s] ok Some p by (simp add: raw_ok_def)
  have "a \<noteq> Erase" using k Some p by (auto simp: raw_abs_def shown_def split: if_splits)
  with i ok Some p show ?thesis
    by (cases a)
      (simp_all add: raw_replace_def raw_ok_def raw_abs_def items_ok_put shown_put items_ok_smap)
qed

lemma raw_destroyM_ok:
  "raw_ok (raw_destroyM fee t) m = raw_ok t m" "raw_abs (raw_destroyM fee t) m = raw_abs t m"
  "rt_dropsDestroyed (raw_destroyM fee t) = rt_dropsDestroyed t + fee"
  by (simp_all add: raw_destroyM_def raw_ok_def raw_abs_def)

interpretation raw_table: raw_target raw_raw "\<lambda>t. raw_ok t m" "\<lambda>t. raw_abs t m" rt_dropsDestroyed
  by unfold_locales
    (simp_all add: raw_raw_def raw_erase_ok raw_insert_ok raw_replace_ok raw_destroyM_ok)

subsection \<open>Applying a table\<close>

text \<open>Any target that holds the state the table was made for accepts every item.\<close>

context raw_target
begin

lemma apply_items_shown:
  assumes "invar s" "items_ok xs (content s)"
  shows "\<exists>s'. apply_items raw xs s = Inr s' \<and> invar s' \<and> drops s' = drops s \<and>
              content s' = shown xs (content s)"
  using assms
proof (induction xs arbitrary: s)
  case Nil
  then show ?case by (simp add: shown_def fun_eq_iff)
next
  case (Cons p xs)
  obtain k a e where p: "p = (k, (a, e))" by (metis prod.collapse)
  have key: "sle_key e = k" and act: "a = Insert \<longleftrightarrow> k \<notin> dom (content s)"
    using items_okD [OF Cons.prems(2), of k a e] p by auto
  have xs: "smap_ok xs" "map_of xs k = None"
    using items_ok_smap [OF Cons.prems(2)] map_of_above [of xs k] p by auto
  have "\<exists>s1. (case a of Erase \<Rightarrow> rawErase raw e s | Insert \<Rightarrow> rawInsert raw e s
        | Replace \<Rightarrow> rawReplace raw e s) = Inr s1 \<and> invar s1 \<and> drops s1 = drops s \<and>
      content s1 = (if a = Erase then (content s)(k := None) else (content s)(k \<mapsto> e))"
    using erase [OF Cons.prems(1), of e] insert [OF Cons.prems(1), of e]
      replace [OF Cons.prems(1), of e] act key
    by (cases a) simp_all
  then obtain s1 where s1: "(case a of Erase \<Rightarrow> rawErase raw e s | Insert \<Rightarrow> rawInsert raw e s
        | Replace \<Rightarrow> rawReplace raw e s) = Inr s1" "invar s1" "drops s1 = drops s"
      "content s1 = (if a = Erase then (content s)(k := None) else (content s)(k \<mapsto> e))"
    by blast
  have "items_ok xs (content s1)"
    unfolding items_ok_def
  proof (intro conjI allI impI)
    fix k' a' e'
    assume m: "map_of xs k' = Some (a', e')"
    with xs(2) have ne: "k' \<noteq> k" by auto
    with m p have "map_of (p # xs) k' = Some (a', e')" by simp
    from items_okD [OF Cons.prems(2) this] ne s1(4)
    show "sle_key e' = k'" "a' = Insert \<longleftrightarrow> k' \<notin> dom (content s1)" by (auto simp: domIff)
  qed (rule xs(1))
  from Cons.IH [OF s1(2) this] obtain s' where s': "apply_items raw xs s1 = Inr s'" "invar s'"
      "drops s' = drops s1" "content s' = shown xs (content s1)" by blast
  moreover have "shown xs (content s1) = shown (p # xs) (content s)"
    using xs(2) s1(4) p by (auto simp: shown_def fun_eq_iff split: option.splits)
  ultimately show ?case using s1 p by simp
qed

lemma raw_apply_shown:
  assumes "invar s" "raw_ok t (content s)"
  shows "\<exists>s'. raw_apply raw t s = Inr s' \<and> invar s' \<and> content s' = raw_abs t (content s) \<and>
              drops s' = drops s + rt_dropsDestroyed t"
  using destroy [OF assms(1), of "rt_dropsDestroyed t"]
    apply_items_shown [of "rawDestroyM raw (rt_dropsDestroyed t) s" "rt_items t"] assms(2)
  by (auto simp: raw_apply_def raw_ok_def raw_abs_def)

end

text \<open>
  C33. Committing a table of raw modifications: applied to the ledger it was made for,
  it raises no error and leaves a well-formed ledger whose entries are exactly the
  state the table showed, with the destroyed drops added to the fee pool.
\<close>
theorem raw_apply_commits:
  assumes "ledger_ok l" "raw_ok t (map_of (stateMap l))"
  shows "\<exists>l'. raw_apply ledger_raw t l = Inr l' \<and> ledger_ok l' \<and>
              map_of (stateMap l') = raw_abs t (map_of (stateMap l)) \<and>
              info_feePool l' = info_feePool l + rt_dropsDestroyed t"
  using ledger.raw_apply_shown [OF assms] .

theorem raw_apply_commits_witness:
  "\<exists>l'. raw_apply ledger_raw
           \<lparr>rt_items = [(3, (Erase, \<lparr>sle_key = 3, sle_type = 97, sle_obj = ()\<rparr>)),
                       (5, (Insert, \<lparr>sle_key = 5, sle_type = 97, sle_obj = ()\<rparr>))],
            rt_dropsDestroyed = 10\<rparr>
           \<lparr>stateMap = [(3, \<lparr>sle_key = 3, sle_type = 97, sle_obj = ()\<rparr>)], info_feePool = 7, txMap = []\<rparr> = Inr l' \<and>
        info_feePool l' = 17"
proof -
  let ?e = "\<lambda>k. \<lparr>sle_key = k, sle_type = 97, sle_obj = ()\<rparr>"
  let ?l = "\<lparr>stateMap = [(3, ?e 3)], info_feePool = 7, txMap = []\<rparr>"
  let ?t = "\<lparr>rt_items = [(3, (Erase, ?e 3)), (5, (Insert, ?e 5))], rt_dropsDestroyed = 10\<rparr>"
  have l: "ledger_ok ?l" by (simp add: ledger_ok_def keyed_def)
  have t: "raw_ok ?t (map_of (stateMap ?l))" by (simp add: raw_ok_def items_ok_def)
  obtain l' where "raw_apply ledger_raw ?t ?l = Inr l'"
      "info_feePool l' = info_feePool ?l + rt_dropsDestroyed ?t"
    using raw_apply_commits [OF l t] by blast
  then show ?thesis by simp
qed

subsection \<open>The table as a view\<close>

lemma dom_shown: "dom (shown items m) = visible (\<lambda>(a, _). a = Erase) items (dom m)"
proof (rule set_eqI)
  fix k
  show "k \<in> dom (shown items m) \<longleftrightarrow> k \<in> visible (\<lambda>(a, _). a = Erase) items (dom m)"
    by (cases "map_of items k")
      (auto simp: domIff shown_def visible_def erased_in_def live_def)
qed

context ledger_view
begin

lemma raw_view:
  assumes ok: "raw_ok t m"
  shows "ledger_view (raw_as_view t v) (raw_abs t m)"
proof
  have i: "items_ok (rt_items t) m" using ok by (simp add: raw_ok_def)
  show "keyed (raw_abs t m)"
    using keyed items_okD [OF i]
    by (auto simp: keyed_def raw_abs_def shown_def split: option.splits if_splits)
  show "v_read (raw_as_view t v) k = lookup (raw_abs t m) k" if "kl_key k \<noteq> 0" for k
    using that read [of k]
    by (auto simp: raw_as_view_def raw_read_def raw_abs_def shown_def lookup_def split: option.splits)
  show "v_exists (raw_as_view t v) k \<longleftrightarrow> kl_key k \<in> dom (raw_abs t m)"
    if "\<And>s. raw_abs t m (kl_key k) = Some s \<Longrightarrow> check k s" for k
    using that exists [of k]
    by (auto simp: raw_as_view_def raw_exists_def raw_abs_def shown_def split: option.splits if_splits)
  show "v_succ (raw_as_view t v) key lst = Some (bounded_by lst (least_above (dom (raw_abs t m)) key))"
    for key lst
    by (simp add: raw_as_view_def raw_succ_def raw_abs_def dom_shown
        table_succ_least [OF items_ok_smap [OF i]])
qed

end

text \<open>
  C15. Reading through a table of raw modifications: over any view of a state \<open>m\<close>, a
  well-formed table is again a view, of the state with the table's erasures, insertions
  and replacements made. In particular \<^verbatim>\<open>succ\<close> always returns, and returns the least
  key of that state above the given one, below the bound.
\<close>
theorem raw_view_refines:
  assumes "ledger_view base m" "raw_ok t m"
  shows "ledger_view (raw_as_view t base) (raw_abs t m)"
  using ledger_view.raw_view [OF assms] .

theorem raw_view_refines_witness:
  "\<exists>n. raw_succ
     \<lparr>rt_items = [(3, (Erase, \<lparr>sle_key = 3, sle_type = 97, sle_obj = ()\<rparr>)),
                 (5, (Insert, \<lparr>sle_key = 5, sle_type = 97, sle_obj = ()\<rparr>))],
      rt_dropsDestroyed = 0\<rparr>
     (ledger_as_view (ledger_of [\<lparr>sle_key = 3, sle_type = 97, sle_obj = ()\<rparr>] 0)) 2 None = Some n"
proof -
  let ?e = "\<lambda>k. \<lparr>sle_key = k, sle_type = 97, sle_obj = ()\<rparr>"
  let ?l = "ledger_of [?e 3] 0"
  let ?t = "\<lparr>rt_items = [(3, (Erase, ?e 3)), (5, (Insert, ?e 5))], rt_dropsDestroyed = 0\<rparr>"
  have t: "raw_ok ?t (map_of (stateMap ?l))" by (simp add: raw_ok_def items_ok_def ledger_of_def)
  have "ledger_view (raw_as_view ?t (ledger_as_view ?l)) (raw_abs ?t (map_of (stateMap ?l)))"
    by (rule raw_view_refines [OF built.ledger_view_axioms t])
  from ledger_view.succ [OF this, of 2 None] show ?thesis by (simp add: raw_as_view_def)
qed

subsection \<open>Misuse\<close>

text \<open>The requirement an item of the table puts on the base.\<close>

definition item_fits :: "Action \<Rightarrow> nat \<Rightarrow> (nat \<rightharpoonup> 'v SLE) \<Rightarrow> bool" where
  "item_fits a k m \<longleftrightarrow> (a = Insert \<longleftrightarrow> k \<notin> dom m)"

definition apply_item :: "Action \<Rightarrow> 'v SLE \<Rightarrow> 'v Ledger \<Rightarrow> 'v Ledger result" where
  "apply_item a e l = (case a of Erase \<Rightarrow> rawErase ledger_raw e l | Insert \<Rightarrow> rawInsert ledger_raw e l
                        | Replace \<Rightarrow> rawReplace ledger_raw e l)"

lemma apply_item_misfit:
  "\<not> item_fits a (sle_key e) (map_of (stateMap l)) \<Longrightarrow> \<exists>x. apply_item a e l = Inl x"
  by (cases a) (auto simp: item_fits_def apply_item_def ledger_raw_def ledger_rawErase_def
      ledger_rawInsert_def ledger_rawReplace_def)

lemma apply_item_other:
  assumes "apply_item a e l = Inr l'" "ledger_ok l" "k \<noteq> sle_key e"
  shows "ledger_ok l' \<and> map_of (stateMap l') k = map_of (stateMap l) k"
  using assms
  by (cases a) (auto simp: apply_item_def ledger_raw_def ledger_rawErase_def ledger_rawInsert_def
      ledger_rawReplace_def ledger_ok_del ledger_ok_put map_of_smap_put map_of_smap_del
      ledger_ok_smap split: if_splits)

lemma apply_items_misfit:
  assumes "ledger_ok l" "smap_ok xs" "\<forall>(k, a, e) \<in> set xs. sle_key e = k"
    "map_of xs k = Some (a, e)" "\<not> item_fits a k (map_of (stateMap l))"
  shows "\<exists>x. apply_items ledger_raw xs l = Inl x"
  using assms
proof (induction xs arbitrary: l)
  case (Cons p xs)
  obtain k1 a1 e1 where p: "p = (k1, (a1, e1))" by (metis prod.collapse)
  have key: "sle_key e1 = k1" using Cons.prems(3) p by auto
  have step: "apply_items ledger_raw (p # xs) l = rbind (apply_item a1 e1 l) (apply_items ledger_raw xs)"
    by (simp add: p apply_item_def)
  show ?case
  proof (cases "apply_item a1 e1 l")
    case (Inl x)
    then show ?thesis using step by simp
  next
    case (Inr l1)
    have ne: "k \<noteq> k1"
    proof
      assume "k = k1"
      with Cons.prems(4,5) p key apply_item_misfit [of a1 e1 l] Inr show False by auto
    qed
    have l1: "ledger_ok l1" "map_of (stateMap l1) k = map_of (stateMap l) k"
      using apply_item_other [OF Inr Cons.prems(1), of k] ne key by auto
    then have "\<not> item_fits a k (map_of (stateMap l1))"
      using Cons.prems(5) by (auto simp: item_fits_def domIff)
    moreover have "map_of xs k = Some (a, e)" using Cons.prems(4) ne p by simp
    ultimately show ?thesis using Cons.IH [OF l1(1)] Cons.prems(2,3) step Inr by simp
  qed
qed simp

lemma raw_apply_misfit:
  assumes "ledger_ok l" "raw_ok t (map_of (stateMap l))"
    "\<not> item_fits a (sle_key e) (map_of (stateMap l))"
  shows "\<exists>x. raw_apply ledger_raw (t\<lparr>rt_items := smap_put (sle_key e) (a, e) (rt_items t)\<rparr>) l = Inl x"
proof -
  let ?xs = "smap_put (sle_key e) (a, e) (rt_items t)"
  let ?l = "rawDestroyM ledger_raw (rt_dropsDestroyed t) l"
  have i: "items_ok (rt_items t) (map_of (stateMap l))" using assms(2) by (simp add: raw_ok_def)
  have ok: "smap_ok ?xs" using items_ok_smap [OF i] by (rule smap_ok_put)
  have m: "map_of ?xs = (map_of (rt_items t))(sle_key e \<mapsto> (a, e))"
    using items_ok_smap [OF i] by (rule map_of_smap_put)
  have "\<forall>(k, a, e) \<in> set ?xs. sle_key e = k"
    using items_okD [OF i] by (auto simp: smap_mem [OF ok] m split: if_splits)
  moreover have "map_of ?xs (sle_key e) = Some (a, e)" by (simp add: m)
  moreover have "ledger_ok ?l" "map_of (stateMap ?l) = map_of (stateMap l)"
    using ledger.destroy [OF assms(1)] by auto
  ultimately show ?thesis
    using apply_items_misfit [of ?l ?xs "sle_key e" a e] ok assms(3) by (simp add: raw_apply_def)
qed



end
