(* ===== verification/SlesIter.thy ===== *)
theory SlesIter
  imports RawStateTable
begin

text \<open>
  \<^verbatim>\<open>RawStateTable::sles_iter_impl\<close> (\<^verbatim>\<open>ledger/impl/RawStateTable.cpp\<close>): the forward iterator
  that merges the entries of the base view with the items of a table. The two
  underlying iterators are the lists that remain to be visited, their end is the empty
  list; the cached pointers \<^verbatim>\<open>sle0_\<close> and \<^verbatim>\<open>sle1_\<close> are kept, and reading through a null
  one is the error \<open>null_deref\<close>.
\<close>

record 'v sles_iter =
  it_sle0 :: "'v SLE option"
  it_iter0 :: "'v SLE list"
  it_sle1 :: "'v SLE option"
  it_iter1 :: "(nat, Action \<times> 'v SLE) smap"

definition inc0 :: "'v sles_iter \<Rightarrow> 'v sles_iter" where
  "inc0 it = (let r = tl (it_iter0 it) in
     it\<lparr>it_iter0 := r, it_sle0 := (case r of [] \<Rightarrow> None | s # _ \<Rightarrow> Some s)\<rparr>)"

definition inc1 :: "'v sles_iter \<Rightarrow> 'v sles_iter" where
  "inc1 it = (let r = tl (it_iter1 it) in
     it\<lparr>it_iter1 := r, it_sle1 := (case r of [] \<Rightarrow> None | (_, (_, s)) # _ \<Rightarrow> Some s)\<rparr>)"

function skip :: "'v sles_iter \<Rightarrow> 'v sles_iter result" where
  "skip it =
     (case it_iter1 it of
        [] \<Rightarrow> Inr it
      | (_, (a, _)) # _ \<Rightarrow>
          if a \<noteq> Erase then Inr it
          else case (it_sle0 it, it_sle1 it) of
                 (Some s0, Some s1) \<Rightarrow>
                   if sle_key s0 \<noteq> sle_key s1 then Inr it
                   else let it' = inc0 (inc1 it) in
                        if it_sle0 it' = None then Inr it' else skip it'
               | _ \<Rightarrow> Inl null_deref)"
  by pat_completeness auto

termination
  by (relation "measure (\<lambda>it. length (it_iter1 it))") (auto simp: inc0_def inc1_def Let_def)

declare skip.simps [simp del]

definition sles_iter_init ::
    "(nat, Action \<times> 'v SLE) smap \<Rightarrow> 'v SLE list \<Rightarrow> 'v sles_iter result" where
  "sles_iter_init iter1 iter0 =
     (let it = \<lparr>it_sle0 = (case iter0 of [] \<Rightarrow> None | s # _ \<Rightarrow> Some s), it_iter0 = iter0,
                it_sle1 = (case iter1 of [] \<Rightarrow> None | (_, (_, s)) # _ \<Rightarrow> Some s), it_iter1 = iter1\<rparr>
      in if iter1 \<noteq> [] then skip it else Inr it)"

definition iter_equal :: "'v sles_iter \<Rightarrow> 'v sles_iter \<Rightarrow> bool" where
  "iter_equal it other \<longleftrightarrow>
     length (it_iter1 it) = length (it_iter1 other) \<and> length (it_iter0 it) = length (it_iter0 other)"

definition increment :: "'v sles_iter \<Rightarrow> 'v sles_iter result" where
  "increment it =
     (case (it_sle1 it, it_sle0 it) of
        (Some _, None) \<Rightarrow> Inr (inc1 it)
      | (None, Some _) \<Rightarrow> Inr (inc0 it)
      | (Some s1, Some s0) \<Rightarrow>
          skip (if sle_key s1 = sle_key s0 then inc0 (inc1 it)
                else if sle_key s1 < sle_key s0 then inc1 it
                else inc0 it)
      | (None, None) \<Rightarrow> Inl null_deref)"

definition dereference :: "'v sles_iter \<Rightarrow> 'v SLE option" where
  "dereference it =
     (case it_sle1 it of
        None \<Rightarrow> it_sle0 it
      | Some s1 \<Rightarrow>
          (case it_sle0 it of
             None \<Rightarrow> Some s1
           | Some s0 \<Rightarrow> if sle_key s1 \<le> sle_key s0 then Some s1 else Some s0))"

text \<open>The entries of a view as its own iterator lists them, and the three iterators of the table.\<close>

definition slesBegin :: "'v RawStateTable \<Rightarrow> 'v SLE list \<Rightarrow> 'v sles_iter result" where
  "slesBegin t base = sles_iter_init (rt_items t) base"

definition slesEnd :: "'v RawStateTable \<Rightarrow> 'v SLE list \<Rightarrow> 'v sles_iter result" where
  "slesEnd t base = sles_iter_init [] []"

definition slesUpperBound :: "'v RawStateTable \<Rightarrow> 'v SLE list \<Rightarrow> nat \<Rightarrow> 'v sles_iter result" where
  "slesUpperBound t base key =
     sles_iter_init (smap_above key (rt_items t)) (dropWhile (\<lambda>s. sle_key s \<le> key) base)"

text \<open>A \<^verbatim>\<open>for\<close> loop over the range \<^verbatim>\<open>[it, fin)\<close>, collecting what it dereferences.\<close>

partial_function (option) visit_range ::
    "'v sles_iter \<Rightarrow> 'v sles_iter \<Rightarrow> ('v SLE option list) result option" where
  "visit_range fin it =
     (if iter_equal it fin then Some (Inr [])
      else case increment it of
             Inl e \<Rightarrow> Some (Inl e)
           | Inr it' \<Rightarrow>
               Option.bind (visit_range fin it')
                 (\<lambda>r. Some (rbind r (\<lambda>xs. Inr (dereference it # xs)))))"

definition visit_sles :: "'v sles_iter result \<Rightarrow> 'v sles_iter result \<Rightarrow> ('v SLE option list) result option" where
  "visit_sles b e =
     (case (b, e) of (Inr it, Inr fin) \<Rightarrow> visit_range fin it | (Inl x, _) \<Rightarrow> Some (Inl x)
      | (_, Inl x) \<Rightarrow> Some (Inl x))"

subsection \<open>What an iterator has left to visit\<close>

definition by_key :: "'v SLE list \<Rightarrow> (nat, 'v SLE) smap" where
  "by_key ss = map (\<lambda>s. (sle_key s, s)) ss"

text \<open>
  An iterator whose cached pointers are those of the lists \<open>B\<close> and \<open>I\<close>; the condition
  that the items fit the base entries; the state left to visit; and that the next item
  is not an erasure of the next base entry.
\<close>

definition iter_at :: "'v SLE list \<Rightarrow> (nat, Action \<times> 'v SLE) smap \<Rightarrow> 'v sles_iter" where
  "iter_at B I = \<lparr>it_sle0 = (case B of [] \<Rightarrow> None | s # _ \<Rightarrow> Some s), it_iter0 = B,
             it_sle1 = (case I of [] \<Rightarrow> None | (_, (_, s)) # _ \<Rightarrow> Some s), it_iter1 = I\<rparr>"

definition fits :: "'v SLE list \<Rightarrow> (nat, Action \<times> 'v SLE) smap \<Rightarrow> bool" where
  "fits B I \<longleftrightarrow> smap_ok (by_key B) \<and> items_ok I (map_of (by_key B))"

definition left_over :: "'v SLE list \<Rightarrow> (nat, Action \<times> 'v SLE) smap \<Rightarrow> (nat \<rightharpoonup> 'v SLE)" where
  "left_over B I = shown I (map_of (by_key B))"

fun skipped :: "'v SLE list \<Rightarrow> (nat, Action \<times> 'v SLE) smap \<Rightarrow> bool" where
  "skipped (s # _) ((k, (Erase, _)) # _) = (sle_key s \<noteq> k)"
| "skipped _ _ = True"

lemma by_key_simps [simp]:
  "by_key [] = []" "by_key (s # ss) = (sle_key s, s) # by_key ss"
  by (simp_all add: by_key_def)

lemma keyed_by_key: "keyed (map_of (by_key ss))"
  by (auto simp: keyed_def by_key_def dest!: map_of_SomeD)

lemma items_ok_Cons:
  assumes "items_ok ((k, (a, e)) # xs) m"
  shows "sle_key e = k" "a = Insert \<longleftrightarrow> k \<notin> dom m" "\<forall>p \<in> set xs. k < fst p"
    "map_of xs k = None" "items_ok xs m"
proof -
  show "sle_key e = k" "a = Insert \<longleftrightarrow> k \<notin> dom m"
    using items_okD [OF assms, of k a e] by simp_all
  show above: "\<forall>p \<in> set xs. k < fst p" using items_ok_smap [OF assms] by simp
  then show none: "map_of xs k = None" by (rule map_of_above)
  show "items_ok xs m"
    unfolding items_ok_def
  proof (intro conjI allI impI)
    fix k' a' e' assume x: "map_of xs k' = Some (a', e')"
    with none have "k' \<noteq> k" by auto
    with items_okD [OF assms, of k' a' e'] x
    show "sle_key e' = k'" "a' = Insert \<longleftrightarrow> k' \<notin> dom m" by simp_all
  next
    show "smap_ok xs" using items_ok_smap [OF assms] by simp
  qed
qed

lemma items_ok_drop_base:
  assumes "items_ok xs (map_of (by_key (s # ss)))" "\<forall>p \<in> set xs. fst p \<noteq> sle_key s"
  shows "items_ok xs (map_of (by_key ss))"
  unfolding items_ok_def
proof (intro conjI allI impI)
  fix k a e assume x: "map_of xs k = Some (a, e)"
  with assms(2) have "k \<noteq> sle_key s" by (auto dest!: map_of_SomeD)
  with items_okD [OF assms(1) x] show "sle_key e = k" "a = Insert \<longleftrightarrow> k \<notin> dom (map_of (by_key ss))"
    by (simp_all add: domIff)
qed (rule items_ok_smap [OF assms(1)])

text \<open>Advancing past the least key.\<close>

lemma shown_advance_item:
  assumes "items_ok ((k, (a, e)) # xs) m"
  shows "shown xs m = (shown ((k, (a, e)) # xs) m)(k := m k)"
  using items_ok_Cons(4) [OF assms] by (auto simp: shown_def fun_eq_iff)

lemma shown_advance_base:
  assumes "smap_ok (by_key (s # ss))" "map_of xs (sle_key s) = None"
  shows "shown xs (map_of (by_key ss)) = (shown xs (map_of (by_key (s # ss))))(sle_key s := None)"
  using assms map_of_above [of "by_key ss" "sle_key s"]
  by (auto simp: shown_def fun_eq_iff split: option.splits)

lemma iter_at_simps [simp]:
  "it_iter0 (iter_at B I) = B" "it_iter1 (iter_at B I) = I"
  "it_sle0 (iter_at [] I) = None" "it_sle0 (iter_at (s # B) I) = Some s"
  "it_sle1 (iter_at B []) = None" "it_sle1 (iter_at B ((k, (a, e)) # I)) = Some e"
  "inc0 (iter_at (s # B) I) = iter_at B I" "inc1 (iter_at B ((k, (a, e)) # I)) = iter_at B I"
  by (simp_all add: iter_at_def inc0_def inc1_def)

lemma fits_items: "fits B I \<Longrightarrow> items_ok I (map_of (by_key B))"
  by (simp add: fits_def)

lemma fits_item: "fits B ((k, (a, e)) # I) \<Longrightarrow> fits B I"
  unfolding fits_def by (blast dest: items_ok_Cons(5))

lemma fits_base: "fits (s # B) I \<Longrightarrow> \<forall>p \<in> set I. fst p \<noteq> sle_key s \<Longrightarrow> fits B I"
  using items_ok_drop_base [of I s B] by (simp add: fits_def)

lemma fits_erase:
  assumes "fits B ((k, (Erase, e)) # I)"
  shows "B \<noteq> []" "sle_key e = k"
  using items_ok_Cons(1,2) [of k Erase e I "map_of (by_key B)"] assms by (auto simp: fits_def)

lemma fits_both:
  assumes "fits (s # B) ((k, (a, e)) # I)" "sle_key s = k"
  shows "fits B I"
proof (rule fits_base [OF fits_item [OF assms(1)]])
  show "\<forall>p \<in> set I. fst p \<noteq> sle_key s"
    using items_ok_Cons(3) [OF fits_items [OF assms(1)]] assms(2) by auto
qed

lemma left_over_both:
  assumes "fits (s # B) ((k, (a, e)) # I)" "sle_key s = k"
  shows "left_over B I = (left_over (s # B) ((k, (a, e)) # I))(k := None)"
proof -
  let ?m = "map_of (by_key (s # B))"
  have i: "items_ok ((k, (a, e)) # I) ?m" and b: "smap_ok (by_key (s # B))"
    using assms(1) by (simp_all add: fits_def)
  have "left_over B I = (shown I ?m)(k := None)"
    using shown_advance_base [OF b, of I] items_ok_Cons(4) [OF i] assms(2) by (simp add: left_over_def)
  then show ?thesis using shown_advance_item [OF i] by (simp add: left_over_def)
qed

lemma skip_at:
  assumes "fits B I"
  shows "\<exists>B' I'. skip (iter_at B I) = Inr (iter_at B' I') \<and> fits B' I' \<and> skipped B' I' \<and>
    left_over B' I' = left_over B I \<and> length B' + length I' \<le> length B + length I \<and>
    set B' \<subseteq> set B \<and> set I' \<subseteq> set I"
  using assms
proof (induction I arbitrary: B)
  case Nil
  then show ?case
    by (intro exI [of _ B] exI [of _ "[]"]) (simp add: skip.simps)
next
  case (Cons p I)
  obtain k a e where p: "p = (k, (a, e))" by (metis prod.collapse)
  show ?case
  proof (cases "a = Erase")
    case False
    then have "skipped B (p # I)" by (cases B; cases a) (simp_all add: p)
    with Cons.prems False show ?thesis
      by (intro exI [of _ B] exI [of _ "p # I"]) (simp add: p skip.simps)
  next
    case True
    from fits_erase Cons.prems p True obtain s B1 where B: "B = s # B1" and e: "sle_key e = k"
      by (metis list.exhaust)
    show ?thesis
    proof (cases "sle_key s = k")
      case False
      with Cons.prems True e show ?thesis
        by (intro exI [of _ B] exI [of _ "p # I"]) (simp add: p B skip.simps)
    next
      case eq: True
      have f: "fits B1 I" using fits_both Cons.prems p B eq by blast
      have "left_over B (p # I) k = None" by (simp add: left_over_def shown_def p True)
      then have l: "left_over B1 I = left_over B (p # I)"
        using left_over_both [of s B1 k a e I] Cons.prems p B eq by (simp add: fun_upd_idem)
      show ?thesis
      proof (cases B1)
        case Nil
        then have "skip (iter_at B (p # I)) = Inr (iter_at B1 I)"
          using p B True e eq by (simp add: skip.simps [of "iter_at _ _"])
        with f l Nil show ?thesis by (intro exI [of _ B1] exI [of _ I]) (auto simp: B)
      next
        case (Cons s2 B2)
        then have "skip (iter_at B (p # I)) = skip (iter_at B1 I)"
          using p B True e eq by (subst skip.simps) simp
        with Cons.IH [OF f] l show ?thesis by (fastforce simp: B)
      qed
    qed
  qed
qed

text \<open>
  One step of the iterator: the entry it shows is the least one left, and afterwards
  everything else is left.
\<close>

definition advances ::
    "'v SLE list \<Rightarrow> (nat, Action \<times> 'v SLE) smap \<Rightarrow> 'v SLE \<Rightarrow> 'v SLE list \<Rightarrow>
       (nat, Action \<times> 'v SLE) smap \<Rightarrow> bool" where
  "advances B I s B' I' \<longleftrightarrow>
     fits B' I' \<and> left_over B I (sle_key s) = Some s \<and>
     left_over B' I' = (left_over B I)(sle_key s := None) \<and>
     (\<forall>x \<in> set B'. sle_key s < sle_key x) \<and> (\<forall>p \<in> set I'. sle_key s < fst p) \<and>
     length B' + length I' < length B + length I"

lemma advances_skip:
  assumes "advances B I s B1 I1"
  shows "\<exists>B' I'. skip (iter_at B1 I1) = Inr (iter_at B' I') \<and> skipped B' I' \<and> advances B I s B' I'"
proof -
  have "fits B1 I1" using assms by (simp add: advances_def)
  from skip_at [OF this] obtain B' I' where
    "skip (iter_at B1 I1) = Inr (iter_at B' I')" "skipped B' I'" "fits B' I'"
    "left_over B' I' = left_over B1 I1" "length B' + length I' \<le> length B1 + length I1"
    "set B' \<subseteq> set B1" "set I' \<subseteq> set I1" by blast
  moreover from this assms have "advances B I s B' I'" by (auto simp: advances_def)
  ultimately show ?thesis by blast
qed

lemma base_above: "fits (s # B) I \<Longrightarrow> \<forall>x \<in> set B. sle_key s < sle_key x"
  by (auto simp: fits_def by_key_def)

lemma advances_base:
  assumes f: "fits (s # B) I" and k: "\<forall>p \<in> set I. sle_key s < fst p"
  shows "advances (s # B) I s B I"
proof -
  have n: "map_of I (sle_key s) = None" using k by (rule map_of_above)
  have "fits B I" using k by (intro fits_base [OF f]) auto
  moreover have "left_over B I = (left_over (s # B) I)(sle_key s := None)"
    using shown_advance_base [of s B I] f n by (simp add: fits_def left_over_def)
  moreover have "left_over (s # B) I (sle_key s) = Some s" using n by (simp add: left_over_def shown_def)
  ultimately show ?thesis using base_above [OF f] k by (simp add: advances_def)
qed

lemma advances_item:
  assumes f: "fits B ((k, (a, e)) # I)" and k: "\<forall>x \<in> set B. k < sle_key x"
  shows "advances B ((k, (a, e)) # I) e B I"
proof -
  note i = items_ok_Cons [OF fits_items [OF f]]
  have n: "map_of (by_key B) k = None" using k by (intro map_of_above) (auto simp: by_key_def)
  then have "a = Insert" using i(2) by (simp add: domIff)
  then have "left_over B ((k, (a, e)) # I) k = Some e" by (simp add: left_over_def shown_def)
  moreover have "left_over B I = (left_over B ((k, (a, e)) # I))(k := None)"
    using shown_advance_item [OF fits_items [OF f]] n by (simp add: left_over_def)
  ultimately show ?thesis using fits_item [OF f] i(1,3) k by (simp add: advances_def)
qed

lemma advances_both:
  assumes f: "fits (s # B) ((k, (a, e)) # I)" and k: "sle_key s = k" and a: "a \<noteq> Erase"
  shows "advances (s # B) ((k, (a, e)) # I) e B I"
  using fits_both [OF f k] left_over_both [OF f k] items_ok_Cons(1,3) [OF fits_items [OF f]]
    base_above [OF f] k a
  by (simp add: advances_def left_over_def shown_def)

lemma increment_at:
  assumes f: "fits B I" and s: "skipped B I" and ne: "\<not> (B = [] \<and> I = [])"
  shows "\<exists>e B' I'. dereference (iter_at B I) = Some e \<and>
    increment (iter_at B I) = Inr (iter_at B' I') \<and> skipped B' I' \<and> advances B I e B' I'"
proof (cases I)
  case Nil
  with ne obtain x B1 where B: "B = x # B1" by (cases B) auto
  have "advances B I x B1 I" using advances_base [of x B1 I] f Nil B by simp
  moreover have "dereference (iter_at B I) = Some x" "increment (iter_at B I) = Inr (iter_at B1 I)"
    "skipped B1 I" by (simp_all add: dereference_def increment_def B Nil)
  ultimately show ?thesis by blast
next
  case (Cons p I1)
  obtain k a e where p: "p = (k, (a, e))" by (metis prod.collapse)
  note I = Cons [unfolded p]
  have e: "sle_key e = k" and i: "\<forall>q \<in> set I1. k < fst q"
    using items_ok_Cons(1,3) [OF fits_items [OF f [unfolded I]]] by simp_all
  show ?thesis
  proof (cases B)
    case Nil
    have "advances B I e B I1" using advances_item [of B k a e I1] f I Nil by simp
    moreover have "dereference (iter_at B I) = Some e" "increment (iter_at B I) = Inr (iter_at B I1)"
      "skipped B I1" by (simp_all add: dereference_def increment_def I Nil)
    ultimately show ?thesis by blast
  next
    case B: (Cons x B1)
    have x: "\<forall>y \<in> set B1. sle_key x < sle_key y" using base_above f B by blast
    consider "k = sle_key x" | "k < sle_key x" | "sle_key x < k" by linarith
    then show ?thesis
    proof cases
      case 1
      with s have "a \<noteq> Erase" by (cases a) (simp_all add: B I)
      then have a: "advances B I e B1 I1"
        unfolding B I by (rule advances_both [OF f [unfolded B I] 1 [symmetric]])
      have "dereference (iter_at B I) = Some e" "increment (iter_at B I) = skip (iter_at B1 I1)"
        using 1 e by (simp_all add: dereference_def increment_def I B)
      with advances_skip [OF a] show ?thesis by (elim exE conjE) (intro exI conjI, simp_all)
    next
      case 2
      with x have "\<forall>y \<in> set B. k < sle_key y" by (auto simp: B)
      then have a: "advances B I e B I1" unfolding I by (rule advances_item [OF f [unfolded I]])
      have "dereference (iter_at B I) = Some e" "increment (iter_at B I) = skip (iter_at B I1)"
        using 2 e by (simp_all add: dereference_def increment_def I B)
      with advances_skip [OF a] show ?thesis by (elim exE conjE) (intro exI conjI, simp_all)
    next
      case 3
      with i have "\<forall>q \<in> set I. sle_key x < fst q" by (auto simp: I)
      then have a: "advances B I x B1 I" unfolding B by (rule advances_base [OF f [unfolded B]])
      have "dereference (iter_at B I) = Some x" "increment (iter_at B I) = skip (iter_at B1 I)"
        using 3 e by (simp_all add: dereference_def increment_def I B)
      with advances_skip [OF a] show ?thesis by (elim exE conjE) (intro exI conjI, simp_all)
    qed
  qed
qed

subsection \<open>The whole range\<close>

lemma dom_left_over: "dom (left_over B I) \<subseteq> fst ` set I \<union> sle_key ` set B"
proof
  fix k assume "k \<in> dom (left_over B I)"
  then show "k \<in> fst ` set I \<union> sle_key ` set B"
    by (cases "map_of I k")
      (auto simp: left_over_def shown_def by_key_def dest!: map_of_SomeD intro: rev_image_eqI)
qed

lemma dom_by_key: "dom (map_of (by_key xs)) = sle_key ` set xs"
  by (force simp: dom_map_of_conv_image_fst by_key_def)

lemma iter_equal_end: "iter_equal (iter_at B I) (iter_at [] []) \<longleftrightarrow> B = [] \<and> I = []"
  by (auto simp: iter_equal_def)

lemma visit_at:
  assumes "fits B I" "skipped B I"
  shows "\<exists>xs. visit_range (iter_at [] []) (iter_at B I) = Some (Inr (map Some xs)) \<and>
    smap_ok (by_key xs) \<and> map_of (by_key xs) = left_over B I"
  using assms
proof (induction "length B + length I" arbitrary: B I rule: less_induct)
  case less
  show ?case
  proof (cases "B = [] \<and> I = []")
    case True
    then show ?thesis
      by (subst visit_range.simps)
        (simp add: iter_equal_end left_over_def shown_def fun_eq_iff exI [of _ "[]"])
  next
    case False
    from increment_at [OF less.prems False] obtain e B' I' where
      d: "dereference (iter_at B I) = Some e" and i: "increment (iter_at B I) = Inr (iter_at B' I')"
      and sk: "skipped B' I'" and a: "advances B I e B' I'" by blast
    have f: "fits B' I'" and l: "length B' + length I' < length B + length I"
      using a by (simp_all add: advances_def)
    from less.hyps [OF l f sk] obtain xs where
      xs: "visit_range (iter_at [] []) (iter_at B' I') = Some (Inr (map Some xs))"
        "smap_ok (by_key xs)" "map_of (by_key xs) = left_over B' I'" by blast
    have v: "visit_range (iter_at [] []) (iter_at B I) = Some (Inr (map Some (e # xs)))"
      using False xs(1) d i by (subst visit_range.simps) (simp add: iter_equal_end)
    have "sle_key ` set xs \<subseteq> fst ` set I' \<union> sle_key ` set B'"
      using dom_left_over [of B' I'] by (simp flip: dom_by_key add: xs(3))
    moreover have "\<forall>k \<in> fst ` set I' \<union> sle_key ` set B'. sle_key e < k"
      using a by (auto simp: advances_def)
    ultimately have "\<forall>x \<in> set xs. sle_key e < sle_key x" by blast
    then have "smap_ok (by_key (e # xs))" using xs(2) by (auto simp: by_key_def)
    moreover have "map_of (by_key (e # xs)) = left_over B I"
      using a xs(3) by (auto simp: advances_def fun_upd_idem_iff)
    ultimately show ?thesis using v by blast
  qed
qed

lemma sles_iter_init_end: "sles_iter_init [] [] = Inr (iter_at [] [])"
  by (simp add: sles_iter_init_def iter_at_def)

lemma visit_init:
  assumes "fits B I"
  shows "\<exists>xs. visit_sles (sles_iter_init I B) (sles_iter_init [] []) = Some (Inr (map Some xs)) \<and>
    smap_ok (by_key xs) \<and> map_of (by_key xs) = left_over B I"
proof -
  have "sles_iter_init I B = (if I \<noteq> [] then skip (iter_at B I) else Inr (iter_at B I))"
    by (simp add: sles_iter_init_def iter_at_def)
  also have "\<dots> = skip (iter_at B I)" by (cases I) (simp_all add: skip.simps [of "iter_at B []"])
  finally have init: "sles_iter_init I B = skip (iter_at B I)" .
  from skip_at [OF assms] obtain B' I' where b: "skip (iter_at B I) = Inr (iter_at B' I')"
    "fits B' I'" "skipped B' I'" "left_over B' I' = left_over B I" by blast
  from visit_at [OF b(2,3)] b(1,4) init show ?thesis
    by (simp add: visit_sles_def sles_iter_init_end)
qed

lemma fits_begin: "smap_ok (by_key base) \<Longrightarrow> raw_ok t (map_of (by_key base)) \<Longrightarrow> fits base (rt_items t)"
  by (simp add: fits_def raw_ok_def)

lemma fits_above:
  assumes "fits B I"
  shows "fits (dropWhile (\<lambda>s. sle_key s \<le> key) B) (smap_above key I)"
    and "left_over (dropWhile (\<lambda>s. sle_key s \<le> key) B) (smap_above key I) = left_over B I |` {k. key < k}"
proof -
  have B: "by_key (dropWhile (\<lambda>s. sle_key s \<le> key) B) = smap_above key (by_key B)"
    by (simp add: by_key_def smap_above_def dropWhile_map comp_def)
  have b: "smap_ok (by_key B)" and i: "items_ok I (map_of (by_key B))" using assms by (simp_all add: fits_def)
  note m = map_of_smap_above [OF b, of key] map_of_smap_above [OF items_ok_smap [OF i], of key]
  have "items_ok (smap_above key I) (map_of (by_key B) |` {k. key < k})"
    unfolding items_ok_def m(2)
    using items_okD [OF i] smap_ok_above [OF items_ok_smap [OF i]]
    by (auto simp: restrict_map_def split: if_splits)
  then show "fits (dropWhile (\<lambda>s. sle_key s \<le> key) B) (smap_above key I)"
    using smap_ok_above [OF b] by (simp add: fits_def B m)
  show "left_over (dropWhile (\<lambda>s. sle_key s \<le> key) B) (smap_above key I) = left_over B I |` {k. key < k}"
    by (auto simp: left_over_def B m shown_def restrict_map_def fun_eq_iff split: option.splits)
qed

text \<open>
  C11. Iterating over the entries seen through a table, from the beginning or from the first
  key above a given one, always ends, never reads through a null pointer, and visits
  exactly the entries of the state the table shows, each once and in increasing order
  of keys.
\<close>
theorem sles_iteration_complete:
  assumes "smap_ok (by_key base)" "raw_ok t (map_of (by_key base))"
  shows "(\<exists>xs. visit_sles (slesBegin t base) (slesEnd t base) = Some (Inr (map Some xs)) \<and>
            smap_ok (by_key xs) \<and> map_of (by_key xs) = raw_abs t (map_of (by_key base))) \<and>
         (\<exists>xs. visit_sles (slesUpperBound t base key) (slesEnd t base) = Some (Inr (map Some xs)) \<and>
            smap_ok (by_key xs) \<and> map_of (by_key xs) = raw_abs t (map_of (by_key base)) |` {k. key < k})"
proof -
  have f: "fits base (rt_items t)" using assms by (rule fits_begin)
  have l: "left_over base (rt_items t) = raw_abs t (map_of (by_key base))"
    by (simp add: left_over_def raw_abs_def)
  show ?thesis
    using visit_init [OF f] visit_init [OF fits_above(1) [OF f, of key]]
    by (simp add: slesBegin_def slesEnd_def slesUpperBound_def fits_above(2) [OF f] l)
qed

theorem sles_iteration_complete_witness:
  "\<exists>xs. visit_sles
     (slesBegin \<lparr>rt_items = [(3, (Erase, \<lparr>sle_key = 3, sle_type = 97, sle_obj = ()\<rparr>)),
                             (5, (Insert, \<lparr>sle_key = 5, sle_type = 97, sle_obj = ()\<rparr>))],
                  rt_dropsDestroyed = 0\<rparr>
        [\<lparr>sle_key = 3, sle_type = 97, sle_obj = ()\<rparr>, \<lparr>sle_key = 9, sle_type = 97, sle_obj = ()\<rparr>])
     (slesEnd \<lparr>rt_items = [], rt_dropsDestroyed = 0\<rparr> []) = Some (Inr (map Some xs)) \<and>
   sle_key ` set xs = {5, 9}"
proof -
  let ?e = "\<lambda>k. \<lparr>sle_key = k, sle_type = 97, sle_obj = ()\<rparr>"
  let ?t = "\<lparr>rt_items = [(3, (Erase, ?e 3)), (5, (Insert, ?e 5))], rt_dropsDestroyed = 0\<rparr>"
  let ?b = "[?e 3, ?e 9]"
  have b: "smap_ok (by_key ?b)" and t: "raw_ok ?t (map_of (by_key ?b))"
    by (simp_all add: raw_ok_def items_ok_def)
  have r: "dom (raw_abs ?t (map_of (by_key ?b))) = {5, 9}"
    by (auto simp: raw_abs_def shown_def split: if_splits)
  from sles_iteration_complete [OF b t, THEN conjunct1] obtain xs where
    xs: "visit_sles (slesBegin ?t ?b) (slesEnd ?t ?b) = Some (Inr (map Some xs))"
      "map_of (by_key xs) = raw_abs ?t (map_of (by_key ?b))" by blast
  have "sle_key ` set xs = {5, 9}" using dom_by_key [of xs] r xs(2) by simp
  with xs(1) show ?thesis by (simp add: slesEnd_def)
qed

end
