(* ===== verification/ApplyStateTable.thy ===== *)
theory ApplyStateTable
  imports RawStateTable
begin

text \<open>
  \<^verbatim>\<open>ledger/detail/ApplyStateTable.h\<close>, \<^verbatim>\<open>ledger/impl/ApplyStateTable.cpp\<close>: the buffer a
  transactor works on. Its items hold shared pointers, which the transactor receives
  from \<^verbatim>\<open>peek\<close>, modifies in place and hands back to \<^verbatim>\<open>update\<close> or \<^verbatim>\<open>erase\<close>; so pointers
  are explicit here (addresses of a \<open>Heap\<close>), and pointer comparison is that of the
  source. \<open>ast_abs\<close> is the state seen through the table, \<open>ast_ok\<close> its invariant;
  \<open>session_commits\<close> composes a sequence of transactor operations with the final \<^verbatim>\<open>apply\<close>.
\<close>

record 'v Heap =
  h_at :: "nat \<Rightarrow> 'v SLE"
  h_next :: nat

definition make_shared :: "'v SLE \<Rightarrow> 'v Heap \<Rightarrow> nat \<times> 'v Heap" where
  "make_shared sle h =
     (h_next h, \<lparr>h_at = (h_at h)(h_next h := sle), h_next = h_next h + 1\<rparr>)"

text \<open>Writing through a pointer, as a transactor does between \<^verbatim>\<open>peek\<close> and \<^verbatim>\<open>update\<close>.\<close>

definition h_write :: "nat \<Rightarrow> 'v SLE \<Rightarrow> 'v Heap \<Rightarrow> 'v Heap" where
  "h_write p sle h = h\<lparr>h_at := (h_at h)(p := sle)\<rparr>"

datatype AAction = a_cache | a_erase | a_insert | a_modify

record ApplyStateTable =
  at_items :: "(nat, AAction \<times> nat) smap"
  at_dropsDestroyed :: int

definition ast_put :: "nat \<Rightarrow> AAction \<Rightarrow> nat \<Rightarrow> ApplyStateTable \<Rightarrow> ApplyStateTable" where
  "ast_put k a p t = t\<lparr>at_items := smap_put k (a, p) (at_items t)\<rparr>"

fun ast_apply_items ::
    "('v, 's) RawView \<Rightarrow> 'v Heap \<Rightarrow> (nat, AAction \<times> nat) smap \<Rightarrow> 's \<Rightarrow> 's result" where
  "ast_apply_items raw h [] s = Inr s"
| "ast_apply_items raw h ((k, (a, p)) # xs) s =
     rbind (case a of a_cache \<Rightarrow> Inr s
                    | a_erase \<Rightarrow> rawErase raw (h_at h p) s
                    | a_insert \<Rightarrow> rawInsert raw (h_at h p) s
                    | a_modify \<Rightarrow> rawReplace raw (h_at h p) s)
       (ast_apply_items raw h xs)"

definition ast_apply ::
    "('v, 's) RawView \<Rightarrow> 'v Heap \<Rightarrow> ApplyStateTable \<Rightarrow> 's \<Rightarrow> 's result" where
  "ast_apply raw h t s =
     ast_apply_items raw h (at_items t) (rawDestroyM raw (at_dropsDestroyed t) s)"

fun ast_size_items :: "(nat, AAction \<times> nat) smap \<Rightarrow> nat \<Rightarrow> nat" where
  "ast_size_items [] ret = ret"
| "ast_size_items ((k, (a, p)) # xs) ret =
     ast_size_items xs (case a of a_erase \<Rightarrow> ret + 1 | a_insert \<Rightarrow> ret + 1 | a_modify \<Rightarrow> ret + 1
                         | a_cache \<Rightarrow> ret)"

definition ast_size :: "ApplyStateTable \<Rightarrow> nat" where
  "ast_size t = ast_size_items (at_items t) 0"

text \<open>\<^verbatim>\<open>visit\<close>: the arguments of the calls of the visitor, in order.\<close>

fun ast_visit ::
    "'v ReadView \<Rightarrow> 'v Heap \<Rightarrow> (nat, AAction \<times> nat) smap \<Rightarrow>
       (nat \<times> bool \<times> 'v SLE option \<times> 'v SLE) list" where
  "ast_visit to h [] = []"
| "ast_visit to h ((k, (a, p)) # xs) =
     (case a of
        a_erase \<Rightarrow> [(k, True, v_read to (keylet_unchecked k), h_at h p)]
      | a_insert \<Rightarrow> [(k, False, None, h_at h p)]
      | a_modify \<Rightarrow> [(k, False, v_read to (keylet_unchecked k), h_at h p)]
      | a_cache \<Rightarrow> []) @ ast_visit to h xs"

definition ast_exists :: "ApplyStateTable \<Rightarrow> 'v Heap \<Rightarrow> 'v ReadView \<Rightarrow> Keylet \<Rightarrow> bool" where
  "ast_exists t h base k =
     (case map_of (at_items t) (kl_key k) of
        None \<Rightarrow> v_exists base k
      | Some (a, p) \<Rightarrow> if a = a_erase then False else check k (h_at h p))"

definition ast_succ ::
    "ApplyStateTable \<Rightarrow> 'v ReadView \<Rightarrow> nat \<Rightarrow> nat option \<Rightarrow> nat option option" where
  "ast_succ t base key lst = table_succ (\<lambda>(a, _). a = a_erase) (at_items t) base key lst"

definition ast_read :: "ApplyStateTable \<Rightarrow> 'v Heap \<Rightarrow> 'v ReadView \<Rightarrow> Keylet \<Rightarrow> 'v SLE option" where
  "ast_read t h base k =
     (case map_of (at_items t) (kl_key k) of
        None \<Rightarrow> v_read base k
      | Some (a, p) \<Rightarrow>
          if a = a_erase then None else if check k (h_at h p) then Some (h_at h p) else None)"

definition ast_peek ::
    "'v ReadView \<Rightarrow> Keylet \<Rightarrow> ApplyStateTable \<times> 'v Heap \<Rightarrow> nat option \<times> (ApplyStateTable \<times> 'v Heap)" where
  "ast_peek base k = (\<lambda>(t, h).
     (case map_of (at_items t) (kl_key k) of
        None \<Rightarrow>
          (case v_read base k of
             None \<Rightarrow> (None, (t, h))
           | Some sle \<Rightarrow>
               (let (p, h') = make_shared sle h in
                case map_of (at_items t) (sle_key sle) of
                  Some (_, q) \<Rightarrow> (Some q, (t, h'))
                | None \<Rightarrow> (Some p, (ast_put (sle_key sle) a_cache p t, h'))))
      | Some (a, p) \<Rightarrow>
          if a = a_erase then (None, (t, h))
          else if check k (h_at h p) then (Some p, (t, h)) else (None, (t, h))))"

definition ast_erase :: "nat \<Rightarrow> 'v Heap \<Rightarrow> ApplyStateTable \<Rightarrow> ApplyStateTable result" where
  "ast_erase p h t =
     (case map_of (at_items t) (sle_key (h_at h p)) of
        None \<Rightarrow> Inl (logic_error ''ApplyStateTable::erase: missing key'')
      | Some (a, q) \<Rightarrow>
          if q \<noteq> p then Inl (logic_error ''ApplyStateTable::erase: unknown SLE'')
          else case a of
                 a_erase \<Rightarrow> Inl (logic_error ''ApplyStateTable::erase: double erase'')
               | a_insert \<Rightarrow> Inr (t\<lparr>at_items := smap_del (sle_key (h_at h p)) (at_items t)\<rparr>)
               | _ \<Rightarrow> Inr (ast_put (sle_key (h_at h p)) a_erase q t))"

definition ast_rawErase :: "nat \<Rightarrow> 'v Heap \<Rightarrow> ApplyStateTable \<Rightarrow> ApplyStateTable result" where
  "ast_rawErase p h t =
     (let k = sle_key (h_at h p) in
      case map_of (at_items t) k of
        None \<Rightarrow> Inr (ast_put k a_erase p t)
      | Some (a, q) \<Rightarrow>
          (case a of
             a_erase \<Rightarrow> Inl (logic_error ''ApplyStateTable::rawErase: double erase'')
           | a_insert \<Rightarrow> Inr (t\<lparr>at_items := smap_del k (at_items t)\<rparr>)
           | _ \<Rightarrow> Inr (ast_put k a_erase p t)))"

definition ast_insert :: "nat \<Rightarrow> 'v Heap \<Rightarrow> ApplyStateTable \<Rightarrow> ApplyStateTable result" where
  "ast_insert p h t =
     (let k = sle_key (h_at h p) in
      case map_of (at_items t) k of
        None \<Rightarrow> Inr (ast_put k a_insert p t)
      | Some (a, q) \<Rightarrow>
          (case a of
             a_cache \<Rightarrow> Inl (logic_error ''ApplyStateTable::insert: already cached'')
           | a_insert \<Rightarrow> Inl (logic_error ''ApplyStateTable::insert: already inserted'')
           | a_modify \<Rightarrow> Inl (logic_error ''ApplyStateTable::insert: already modified'')
           | a_erase \<Rightarrow> Inr (ast_put k a_modify p t)))"

definition ast_replace :: "nat \<Rightarrow> 'v Heap \<Rightarrow> ApplyStateTable \<Rightarrow> ApplyStateTable result" where
  "ast_replace p h t =
     (let k = sle_key (h_at h p) in
      case map_of (at_items t) k of
        None \<Rightarrow> Inr (ast_put k a_modify p t)
      | Some (a, q) \<Rightarrow>
          (case a of
             a_erase \<Rightarrow> Inl (logic_error ''ApplyStateTable::replace: already erased'')
           | a_cache \<Rightarrow> Inr (ast_put k a_modify p t)
           | _ \<Rightarrow> Inr (ast_put k a p t)))"

definition ast_update :: "nat \<Rightarrow> 'v Heap \<Rightarrow> ApplyStateTable \<Rightarrow> ApplyStateTable result" where
  "ast_update p h t =
     (let k = sle_key (h_at h p) in
      case map_of (at_items t) k of
        None \<Rightarrow> Inl (logic_error ''ApplyStateTable::update: missing key'')
      | Some (a, q) \<Rightarrow>
          if q \<noteq> p then Inl (logic_error ''ApplyStateTable::update: unknown SLE'')
          else case a of
                 a_erase \<Rightarrow> Inl (logic_error ''ApplyStateTable::update: erased'')
               | a_cache \<Rightarrow> Inr (ast_put k a_modify q t)
               | _ \<Rightarrow> Inr t)"

definition ast_destroyM :: "int \<Rightarrow> ApplyStateTable \<Rightarrow> ApplyStateTable" where
  "ast_destroyM fee t = t\<lparr>at_dropsDestroyed := at_dropsDestroyed t + fee\<rparr>"

definition ast_as_view :: "ApplyStateTable \<Rightarrow> 'v Heap \<Rightarrow> 'v ReadView \<Rightarrow> 'v ReadView" where
  "ast_as_view t h base =
     \<lparr>v_exists = ast_exists t h base, v_succ = ast_succ t base, v_read = ast_read t h base\<rparr>"

text \<open>
  \<^verbatim>\<open>ledger/impl/ApplyViewBase.cpp\<close>: a view over a table is itself a target of raw
  modifications. The entry handed over is one the table has not seen.
\<close>

definition avb_with ::
    "(nat \<Rightarrow> 'v Heap \<Rightarrow> ApplyStateTable \<Rightarrow> ApplyStateTable result) \<Rightarrow>
       'v SLE \<Rightarrow> ApplyStateTable \<times> 'v Heap \<Rightarrow> (ApplyStateTable \<times> 'v Heap) result" where
  "avb_with f sle = (\<lambda>(t, h). let (p, h') = make_shared sle h in rbind (f p h' t) (\<lambda>t'. Inr (t', h')))"

definition avb_raw :: "('v, ApplyStateTable \<times> 'v Heap) RawView" where
  "avb_raw =
     \<lparr>rawErase = avb_with ast_rawErase, rawInsert = avb_with ast_insert,
      rawReplace = avb_with ast_replace, rawDestroyM = (\<lambda>fee (t, h). (ast_destroyM fee t, h))\<rparr>"

subsection \<open>What the table shows, and its invariant\<close>

definition ast_abs :: "ApplyStateTable \<Rightarrow> 'v Heap \<Rightarrow> (nat \<rightharpoonup> 'v SLE) \<Rightarrow> (nat \<rightharpoonup> 'v SLE)" where
  "ast_abs t h m k =
     (case map_of (at_items t) k of
        None \<Rightarrow> m k | Some (a, p) \<Rightarrow> if a = a_erase then None else Some (h_at h p))"

text \<open>
  Well-formed: items point to entries with their key, and are insertions exactly if the
  base has no such entry. Clean: entries that are only cached are as in the base.
\<close>

definition ast_wf :: "ApplyStateTable \<Rightarrow> 'v Heap \<Rightarrow> (nat \<rightharpoonup> 'v SLE) \<Rightarrow> bool" where
  "ast_wf t h m \<longleftrightarrow> smap_ok (at_items t) \<and>
     (\<forall>k a p. map_of (at_items t) k = Some (a, p) \<longrightarrow>
        sle_key (h_at h p) = k \<and> p < h_next h \<and> (a = a_insert \<longleftrightarrow> k \<notin> dom m))"

definition ast_clean :: "ApplyStateTable \<Rightarrow> 'v Heap \<Rightarrow> (nat \<rightharpoonup> 'v SLE) \<Rightarrow> bool" where
  "ast_clean t h m \<longleftrightarrow> (\<forall>k p. map_of (at_items t) k = Some (a_cache, p) \<longrightarrow> m k = Some (h_at h p))"

definition ast_ok :: "ApplyStateTable \<Rightarrow> 'v Heap \<Rightarrow> (nat \<rightharpoonup> 'v SLE) \<Rightarrow> bool" where
  "ast_ok t h m \<longleftrightarrow> ast_wf t h m \<and> ast_clean t h m"

lemma ast_wfD:
  assumes "ast_wf t h m" "map_of (at_items t) k = Some (a, p)"
  shows "sle_key (h_at h p) = k" "p < h_next h" "a = a_insert \<longleftrightarrow> k \<notin> dom m"
  using assms unfolding ast_wf_def by blast+

lemma ast_wf_smap: "ast_wf t h m \<Longrightarrow> smap_ok (at_items t)"
  by (simp add: ast_wf_def)

lemma ast_cleanD: "ast_clean t h m \<Longrightarrow> map_of (at_items t) k = Some (a_cache, p) \<Longrightarrow> m k = Some (h_at h p)"
  by (simp add: ast_clean_def)

lemma ast_okD: "ast_ok t h m \<Longrightarrow> ast_wf t h m" "ast_ok t h m \<Longrightarrow> ast_clean t h m"
  by (simp_all add: ast_ok_def)

lemma items_put [simp]: "at_items (ast_put k a p t) = smap_put k (a, p) (at_items t)"
  "at_dropsDestroyed (ast_put k a p t) = at_dropsDestroyed t"
  by (simp_all add: ast_put_def)

lemma ast_ok_put:
  assumes "ast_ok t h m" "sle_key (h_at h p) = k" "p < h_next h" "a = a_insert \<longleftrightarrow> k \<notin> dom m"
    "a = a_cache \<Longrightarrow> m k = Some (h_at h p)"
  shows "ast_ok (ast_put k a p t) h m"
proof -
  note wf = ast_okD(1) [OF assms(1)]
  have m: "map_of (smap_put k (a, p) (at_items t)) = (map_of (at_items t))(k \<mapsto> (a, p))"
    by (rule map_of_smap_put [OF ast_wf_smap [OF wf]])
  have "ast_wf (ast_put k a p t) h m"
    unfolding ast_wf_def items_put m
    using ast_wfD [OF wf] smap_ok_put [OF ast_wf_smap [OF wf]] assms(2-4) by (auto split: if_splits)
  moreover have "ast_clean (ast_put k a p t) h m"
    unfolding ast_clean_def items_put m
    using ast_cleanD [OF ast_okD(2) [OF assms(1)]] assms(5) by (auto split: if_splits)
  ultimately show ?thesis by (simp add: ast_ok_def)
qed

lemma ast_abs_put:
  "smap_ok (at_items t) \<Longrightarrow>
     ast_abs (ast_put k a p t) h m = (ast_abs t h m)(k := if a = a_erase then None else Some (h_at h p))"
  by (auto simp: ast_abs_def map_of_smap_put fun_eq_iff)

lemma ast_ok_del: "ast_ok t h m \<Longrightarrow> ast_ok (t\<lparr>at_items := smap_del k (at_items t)\<rparr>) h m"
  by (auto simp: ast_ok_def ast_wf_def ast_clean_def smap_ok_del map_of_smap_del)

lemma ast_abs_del: "ast_abs (t\<lparr>at_items := smap_del k (at_items t)\<rparr>) h m = (ast_abs t h m)(k := m k)"
  by (auto simp: ast_abs_def map_of_smap_del fun_eq_iff)

text \<open>Allocation does not disturb a table.\<close>

lemma make_shared_fresh:
  assumes "make_shared sle h = (p, h')"
  shows "h_at h' p = sle" "p < h_next h'" "p = h_next h"
    and "ast_ok t h m \<Longrightarrow> ast_ok t h' m" and "ast_ok t h m \<Longrightarrow> ast_abs t h' m = ast_abs t h m"
proof -
  have p: "p = h_next h" and h': "h' = \<lparr>h_at = (h_at h)(h_next h := sle), h_next = h_next h + 1\<rparr>"
    using assms by (auto simp: make_shared_def)
  show "h_at h' p = sle" "p < h_next h'" "p = h_next h" by (simp_all add: p h')
  assume ok: "ast_ok t h m"
  note wf = ast_wfD [OF ast_okD(1) [OF ok]]
  have old: "h_at h' q = h_at h q \<and> q < h_next h'" if "map_of (at_items t) k = Some (a, q)" for k a q
    using wf(2) [OF that] by (simp add: h')
  have "ast_wf t h' m" unfolding ast_wf_def
    using wf(1,3) old ast_wf_smap [OF ast_okD(1) [OF ok]] by simp
  moreover have "ast_clean t h' m"
    unfolding ast_clean_def using old ast_cleanD [OF ast_okD(2) [OF ok]] by simp
  ultimately show "ast_ok t h' m" by (simp add: ast_ok_def)
  show "ast_abs t h' m = ast_abs t h m"
    using old by (auto simp: ast_abs_def fun_eq_iff split: option.splits)
qed

subsection \<open>The operations\<close>

text \<open>The action of the item at a key, when the state shown has or lacks that key.\<close>

lemma item_present:
  assumes "ast_ok t h m" "k \<in> dom (ast_abs t h m)"
  obtains "map_of (at_items t) k = None" "k \<in> dom m"
  | a p where "map_of (at_items t) k = Some (a, p)" "a \<noteq> a_erase" "a = a_insert \<longleftrightarrow> k \<notin> dom m"
proof (cases "map_of (at_items t) k")
  case None
  with assms(2) show ?thesis by (intro that(1)) (auto simp: ast_abs_def)
next
  case (Some x)
  obtain a p where x: "x = (a, p)" by fastforce
  show ?thesis
  proof (rule that(2))
    show "map_of (at_items t) k = Some (a, p)" using Some x by simp
    then show "a = a_insert \<longleftrightarrow> k \<notin> dom m" by (rule ast_wfD(3) [OF ast_okD(1) [OF assms(1)]])
    show "a \<noteq> a_erase" using assms(2) Some x by (auto simp: ast_abs_def split: if_splits)
  qed
qed

lemma item_absent:
  assumes "ast_ok t h m" "k \<notin> dom (ast_abs t h m)"
  obtains "map_of (at_items t) k = None" "k \<notin> dom m"
  | p where "map_of (at_items t) k = Some (a_erase, p)" "k \<in> dom m"
proof (cases "map_of (at_items t) k")
  case None
  with assms(2) show ?thesis by (intro that(1)) (auto simp: ast_abs_def domIff)
next
  case (Some x)
  obtain a p where x: "x = (a, p)" by fastforce
  have a: "a = a_erase" using assms(2) Some x by (auto simp: ast_abs_def split: if_splits)
  show ?thesis
  proof (rule that(2))
    show e: "map_of (at_items t) k = Some (a_erase, p)" using Some x a by simp
    show "k \<in> dom m" using ast_wfD(3) [OF ast_okD(1) [OF assms(1)] e] by simp
  qed
qed

text \<open>The result of an operation that maps the shown state by \<open>f\<close>.\<close>

definition ast_does ::
    "ApplyStateTable result \<Rightarrow> 'v Heap \<Rightarrow> (nat \<rightharpoonup> 'v SLE) \<Rightarrow> ApplyStateTable \<Rightarrow> (nat \<rightharpoonup> 'v SLE) \<Rightarrow> bool" where
  "ast_does r h m t m' \<longleftrightarrow>
     (\<exists>t'. r = Inr t' \<and> ast_ok t' h m \<and> at_dropsDestroyed t' = at_dropsDestroyed t \<and> ast_abs t' h m = m')"

lemma ast_does_put:
  assumes "ast_ok t h m" "sle_key (h_at h p) = k" "p < h_next h" "a = a_insert \<longleftrightarrow> k \<notin> dom m"
    "a \<noteq> a_cache"
  shows "ast_does (Inr (ast_put k a p t)) h m t
    ((ast_abs t h m)(k := if a = a_erase then None else Some (h_at h p)))"
  using ast_ok_put [OF assms(1-4)] assms(5) ast_abs_put [OF ast_wf_smap [OF ast_okD(1) [OF assms(1)]], of k a p h m]
  by (simp add: ast_does_def)

lemma ast_does_del:
  assumes "ast_ok t h m" "k \<notin> dom m"
  shows "ast_does (Inr (t\<lparr>at_items := smap_del k (at_items t)\<rparr>)) h m t ((ast_abs t h m)(k := None))"
  using ast_ok_del [OF assms(1), of k] assms(2) by (simp add: ast_does_def ast_abs_del domIff)

lemma ast_rawErase_does:
  assumes "ast_ok t h m" "p < h_next h" "sle_key (h_at h p) \<in> dom (ast_abs t h m)"
  shows "ast_does (ast_rawErase p h t) h m t ((ast_abs t h m)(sle_key (h_at h p) := None))"
proof (rule item_present [OF assms(1,3)])
  assume "map_of (at_items t) (sle_key (h_at h p)) = None" "sle_key (h_at h p) \<in> dom m"
  then show ?thesis
    using ast_does_put [OF assms(1) refl assms(2), of a_erase] by (simp add: ast_rawErase_def)
next
  fix a q
  assume "map_of (at_items t) (sle_key (h_at h p)) = Some (a, q)" "a \<noteq> a_erase"
    "a = a_insert \<longleftrightarrow> sle_key (h_at h p) \<notin> dom m"
  then show ?thesis
    using ast_does_put [OF assms(1) refl assms(2), of a_erase] ast_does_del [OF assms(1), of "sle_key (h_at h p)"]
    by (cases a) (simp_all add: ast_rawErase_def)
qed

lemma ast_insert_does:
  assumes "ast_ok t h m" "p < h_next h" "sle_key (h_at h p) \<notin> dom (ast_abs t h m)"
  shows "ast_does (ast_insert p h t) h m t ((ast_abs t h m)(sle_key (h_at h p) \<mapsto> h_at h p))"
proof (rule item_absent [OF assms(1,3)])
  assume "map_of (at_items t) (sle_key (h_at h p)) = None" "sle_key (h_at h p) \<notin> dom m"
  then show ?thesis
    using ast_does_put [OF assms(1) refl assms(2), of a_insert] by (simp add: ast_insert_def)
next
  fix q
  assume "map_of (at_items t) (sle_key (h_at h p)) = Some (a_erase, q)" "sle_key (h_at h p) \<in> dom m"
  then show ?thesis
    using ast_does_put [OF assms(1) refl assms(2), of a_modify] by (simp add: ast_insert_def)
qed

lemma ast_replace_does:
  assumes "ast_ok t h m" "p < h_next h" "sle_key (h_at h p) \<in> dom (ast_abs t h m)"
  shows "ast_does (ast_replace p h t) h m t ((ast_abs t h m)(sle_key (h_at h p) \<mapsto> h_at h p))"
proof (rule item_present [OF assms(1,3)])
  assume "map_of (at_items t) (sle_key (h_at h p)) = None" "sle_key (h_at h p) \<in> dom m"
  then show ?thesis
    using ast_does_put [OF assms(1) refl assms(2), of a_modify] by (simp add: ast_replace_def)
next
  fix a q
  assume "map_of (at_items t) (sle_key (h_at h p)) = Some (a, q)" "a \<noteq> a_erase"
    "a = a_insert \<longleftrightarrow> sle_key (h_at h p) \<notin> dom m"
  then show ?thesis
    using ast_does_put [OF assms(1) refl assms(2), of a_modify]
      ast_does_put [OF assms(1) refl assms(2), of a_insert]
    by (cases a) (simp_all add: ast_replace_def)
qed

lemma ast_destroyM_ok [simp]:
  "ast_ok (ast_destroyM fee t) h m = ast_ok t h m" "ast_abs (ast_destroyM fee t) h m = ast_abs t h m"
  "at_dropsDestroyed (ast_destroyM fee t) = at_dropsDestroyed t + fee"
  by (simp_all add: ast_destroyM_def ast_ok_def ast_wf_def ast_clean_def ast_abs_def fun_eq_iff)

text \<open>An operation on an entry handed over by value.\<close>

lemma avb_with_does:
  assumes ok: "ast_ok t h m"
    and does: "\<And>p h'. make_shared e h = (p, h') \<Longrightarrow> ast_does (f p h' t) h' m t m'"
  shows "\<exists>s'. avb_with f e (t, h) = Inr s' \<and> ast_ok (fst s') (snd s') m \<and>
    at_dropsDestroyed (fst s') = at_dropsDestroyed t \<and> ast_abs (fst s') (snd s') m = m'"
proof -
  obtain p h' where h': "make_shared e h = (p, h')" by fastforce
  from does [OF h'] show ?thesis by (auto simp: ast_does_def avb_with_def h')
qed

lemma avb_raw_does:
  assumes ok: "ast_ok t h m"
  shows "sle_key e \<in> dom (ast_abs t h m) \<Longrightarrow>
      \<exists>s'. rawErase avb_raw e (t, h) = Inr s' \<and> ast_ok (fst s') (snd s') m \<and>
        at_dropsDestroyed (fst s') = at_dropsDestroyed t \<and>
        ast_abs (fst s') (snd s') m = (ast_abs t h m)(sle_key e := None)"
    and "sle_key e \<notin> dom (ast_abs t h m) \<Longrightarrow>
      \<exists>s'. rawInsert avb_raw e (t, h) = Inr s' \<and> ast_ok (fst s') (snd s') m \<and>
        at_dropsDestroyed (fst s') = at_dropsDestroyed t \<and>
        ast_abs (fst s') (snd s') m = (ast_abs t h m)(sle_key e \<mapsto> e)"
    and "sle_key e \<in> dom (ast_abs t h m) \<Longrightarrow>
      \<exists>s'. rawReplace avb_raw e (t, h) = Inr s' \<and> ast_ok (fst s') (snd s') m \<and>
        at_dropsDestroyed (fst s') = at_dropsDestroyed t \<and>
        ast_abs (fst s') (snd s') m = (ast_abs t h m)(sle_key e \<mapsto> e)"
proof -
  note new = make_shared_fresh(1,2) [of e h] make_shared_fresh(4,5) [of e h _ _ t m]
  { assume d: "sle_key e \<in> dom (ast_abs t h m)"
    show "\<exists>s'. rawErase avb_raw e (t, h) = Inr s' \<and> ast_ok (fst s') (snd s') m \<and>
        at_dropsDestroyed (fst s') = at_dropsDestroyed t \<and>
        ast_abs (fst s') (snd s') m = (ast_abs t h m)(sle_key e := None)"
      unfolding avb_raw_def RawView.simps
    proof (rule avb_with_does [OF ok])
      fix p h' assume "make_shared e h = (p, h')"
      then show "ast_does (ast_rawErase p h' t) h' m t ((ast_abs t h m)(sle_key e := None))"
        using ast_rawErase_does [of t h' m p] new [of p h'] ok d by simp
    qed
    show "\<exists>s'. rawReplace avb_raw e (t, h) = Inr s' \<and> ast_ok (fst s') (snd s') m \<and>
        at_dropsDestroyed (fst s') = at_dropsDestroyed t \<and>
        ast_abs (fst s') (snd s') m = (ast_abs t h m)(sle_key e \<mapsto> e)"
      unfolding avb_raw_def RawView.simps
    proof (rule avb_with_does [OF ok])
      fix p h' assume "make_shared e h = (p, h')"
      then show "ast_does (ast_replace p h' t) h' m t ((ast_abs t h m)(sle_key e \<mapsto> e))"
        using ast_replace_does [of t h' m p] new [of p h'] ok d by simp
    qed }
  { assume d: "sle_key e \<notin> dom (ast_abs t h m)"
    show "\<exists>s'. rawInsert avb_raw e (t, h) = Inr s' \<and> ast_ok (fst s') (snd s') m \<and>
        at_dropsDestroyed (fst s') = at_dropsDestroyed t \<and>
        ast_abs (fst s') (snd s') m = (ast_abs t h m)(sle_key e \<mapsto> e)"
      unfolding avb_raw_def RawView.simps
    proof (rule avb_with_does [OF ok])
      fix p h' assume "make_shared e h = (p, h')"
      then show "ast_does (ast_insert p h' t) h' m t ((ast_abs t h m)(sle_key e \<mapsto> e))"
        using ast_insert_does [of t h' m p] new [of p h'] ok d by simp
    qed }
qed

interpretation apply_view: raw_target avb_raw "\<lambda>s. ast_ok (fst s) (snd s) m"
  "\<lambda>s. ast_abs (fst s) (snd s) m" "\<lambda>s. at_dropsDestroyed (fst s)"
proof (unfold_locales, goal_cases)
  case (1 s e)
  then show ?case using avb_raw_does(1) [of "fst s" "snd s" m e] by simp
next
  case (2 s e)
  then show ?case using avb_raw_does(2) [of "fst s" "snd s" m e] by simp
next
  case (3 s e)
  then show ?case using avb_raw_does(3) [of "fst s" "snd s" m e] by simp
next
  case (4 s fee)
  then show ?case by (cases s) (simp add: avb_raw_def)
qed

subsection \<open>Applying the table\<close>

text \<open>The raw modifications a table stands for: its items that are not only cached.\<close>

definition raw_action :: "AAction \<Rightarrow> Action" where
  "raw_action a = (case a of a_erase \<Rightarrow> Erase | a_insert \<Rightarrow> Insert | _ \<Rightarrow> Replace)"

definition as_raw :: "'v Heap \<Rightarrow> (nat, AAction \<times> nat) smap \<Rightarrow> (nat, Action \<times> 'v SLE) smap" where
  "as_raw h items =
     map (\<lambda>(k, a, p). (k, raw_action a, h_at h p)) (filter (\<lambda>(k, a, p). a \<noteq> a_cache) items)"

lemma ast_apply_items_raw: "ast_apply_items raw h items s = apply_items raw (as_raw h items) s"
proof (induction raw h items s rule: ast_apply_items.induct)
  case (2 raw h k a p xs s)
  then show ?case
    by (cases a) (auto simp: as_raw_def raw_action_def rbind_def split: sum.splits)
qed (simp add: as_raw_def)

lemma map_of_as_raw:
  assumes "smap_ok items"
  shows "map_of (as_raw h items) k =
    (case map_of items k of
       None \<Rightarrow> None | Some (a, p) \<Rightarrow> if a = a_cache then None else Some (raw_action a, h_at h p))"
  using assms
proof (induction items)
  case (Cons x xs)
  obtain k' a p where x: "x = (k', (a, p))" by (metis prod.collapse)
  have "map_of xs k' = None" using Cons.prems map_of_above [of xs k'] x by simp
  with Cons x show ?case by (auto simp: as_raw_def split: option.splits)
qed (simp add: as_raw_def)

lemma smap_ok_as_raw: "smap_ok items \<Longrightarrow> smap_ok (as_raw h items)"
  by (induction items) (auto simp: as_raw_def split: prod.splits)

lemma items_ok_as_raw:
  assumes "ast_wf t h m"
  shows "items_ok (as_raw h (at_items t)) m"
  unfolding items_ok_def map_of_as_raw [OF ast_wf_smap [OF assms]]
proof (intro conjI allI impI)
  fix k a e
  assume "(case map_of (at_items t) k of None \<Rightarrow> None
     | Some (a, p) \<Rightarrow> if a = a_cache then None else Some (raw_action a, h_at h p)) = Some (a, e)"
  then obtain b p where "map_of (at_items t) k = Some (b, p)" "a = raw_action b" "e = h_at h p" "b \<noteq> a_cache"
    by (auto split: option.splits if_splits)
  with ast_wfD(1,3) [OF assms this(1)] show "sle_key e = k" "a = Insert \<longleftrightarrow> k \<notin> dom m"
    by (cases b; simp add: raw_action_def)+
qed (rule smap_ok_as_raw [OF ast_wf_smap [OF assms]])

lemma shown_as_raw:
  assumes "ast_ok t h m"
  shows "shown (as_raw h (at_items t)) m = ast_abs t h m"
proof
  fix k
  have s: "smap_ok (at_items t)" using ast_wf_smap [OF ast_okD(1) [OF assms]] .
  show "shown (as_raw h (at_items t)) m k = ast_abs t h m k"
  proof (cases "map_of (at_items t) k")
    case None
    then show ?thesis by (simp add: shown_def ast_abs_def map_of_as_raw [OF s])
  next
    case (Some x)
    obtain a p where x: "x = (a, p)" by fastforce
    have "m k = Some (h_at h p)" if "a = a_cache"
      using ast_cleanD [OF ast_okD(2) [OF assms]] Some x that by simp
    with Some x show ?thesis
      by (cases a) (simp_all add: shown_def ast_abs_def map_of_as_raw [OF s] raw_action_def)
  qed
qed

context raw_target
begin

lemma ast_apply_shown:
  assumes "invar s" "ast_ok t h (content s)"
  shows "\<exists>s'. ast_apply raw h t s = Inr s' \<and> invar s' \<and> content s' = ast_abs t h (content s) \<and>
              drops s' = drops s + at_dropsDestroyed t"
proof -
  let ?s = "rawDestroyM raw (at_dropsDestroyed t) s"
  have d: "invar ?s" "content ?s = content s" "drops ?s = drops s + at_dropsDestroyed t"
    using destroy [OF assms(1)] by simp_all
  have "items_ok (as_raw h (at_items t)) (content ?s)"
    using items_ok_as_raw [OF ast_okD(1) [OF assms(2)]] d(2) by simp
  from apply_items_shown [OF d(1) this] show ?thesis
    using d(2,3) shown_as_raw [OF assms(2)] by (auto simp: ast_apply_def ast_apply_items_raw)
qed

end

text \<open>
  C5. Committing a stack of views: a sandbox applied to the sandbox that encloses it, that
  one to the open view over the ledger, and the open view to the ledger. No step fails,
  and the ledger ends in the state the innermost sandbox showed, with every fee of the
  three levels added to its fee pool.
\<close>
theorem sandbox_stack_commits:
  assumes l: "ledger_ok l" and r: "raw_ok r (map_of (stateMap l))"
    and u: "ast_ok u g (raw_abs r (map_of (stateMap l)))"
    and t: "ast_ok t h (ast_abs u g (raw_abs r (map_of (stateMap l))))"
  shows "\<exists>l'. rbind (ast_apply avb_raw h t (u, g)) (\<lambda>(u', g').
            rbind (ast_apply raw_raw g' u' r) (\<lambda>r'. raw_apply ledger_raw r' l)) = Inr l' \<and>
          ledger_ok l' \<and>
          map_of (stateMap l') = ast_abs t h (ast_abs u g (raw_abs r (map_of (stateMap l)))) \<and>
          info_feePool l' = info_feePool l + rt_dropsDestroyed r + at_dropsDestroyed u + at_dropsDestroyed t"
proof -
  let ?m = "map_of (stateMap l)"
  from apply_view.ast_apply_shown [of "(u, g)" "raw_abs r ?m" t h] u t obtain u' g' where
    1: "ast_apply avb_raw h t (u, g) = Inr (u', g')" "ast_ok u' g' (raw_abs r ?m)"
      "ast_abs u' g' (raw_abs r ?m) = ast_abs t h (ast_abs u g (raw_abs r ?m))"
      "at_dropsDestroyed u' = at_dropsDestroyed u + at_dropsDestroyed t" by auto
  from raw_table.ast_apply_shown [OF r 1(2)] obtain r' where
    2: "ast_apply raw_raw g' u' r = Inr r'" "raw_ok r' ?m"
      "raw_abs r' ?m = ast_abs u' g' (raw_abs r ?m)"
      "rt_dropsDestroyed r' = rt_dropsDestroyed r + at_dropsDestroyed u'" by blast
  from ledger.raw_apply_shown [OF l 2(2)] 1 2 show ?thesis by auto
qed

theorem sandbox_stack_commits_witness:
  "\<exists>l'. rbind (ast_apply avb_raw \<lparr>h_at = (\<lambda>_. \<lparr>sle_key = 7, sle_type = 97, sle_obj = ()\<rparr>), h_next = 1\<rparr>
           \<lparr>at_items = [(7, (a_insert, 0))], at_dropsDestroyed = 10\<rparr>
           (\<lparr>at_items = [], at_dropsDestroyed = 0\<rparr>, \<lparr>h_at = (\<lambda>_. \<lparr>sle_key = 7, sle_type = 97, sle_obj = ()\<rparr>), h_next = 0\<rparr>))
         (\<lambda>(u', g'). rbind (ast_apply raw_raw g' u' \<lparr>rt_items = [], rt_dropsDestroyed = 0\<rparr>)
            (\<lambda>r'. raw_apply ledger_raw r' (ledger_of [] 5))) = Inr l' \<and> info_feePool l' = 15"
proof -
  let ?e = "\<lparr>sle_key = 7, sle_type = 97, sle_obj = ()\<rparr>"
  let ?t = "\<lparr>at_items = [(7, (a_insert, 0))], at_dropsDestroyed = 10\<rparr>"
  let ?h = "\<lparr>h_at = (\<lambda>_. ?e), h_next = 1\<rparr>"
  let ?u = "\<lparr>at_items = [], at_dropsDestroyed = 0\<rparr>"
  let ?g = "\<lparr>h_at = (\<lambda>_. ?e), h_next = 0\<rparr>"
  let ?r = "\<lparr>rt_items = [], rt_dropsDestroyed = 0\<rparr> :: unit RawStateTable"
  let ?l = "ledger_of [] 5 :: unit Ledger"
  have m: "map_of (stateMap ?l) = Map.empty" "info_feePool ?l = 5" by (simp_all add: ledger_of_def)
  have r: "raw_ok ?r (map_of (stateMap ?l))" by (simp add: raw_ok_def items_ok_def)
  have rm: "raw_abs ?r (map_of (stateMap ?l)) = Map.empty" by (simp add: raw_abs_def shown_def m fun_eq_iff)
  have u: "ast_ok ?u ?g (raw_abs ?r (map_of (stateMap ?l)))"
    by (simp add: ast_ok_def ast_wf_def ast_clean_def)
  have um: "ast_abs ?u ?g (raw_abs ?r (map_of (stateMap ?l))) = Map.empty" by (simp add: ast_abs_def rm fun_eq_iff)
  have t: "ast_ok ?t ?h (ast_abs ?u ?g (raw_abs ?r (map_of (stateMap ?l))))"
    unfolding um by (simp add: ast_ok_def ast_wf_def ast_clean_def)
  from sandbox_stack_commits [OF ledger_ok_of r u t] show ?thesis by (auto simp: m)
qed

subsection \<open>The table as a view\<close>

lemma dom_ast_abs: "dom (ast_abs t h m) = visible (\<lambda>(a, _). a = a_erase) (at_items t) (dom m)"
proof (rule set_eqI)
  fix k
  show "k \<in> dom (ast_abs t h m) \<longleftrightarrow> k \<in> visible (\<lambda>(a, _). a = a_erase) (at_items t) (dom m)"
    by (cases "map_of (at_items t) k")
      (auto simp: domIff ast_abs_def visible_def erased_in_def live_def)
qed

context ledger_view
begin

lemma ast_view:
  assumes wf: "ast_wf t h m"
  shows "ledger_view (ast_as_view t h v) (ast_abs t h m)"
proof
  show "keyed (ast_abs t h m)"
    using keyed ast_wfD(1) [OF wf]
    by (auto simp: keyed_def ast_abs_def split: option.splits if_splits)
  show "v_read (ast_as_view t h v) k = lookup (ast_abs t h m) k" if "kl_key k \<noteq> 0" for k
    using that read [of k]
    by (auto simp: ast_as_view_def ast_read_def ast_abs_def lookup_def split: option.splits)
  show "v_exists (ast_as_view t h v) k \<longleftrightarrow> kl_key k \<in> dom (ast_abs t h m)"
    if "\<And>s. ast_abs t h m (kl_key k) = Some s \<Longrightarrow> check k s" for k
    using that exists [of k]
    by (auto simp: ast_as_view_def ast_exists_def ast_abs_def split: option.splits if_splits)
  show "v_succ (ast_as_view t h v) key lst = Some (bounded_by lst (least_above (dom (ast_abs t h m)) key))"
    for key lst
    by (simp add: ast_as_view_def ast_succ_def dom_ast_abs table_succ_least [OF ast_wf_smap [OF wf]])
qed

text \<open>\<^verbatim>\<open>peek\<close> finds what the view shows, and the pointer it returns is registered.\<close>

lemma ast_peek_none:
  assumes "ast_ok t h m" "kl_key k \<noteq> 0" "lookup (ast_abs t h m) k = None"
  shows "ast_peek v k (t, h) = (None, (t, h))"
  using assms(3) read [OF assms(2)]
  by (auto simp: ast_peek_def lookup_def ast_abs_def split: option.splits if_splits)

lemma ast_peek_some:
  assumes ok: "ast_ok t h m" and k: "kl_key k \<noteq> 0" and s: "lookup (ast_abs t h m) k = Some e"
  obtains p t1 h1 a where "ast_peek v k (t, h) = (Some p, (t1, h1))" "ast_ok t1 h1 m"
    "ast_abs t1 h1 m = ast_abs t h m" "at_dropsDestroyed t1 = at_dropsDestroyed t"
    "h_at h1 p = e" "map_of (at_items t1) (kl_key k) = Some (a, p)" "a \<noteq> a_erase"
proof (cases "map_of (at_items t) (kl_key k)")
  case None
  with s have mk: "m (kl_key k) = Some e" and r: "v_read v k = Some e"
    using read [OF k] by (auto simp: lookup_def ast_abs_def split: option.splits if_splits)
  have e: "sle_key e = kl_key k" using keyed mk by (simp add: keyed_def)
  obtain p h1 where h1: "make_shared e h = (p, h1)" by fastforce
  note f = make_shared_fresh [OF h1]
  let ?t1 = "ast_put (kl_key k) a_cache p t"
  show ?thesis
  proof (rule that)
    show "ast_peek v k (t, h) = (Some p, (?t1, h1))"
      using None r e h1 by (simp add: ast_peek_def)
    show "ast_ok ?t1 h1 m"
      by (rule ast_ok_put [OF f(4) [OF ok]]) (use f(1,2) e mk in auto)
    have sm: "smap_ok (at_items t)" using ast_wf_smap [OF ast_okD(1) [OF ok]] .
    show "ast_abs ?t1 h1 m = ast_abs t h m"
      unfolding ast_abs_put [OF sm] f(5) [OF ok]
      using f(1) None mk by (simp add: fun_upd_idem_iff ast_abs_def)
    show "map_of (at_items ?t1) (kl_key k) = Some (a_cache, p)" by (simp add: map_of_smap_put [OF sm])
  qed (simp_all add: f(1))
next
  case (Some x)
  obtain a p where x: "x = (a, p)" by fastforce
  with s Some have a: "a \<noteq> a_erase" and e: "h_at h p = e" "check k e"
    by (auto simp: lookup_def ast_abs_def split: if_splits)
  show ?thesis
  proof (rule that)
    show "ast_peek v k (t, h) = (Some p, (t, h))" using Some x a e by (simp add: ast_peek_def)
  qed (use Some x a e ok in simp_all)
qed

end

lemma ast_ok_write:
  assumes ok: "ast_ok t h m" and i: "map_of (at_items t) k = Some (a, p)" and e: "sle_key e = k"
    and a: "a \<noteq> a_cache"
  shows "ast_ok t (h_write p e h) m"
    and "a \<noteq> a_erase \<Longrightarrow> ast_abs t (h_write p e h) m = (ast_abs t h m)(k \<mapsto> e)"
proof -
  note wf = ast_wfD [OF ast_okD(1) [OF ok]]
  have other: "q = p \<longleftrightarrow> k' = k" if "map_of (at_items t) k' = Some (b, q)" for k' b q
  proof
    show "k' = k" if "q = p"
      using wf(1) [OF i] wf(1) [OF \<open>map_of (at_items t) k' = Some (b, q)\<close>] that by simp
    show "q = p" if "k' = k" using \<open>map_of (at_items t) k' = Some (b, q)\<close> i that by simp
  qed
  have at: "h_at (h_write p e h) q = (if q = p then e else h_at h q)" "h_next (h_write p e h) = h_next h" for q
    by (simp_all add: h_write_def)
  have "ast_wf t (h_write p e h) m"
    unfolding ast_wf_def at
  proof (intro conjI allI impI)
    fix k' b q assume x: "map_of (at_items t) k' = Some (b, q)"
    show "sle_key (if q = p then e else h_at h q) = k'" using other [OF x] wf(1) [OF x] e by simp
    show "q < h_next h" "b = a_insert \<longleftrightarrow> k' \<notin> dom m" by (rule wf(2,3) [OF x])+
  qed (rule ast_wf_smap [OF ast_okD(1) [OF ok]])
  moreover have "ast_clean t (h_write p e h) m"
    unfolding ast_clean_def at
  proof (intro allI impI)
    fix k' q assume x: "map_of (at_items t) k' = Some (a_cache, q)"
    have "q \<noteq> p" using other [OF x] x i a by auto
    then show "m k' = Some (if q = p then e else h_at h q)"
      using ast_cleanD [OF ast_okD(2) [OF ok] x] by simp
  qed
  ultimately show "ast_ok t (h_write p e h) m" by (simp add: ast_ok_def)
  show "ast_abs t (h_write p e h) m = (ast_abs t h m)(k \<mapsto> e)" if "a \<noteq> a_erase"
  proof
    fix k'
    show "ast_abs t (h_write p e h) m k' = ((ast_abs t h m)(k \<mapsto> e)) k'"
      using other [of k'] i that
      by (cases "map_of (at_items t) k'"; cases "k' = k") (auto simp: ast_abs_def at)
  qed
qed

text \<open>Modifying in place and then announcing the change with \<^verbatim>\<open>update\<close>.\<close>

lemma ast_update_does:
  assumes ok: "ast_ok t h m" and i: "map_of (at_items t) k = Some (a, p)" and a: "a \<noteq> a_erase"
    and e: "sle_key e = k"
  shows "ast_does (ast_update p (h_write p e h) t) (h_write p e h) m t ((ast_abs t h m)(k \<mapsto> e))"
proof -
  have at: "h_at (h_write p e h) p = e" by (simp add: h_write_def)
  show ?thesis
  proof (cases "a = a_cache")
    case False
    with a i e at ast_ok_write [OF ok i e False] show ?thesis
      by (cases a) (simp_all add: ast_update_def ast_does_def)
  next
    case True
    let ?t1 = "ast_put k a_modify p t"
    have sm: "smap_ok (at_items t)" using ast_wf_smap [OF ast_okD(1) [OF ok]] .
    have k: "sle_key (h_at h p) = k" "p < h_next h" "k \<in> dom m"
      using ast_wfD [OF ast_okD(1) [OF ok] i] True by simp_all
    have ok1: "ast_ok ?t1 h m" by (rule ast_ok_put [OF ok k(1,2)]) (use k(3) in simp_all)
    have i1: "map_of (at_items ?t1) k = Some (a_modify, p)" by (simp add: map_of_smap_put [OF sm])
    have "ast_abs ?t1 h m = (ast_abs t h m)(k \<mapsto> h_at h p)" by (simp add: ast_abs_put [OF sm])
    with ast_ok_write [OF ok1 i1 e] True i e at show ?thesis
      by (simp add: ast_update_def ast_does_def)
  qed
qed

lemma ast_erase_does:
  assumes ok: "ast_ok t h m" and i: "map_of (at_items t) k = Some (a, p)" and a: "a \<noteq> a_erase"
  shows "ast_does (ast_erase p h t) h m t ((ast_abs t h m)(k := None))"
proof -
  note k = ast_wfD [OF ast_okD(1) [OF ok] i]
  show ?thesis
    using ast_does_put [OF ok k(1,2), of a_erase] ast_does_del [OF ok, of k] k i a
    by (cases a) (simp_all add: ast_erase_def)
qed

subsection \<open>A transactor's session\<close>

text \<open>
  What transactors do with a sandbox: peek at an entry, modify it in place and update it;
  peek and erase; create an entry that is not there yet; and pay a fee. \<open>run_op\<close> performs an
  operation with the calls of the table, \<open>do_op\<close> is its meaning on the state.
\<close>

datatype 'v op =
    OpModify Keylet "'v \<Rightarrow> 'v"
  | OpErase Keylet
  | OpInsert "'v SLE"
  | OpFee int

fun run_op ::
    "'v ReadView \<Rightarrow> 'v op \<Rightarrow> ApplyStateTable \<times> 'v Heap \<Rightarrow> (ApplyStateTable \<times> 'v Heap) result" where
  "run_op base (OpModify k f) s =
     (case ast_peek base k s of
        (None, s') \<Rightarrow> Inr s'
      | (Some p, (t, h)) \<Rightarrow>
          (let e = h_at h p; h' = h_write p (e\<lparr>sle_obj := f (sle_obj e)\<rparr>) h in
           rbind (ast_update p h' t) (\<lambda>t'. Inr (t', h'))))"
| "run_op base (OpErase k) s =
     (case ast_peek base k s of
        (None, s') \<Rightarrow> Inr s'
      | (Some p, (t, h)) \<Rightarrow> rbind (ast_erase p h t) (\<lambda>t'. Inr (t', h)))"
| "run_op base (OpInsert e) (t, h) =
     (if ast_exists t h base (keylet_unchecked (sle_key e)) then Inr (t, h)
      else let (p, h') = make_shared e h in rbind (ast_insert p h' t) (\<lambda>t'. Inr (t', h')))"
| "run_op base (OpFee fee) (t, h) = Inr (ast_destroyM fee t, h)"

fun run_ops ::
    "'v ReadView \<Rightarrow> 'v op list \<Rightarrow> ApplyStateTable \<times> 'v Heap \<Rightarrow> (ApplyStateTable \<times> 'v Heap) result" where
  "run_ops base [] s = Inr s"
| "run_ops base (x # xs) s = rbind (run_op base x s) (run_ops base xs)"

fun do_op :: "'v op \<Rightarrow> (nat \<rightharpoonup> 'v SLE) \<Rightarrow> (nat \<rightharpoonup> 'v SLE)" where
  "do_op (OpModify k f) m =
     (case lookup m k of None \<Rightarrow> m | Some e \<Rightarrow> m(kl_key k \<mapsto> e\<lparr>sle_obj := f (sle_obj e)\<rparr>))"
| "do_op (OpErase k) m = (case lookup m k of None \<Rightarrow> m | Some e \<Rightarrow> m(kl_key k := None))"
| "do_op (OpInsert e) m = (if sle_key e \<in> dom m then m else m(sle_key e \<mapsto> e))"
| "do_op (OpFee fee) m = m"

fun op_fee :: "'v op \<Rightarrow> int" where
  "op_fee (OpFee fee) = fee"
| "op_fee _ = 0"

text \<open>The zero key is reserved: \<^verbatim>\<open>Ledger::read\<close> refuses it.\<close>

fun op_keys :: "'v op \<Rightarrow> bool" where
  "op_keys (OpModify k f) \<longleftrightarrow> kl_key k \<noteq> 0"
| "op_keys (OpErase k) \<longleftrightarrow> kl_key k \<noteq> 0"
| "op_keys (OpInsert e) \<longleftrightarrow> True"
| "op_keys (OpFee fee) \<longleftrightarrow> True"

context ledger_view
begin

lemma run_modify_does:
  assumes ok: "ast_ok t h m" and k: "kl_key kl \<noteq> 0"
  shows "\<exists>t' h'. run_op v (OpModify kl f) (t, h) = Inr (t', h') \<and> ast_ok t' h' m \<and>
    ast_abs t' h' m = do_op (OpModify kl f) (ast_abs t h m) \<and> at_dropsDestroyed t' = at_dropsDestroyed t"
proof (cases "lookup (ast_abs t h m) kl")
  case None
  then show ?thesis using ok ast_peek_none [OF ok k] by simp
next
  case (Some e)
  from ast_view [OF ast_okD(1) [OF ok]] Some have e: "sle_key e = kl_key kl"
    by (auto simp: ledger_view_def keyed_def lookup_def split: option.splits if_splits)
  obtain p t1 h1 a where p: "ast_peek v kl (t, h) = (Some p, (t1, h1))" "ast_ok t1 h1 m"
    "ast_abs t1 h1 m = ast_abs t h m" "at_dropsDestroyed t1 = at_dropsDestroyed t"
    "h_at h1 p = e" "map_of (at_items t1) (kl_key kl) = Some (a, p)" "a \<noteq> a_erase"
    by (rule ast_peek_some [OF ok k Some])
  let ?e = "e\<lparr>sle_obj := f (sle_obj e)\<rparr>"
  have "ast_does (ast_update p (h_write p ?e h1) t1) (h_write p ?e h1) m t1
      ((ast_abs t1 h1 m)(kl_key kl \<mapsto> ?e))"
    by (rule ast_update_does [OF p(2,6,7)]) (simp add: e)
  then show ?thesis using p Some by (auto simp: ast_does_def Let_def)
qed

lemma run_erase_does:
  assumes ok: "ast_ok t h m" and k: "kl_key kl \<noteq> 0"
  shows "\<exists>t' h'. run_op v (OpErase kl) (t, h) = Inr (t', h') \<and> ast_ok t' h' m \<and>
    ast_abs t' h' m = do_op (OpErase kl) (ast_abs t h m) \<and> at_dropsDestroyed t' = at_dropsDestroyed t"
proof (cases "lookup (ast_abs t h m) kl")
  case None
  then show ?thesis using ok ast_peek_none [OF ok k] by simp
next
  case (Some e)
  obtain p t1 h1 a where p: "ast_peek v kl (t, h) = (Some p, (t1, h1))" "ast_ok t1 h1 m"
    "ast_abs t1 h1 m = ast_abs t h m" "at_dropsDestroyed t1 = at_dropsDestroyed t"
    "h_at h1 p = e" "map_of (at_items t1) (kl_key kl) = Some (a, p)" "a \<noteq> a_erase"
    by (rule ast_peek_some [OF ok k Some])
  from ast_erase_does [OF p(2,6,7)] show ?thesis using p Some by (auto simp: ast_does_def)
qed

lemma run_insert_does:
  assumes ok: "ast_ok t h m"
  shows "\<exists>t' h'. run_op v (OpInsert e) (t, h) = Inr (t', h') \<and> ast_ok t' h' m \<and>
    ast_abs t' h' m = do_op (OpInsert e) (ast_abs t h m) \<and> at_dropsDestroyed t' = at_dropsDestroyed t"
proof -
  have ex: "ast_exists t h v (keylet_unchecked (sle_key e)) \<longleftrightarrow> sle_key e \<in> dom (ast_abs t h m)"
    using ledger_view.exists [OF ast_view [OF ast_okD(1) [OF ok]], of "keylet_unchecked (sle_key e)"]
    by (simp add: ast_as_view_def keylet_unchecked_def check_def)
  show ?thesis
  proof (cases "sle_key e \<in> dom (ast_abs t h m)")
    case True
    then show ?thesis using ok ex by simp
  next
    case False
    obtain p h1 where h1: "make_shared e h = (p, h1)" by fastforce
    note f = make_shared_fresh [OF h1]
    have "ast_does (ast_insert p h1 t) h1 m t ((ast_abs t h m)(sle_key e \<mapsto> e))"
      using ast_insert_does [OF f(4) [OF ok] f(2)] f(1) f(5) [OF ok] False by simp
    then show ?thesis using ex False h1 by (auto simp: ast_does_def)
  qed
qed

lemma run_op_does:
  assumes "ast_ok t h m" "op_keys x"
  shows "\<exists>t' h'. run_op v x (t, h) = Inr (t', h') \<and> ast_ok t' h' m \<and>
    ast_abs t' h' m = do_op x (ast_abs t h m) \<and>
    at_dropsDestroyed t' = at_dropsDestroyed t + op_fee x"
  using assms run_modify_does [OF assms(1)] run_erase_does [OF assms(1)] run_insert_does [OF assms(1)]
  by (cases x) simp_all

lemma run_ops_does:
  assumes "ast_ok t h m" "\<forall>x \<in> set xs. op_keys x"
  shows "\<exists>t' h'. run_ops v xs (t, h) = Inr (t', h') \<and> ast_ok t' h' m \<and>
    ast_abs t' h' m = fold do_op xs (ast_abs t h m) \<and>
    at_dropsDestroyed t' = at_dropsDestroyed t + sum_list (map op_fee xs)"
  using assms
proof (induction xs arbitrary: t h)
  case (Cons x xs)
  have "op_keys x" using Cons.prems by simp
  from run_op_does [OF Cons.prems(1) this] obtain t1 h1 where
    1: "run_op v x (t, h) = Inr (t1, h1)" "ast_ok t1 h1 m" "ast_abs t1 h1 m = do_op x (ast_abs t h m)"
      "at_dropsDestroyed t1 = at_dropsDestroyed t + op_fee x" by blast
  from Cons.IH [OF 1(2)] Cons.prems(2) 1 show ?case by (auto simp: algebra_simps)
qed simp

end

lemma empty_table: "ast_ok \<lparr>at_items = [], at_dropsDestroyed = 0\<rparr> h m"
  "ast_abs \<lparr>at_items = [], at_dropsDestroyed = 0\<rparr> h m = m"
  by (simp_all add: ast_ok_def ast_wf_def ast_clean_def ast_abs_def fun_eq_iff)

text \<open>
  C4. A whole transaction: whatever sequence of operations a transactor performs on a fresh
  sandbox over a ledger (reads of absent or erased entries, several modifications of one
  entry, re-creation after erasure included), no call of the table fails, the commit
  succeeds, and the ledger ends in the state the same operations have when performed one
  after the other directly on the state map; the fees paid are added to the fee pool.
\<close>
theorem session_commits:
  assumes l: "ledger_ok l" and k: "\<forall>x \<in> set xs. op_keys x"
  shows "\<exists>t h' l'. run_ops (ledger_as_view l) xs (\<lparr>at_items = [], at_dropsDestroyed = 0\<rparr>, h) = Inr (t, h') \<and>
    ast_apply ledger_raw h' t l = Inr l' \<and> ledger_ok l' \<and>
    map_of (stateMap l') = fold do_op xs (map_of (stateMap l)) \<and>
    info_feePool l' = info_feePool l + sum_list (map op_fee xs)"
proof -
  from ledger_view.run_ops_does [OF ledger_view_ledger [OF l] empty_table(1) [of h] k]
  obtain t h' where 1: "run_ops (ledger_as_view l) xs (\<lparr>at_items = [], at_dropsDestroyed = 0\<rparr>, h) = Inr (t, h')"
    "ast_ok t h' (map_of (stateMap l))" "ast_abs t h' (map_of (stateMap l)) = fold do_op xs (map_of (stateMap l))"
    "at_dropsDestroyed t = sum_list (map op_fee xs)" by (auto simp: empty_table(2))
  from ledger.ast_apply_shown [OF l 1(2)] 1 show ?thesis by auto
qed

theorem session_commits_witness:
  "\<exists>t h' l'. run_ops (ledger_as_view (ledger_of [\<lparr>sle_key = 3, sle_type = 97, sle_obj = 10 :: int\<rparr>] 0))
      [OpModify \<lparr>kl_type = 97, kl_key = 3\<rparr> (\<lambda>b. b - 4), OpFee 1, OpModify \<lparr>kl_type = 97, kl_key = 3\<rparr> (\<lambda>b. b - 2)]
      (\<lparr>at_items = [], at_dropsDestroyed = 0\<rparr>, \<lparr>h_at = (\<lambda>_. \<lparr>sle_key = 0, sle_type = 0, sle_obj = 0\<rparr>), h_next = 0\<rparr>) = Inr (t, h') \<and>
    ast_apply ledger_raw h' t (ledger_of [\<lparr>sle_key = 3, sle_type = 97, sle_obj = 10\<rparr>] 0) = Inr l' \<and>
    map_of (stateMap l') = [3 \<mapsto> \<lparr>sle_key = 3, sle_type = 97, sle_obj = 4\<rparr>] \<and> info_feePool l' = 1"
proof -
  let ?l = "ledger_of [\<lparr>sle_key = 3, sle_type = 97, sle_obj = 10 :: int\<rparr>] 0"
  let ?xs = "[OpModify \<lparr>kl_type = 97, kl_key = 3\<rparr> (\<lambda>b. b - 4 :: int), OpFee 1,
    OpModify \<lparr>kl_type = 97, kl_key = 3\<rparr> (\<lambda>b. b - 2)]"
  have k: "\<forall>x \<in> set ?xs. op_keys x" by simp
  have m: "fold do_op ?xs (map_of (stateMap ?l)) = [3 \<mapsto> \<lparr>sle_key = 3, sle_type = 97, sle_obj = 4\<rparr>]"
    by (simp add: ledger_of_def lookup_def check_def ltANY_def ltCHILD_def ltINVALID_def)
  have f: "info_feePool ?l = 0" "sum_list (map op_fee ?xs) = 1" by (simp_all add: ledger_of_def)
  let ?h = "\<lparr>h_at = (\<lambda>_. \<lparr>sle_key = 0, sle_type = 0, sle_obj = 0 :: int\<rparr>), h_next = 0\<rparr>"
  let ?l1 = "\<lambda>l' :: int Ledger. map_of (stateMap l') = fold do_op ?xs (map_of (stateMap ?l)) \<and>
    info_feePool l' = info_feePool ?l + sum_list (map op_fee ?xs)"
  obtain t h' l' where "run_ops (ledger_as_view ?l) ?xs (\<lparr>at_items = [], at_dropsDestroyed = 0\<rparr>, ?h) = Inr (t, h')"
    "ast_apply ledger_raw h' t ?l = Inr l'" "?l1 l'"
    using session_commits [OF ledger_ok_of k, where h = ?h] by blast
  with m f show ?thesis by (intro exI [of _ t] exI [of _ h'] exI [of _ l'] conjI) simp_all
qed

end
