(* ===== verification/OpenView.thy ===== *)
theory OpenView
  imports SlesIter ApplyStateTable
begin

text \<open>
  \<^verbatim>\<open>ledger/OpenView.h\<close>, \<^verbatim>\<open>ledger/impl/OpenView.cpp\<close>: a view that accumulates state changes
  in a table of raw modifications and transactions in a map ordered by their ids, over a
  base view. A serialized transaction and its optional metadata are byte strings. The
  locale \<open>txs_target\<close> is the contract of \<^verbatim>\<open>TxsRawView\<close>; the ledger and the open view
  provide it.
\<close>

record LedgerInfo =
  li_seq :: int
  li_parentCloseTime :: int
  li_hash :: nat
  li_parentHash :: nat
  li_validated :: bool
  li_accepted :: bool
  li_closeTime :: int

record 'v OpenView =
  ov_txs :: "(nat, Blob \<times> Blob option) smap"
  ov_info :: LedgerInfo
  ov_items :: "'v RawStateTable"
  ov_open :: bool

record ('v, 's) TxsRawView = "('v, 's) RawView" +
  rawTxInsert :: "nat \<Rightarrow> Blob \<Rightarrow> Blob option \<Rightarrow> 's \<Rightarrow> 's result"

definition empty_raw :: "'v RawStateTable" where
  "empty_raw = \<lparr>rt_items = [], rt_dropsDestroyed = 0\<rparr>"

text \<open>The two constructors, from the information of the base view.\<close>

definition OpenView_open :: "LedgerInfo \<Rightarrow> 'v OpenView" where
  "OpenView_open base_info =
     \<lparr>ov_txs = [],
      ov_info = base_info\<lparr>li_validated := False, li_accepted := False,
                          li_seq := u32 (li_seq base_info + 1),
                          li_parentCloseTime := li_closeTime base_info,
                          li_parentHash := li_hash base_info\<rparr>,
      ov_items = empty_raw, ov_open = True\<rparr>"

definition OpenView_closed :: "LedgerInfo \<Rightarrow> bool \<Rightarrow> 'v OpenView" where
  "OpenView_closed base_info base_open =
     \<lparr>ov_txs = [], ov_info = base_info, ov_items = empty_raw, ov_open = base_open\<rparr>"

definition txCount :: "'v OpenView \<Rightarrow> nat" where
  "txCount ov = length (ov_txs ov)"

fun insert_txs ::
    "('v, 's) TxsRawView \<Rightarrow> (nat, Blob \<times> Blob option) smap \<Rightarrow> 's \<Rightarrow> 's result" where
  "insert_txs to [] s = Inr s"
| "insert_txs to ((key, (txn, meta)) # xs) s =
     rbind (rawTxInsert to key txn meta s) (insert_txs to xs)"

definition ov_apply :: "('v, 's) TxsRawView \<Rightarrow> 'v OpenView \<Rightarrow> 's \<Rightarrow> 's result" where
  "ov_apply to ov s =
     rbind (raw_apply (RawView.truncate to) (ov_items ov) s) (insert_txs to (ov_txs ov))"

definition ov_exists :: "'v OpenView \<Rightarrow> 'v ReadView \<Rightarrow> Keylet \<Rightarrow> bool" where
  "ov_exists ov base k = raw_exists (ov_items ov) base k"

definition ov_succ :: "'v OpenView \<Rightarrow> 'v ReadView \<Rightarrow> nat \<Rightarrow> nat option \<Rightarrow> nat option option" where
  "ov_succ ov base key lst = raw_succ (ov_items ov) base key lst"

definition ov_read :: "'v OpenView \<Rightarrow> 'v ReadView \<Rightarrow> Keylet \<Rightarrow> 'v SLE option" where
  "ov_read ov base k = raw_read (ov_items ov) base k"

definition ov_as_view :: "'v OpenView \<Rightarrow> 'v ReadView \<Rightarrow> 'v ReadView" where
  "ov_as_view ov base = \<lparr>v_exists = ov_exists ov base, v_succ = ov_succ ov base, v_read = ov_read ov base\<rparr>"

definition ov_txExists :: "'v OpenView \<Rightarrow> nat \<Rightarrow> bool" where
  "ov_txExists ov key \<longleftrightarrow> map_of (ov_txs ov) key \<noteq> None"

definition ov_txRead :: "'v OpenView \<Rightarrow> (nat \<Rightarrow> (Blob \<times> Blob option) option) \<Rightarrow> nat \<Rightarrow> (Blob \<times> Blob option) option" where
  "ov_txRead ov base_txRead key =
     (case map_of (ov_txs ov) key of None \<Rightarrow> base_txRead key | Some item \<Rightarrow> Some item)"

text \<open>The raw modifications are those of the table of items.\<close>

definition ov_with :: "('v RawStateTable \<Rightarrow> 'v RawStateTable result) \<Rightarrow> 'v OpenView \<Rightarrow> 'v OpenView result" where
  "ov_with f ov = rbind (f (ov_items ov)) (\<lambda>t. Inr (ov\<lparr>ov_items := t\<rparr>))"

definition ov_rawTxInsert :: "nat \<Rightarrow> Blob \<Rightarrow> Blob option \<Rightarrow> 'v OpenView \<Rightarrow> 'v OpenView result" where
  "ov_rawTxInsert key txn metaData ov =
     (if map_of (ov_txs ov) key = None
      then Inr (ov\<lparr>ov_txs := smap_put key (txn, metaData) (ov_txs ov)\<rparr>)
      else Inl (logic_error ''rawTxInsert: duplicate TX id''))"

definition ov_raw :: "('v, 'v OpenView) TxsRawView" where
  "ov_raw =
     \<lparr>rawErase = (\<lambda>sle. ov_with (raw_erase sle)), rawInsert = (\<lambda>sle. ov_with (raw_insert sle)),
      rawReplace = (\<lambda>sle. ov_with (raw_replace sle)),
      rawDestroyM = (\<lambda>fee ov. ov\<lparr>ov_items := raw_destroyM fee (ov_items ov)\<rparr>),
      rawTxInsert = ov_rawTxInsert\<rparr>"

definition ledger_txs_raw :: "('v, 'v Ledger) TxsRawView" where
  "ledger_txs_raw = RawView.extend ledger_raw \<lparr>rawTxInsert = ledger_rawTxInsert\<rparr>"

subsection \<open>The contract of a target of transactions\<close>

text \<open>
  \<open>invar T s\<close>: the target is well-formed and holds the transactions \<open>T\<close>; \<open>accepts\<close> says
  which transactions and metadata it takes.
\<close>

locale txs_target =
  fixes to :: "('v, 's) TxsRawView"
    and invar :: "(nat \<rightharpoonup> Blob \<times> Blob option) \<Rightarrow> 's \<Rightarrow> bool"
    and content :: "'s \<Rightarrow> nat \<rightharpoonup> 'v SLE" and drops :: "'s \<Rightarrow> int" and accepts :: "Blob \<Rightarrow> Blob option \<Rightarrow> bool"
  assumes raw: "raw_target (RawView.truncate to) (invar T) content drops"
    and tx_new: "invar T s \<Longrightarrow> T key = None \<Longrightarrow> accepts txn meta \<Longrightarrow>
      \<exists>s'. rawTxInsert to key txn meta s = Inr s' \<and> invar (T(key \<mapsto> (txn, meta))) s' \<and>
           content s' = content s \<and> drops s' = drops s"
    and tx_dup: "invar T s \<Longrightarrow> T key \<noteq> None \<Longrightarrow> accepts txn meta \<Longrightarrow>
      \<exists>x. rawTxInsert to key txn meta s = Inl x"
begin

lemma insert_txs_new:
  assumes "invar T s" "smap_ok xs" "\<forall>(k, txn, meta) \<in> set xs. T k = None \<and> accepts txn meta"
  shows "\<exists>s'. insert_txs to xs s = Inr s' \<and> invar (T ++ map_of xs) s' \<and>
    content s' = content s \<and> drops s' = drops s"
  using assms
proof (induction xs arbitrary: T s)
  case (Cons p xs)
  obtain k txn meta where p: "p = (k, (txn, meta))" by (metis prod.collapse)
  have "T k = None" "accepts txn meta" using Cons.prems(3) p by auto
  from tx_new [OF Cons.prems(1) this] obtain s1 where s1: "rawTxInsert to k txn meta s = Inr s1"
    "invar (T(k \<mapsto> (txn, meta))) s1" "content s1 = content s" "drops s1 = drops s" by blast
  have k: "\<forall>q \<in> set xs. k < fst q" using Cons.prems(2) p by simp
  have T: "T(k \<mapsto> (txn, meta)) ++ map_of xs = T ++ map_of (p # xs)"
    using map_of_above [OF k] p by (auto simp: map_add_def fun_eq_iff split: option.splits)
  have "\<forall>(j, txn', meta') \<in> set xs. (T(k \<mapsto> (txn, meta))) j = None \<and> accepts txn' meta'"
    using Cons.prems(3) k by fastforce
  moreover have "smap_ok xs" using Cons.prems(2) by simp
  ultimately obtain s' where "insert_txs to xs s1 = Inr s'" "invar (T ++ map_of (p # xs)) s'"
    "content s' = content s1" "drops s' = drops s1"
    using Cons.IH [OF s1(2)] unfolding T by blast
  moreover have "insert_txs to (p # xs) s = insert_txs to xs s1" using s1(1) p by simp
  ultimately show ?case using s1(3,4) by metis
qed simp

lemma insert_txs_dup:
  assumes "invar T s" "smap_ok xs" "\<forall>(k, txn, meta) \<in> set xs. accepts txn meta" "k \<in> dom T" "k \<in> fst ` set xs"
  shows "\<exists>x. insert_txs to xs s = Inl x"
  using assms
proof (induction xs arbitrary: T s)
  case (Cons p xs)
  obtain j txn meta where p: "p = (j, (txn, meta))" by (metis prod.collapse)
  have m: "accepts txn meta" using Cons.prems(3) p by auto
  show ?case
  proof (cases "T j = None")
    case False
    from tx_dup [OF Cons.prems(1) False m] obtain x where "rawTxInsert to j txn meta s = Inl x" by blast
    then show ?thesis by (simp add: p)
  next
    case True
    from tx_new [OF Cons.prems(1) True m] obtain s1 where s1: "rawTxInsert to j txn meta s = Inr s1"
      "invar (T(j \<mapsto> (txn, meta))) s1" by blast
    have "k \<noteq> j" using True Cons.prems(4) by auto
    then have "k \<in> dom (T(j \<mapsto> (txn, meta)))" "k \<in> fst ` set xs" using Cons.prems(4,5) p by auto
    moreover have "smap_ok xs" "\<forall>(k, txn, meta) \<in> set xs. accepts txn meta" using Cons.prems(2,3) by simp_all
    ultimately have "\<exists>x. insert_txs to xs s1 = Inl x" using Cons.IH [OF s1(2)] by blast
    then show ?thesis using s1 p by simp
  qed
qed simp

lemma ov_apply_shown:
  assumes s: "invar T s" and r: "raw_ok (ov_items ov) (content s)" and x: "smap_ok (ov_txs ov)"
    and m: "\<forall>(k, txn, meta) \<in> set (ov_txs ov). accepts txn meta"
  shows "(if dom T \<inter> dom (map_of (ov_txs ov)) = {}
     then \<exists>s'. ov_apply to ov s = Inr s' \<and> invar (T ++ map_of (ov_txs ov)) s' \<and>
            content s' = raw_abs (ov_items ov) (content s) \<and>
            drops s' = drops s + rt_dropsDestroyed (ov_items ov)
     else \<exists>e. ov_apply to ov s = Inl e)"
proof -
  from raw_target.raw_apply_shown [OF raw s r] obtain s1 where
    s1: "raw_apply (RawView.truncate to) (ov_items ov) s = Inr s1" "invar T s1"
      "content s1 = raw_abs (ov_items ov) (content s)"
      "drops s1 = drops s + rt_dropsDestroyed (ov_items ov)" by blast
  show ?thesis
  proof (cases "dom T \<inter> dom (map_of (ov_txs ov)) = {}")
    case True
    then have "\<forall>(k, txn, meta) \<in> set (ov_txs ov). T k = None \<and> accepts txn meta"
      using m by (force simp: dom_map_of_conv_image_fst)
    from insert_txs_new [OF s1(2) x this] s1 True show ?thesis by (auto simp: ov_apply_def)
  next
    case False
    then obtain k where "k \<in> dom T" "k \<in> fst ` set (ov_txs ov)" by (auto simp: dom_map_of_conv_image_fst)
    from insert_txs_dup [OF s1(2) x m this] s1 False show ?thesis by (auto simp: ov_apply_def)
  qed
qed

end

subsection \<open>The open view and the ledger as targets\<close>

lemma ov_raw_simps [simp]:
  "rawErase (RawView.truncate ov_raw) e = ov_with (raw_erase e)"
  "rawInsert (RawView.truncate ov_raw) e = ov_with (raw_insert e)"
  "rawReplace (RawView.truncate ov_raw) e = ov_with (raw_replace e)"
  "rawDestroyM (RawView.truncate ov_raw) fee ov = ov\<lparr>ov_items := raw_destroyM fee (ov_items ov)\<rparr>"
  "rawTxInsert ov_raw = ov_rawTxInsert"
  by (simp_all add: ov_raw_def RawView.truncate_def)

definition ov_ok :: "(nat \<rightharpoonup> 'v SLE) \<Rightarrow> (nat \<rightharpoonup> Blob \<times> Blob option) \<Rightarrow> 'v OpenView \<Rightarrow> bool" where
  "ov_ok m T ov \<longleftrightarrow> raw_ok (ov_items ov) m \<and> smap_ok (ov_txs ov) \<and> map_of (ov_txs ov) = T"

lemma ov_with_does:
  assumes "ov_ok m T ov"
    and "\<exists>t'. f (ov_items ov) = Inr t' \<and> raw_ok t' m \<and> rt_dropsDestroyed t' = rt_dropsDestroyed (ov_items ov) \<and>
      raw_abs t' m = m'"
  shows "\<exists>ov'. ov_with f ov = Inr ov' \<and> ov_ok m T ov' \<and>
    rt_dropsDestroyed (ov_items ov') = rt_dropsDestroyed (ov_items ov) \<and> raw_abs (ov_items ov') m = m'"
  using assms by (auto simp: ov_with_def ov_ok_def)

interpretation open_view: txs_target ov_raw "ov_ok m" "\<lambda>ov. raw_abs (ov_items ov) m"
  "\<lambda>ov. rt_dropsDestroyed (ov_items ov)" "\<lambda>_ _. True"
proof (unfold_locales, goal_cases)
  case (1 T s e)
  then show ?case using ov_with_does [of m T s "raw_erase e"] raw_erase_ok [of "ov_items s" m e]
    by (simp add: ov_ok_def)
next
  case (2 T s e)
  then show ?case using ov_with_does [of m T s "raw_insert e"] raw_insert_ok [of "ov_items s" m e]
    by (simp add: ov_ok_def)
next
  case (3 T s e)
  then show ?case using ov_with_does [of m T s "raw_replace e"] raw_replace_ok [of "ov_items s" m e]
    by (simp add: ov_ok_def)
next
  case (4 T s fee)
  then show ?case by (simp add: ov_ok_def raw_destroyM_ok)
next
  case (5 T s key txn meta)
  then show ?case by (auto simp: ov_rawTxInsert_def ov_ok_def smap_ok_put map_of_smap_put)
next
  case (6 T s key txn meta)
  then show ?case by (auto simp: ov_rawTxInsert_def ov_ok_def)
qed

lemma ledger_txs_raw_simps [simp]:
  "RawView.truncate ledger_txs_raw = ledger_raw" "rawTxInsert ledger_txs_raw = ledger_rawTxInsert"
  by (simp_all add: ledger_txs_raw_def RawView.extend_def RawView.truncate_def)

text \<open>What the ledger shows of a transaction, and the transactions that fit into an item.\<close>

definition ledger_txs :: "'v Ledger \<Rightarrow> (nat \<rightharpoonup> Blob \<times> Blob option)" where
  "ledger_txs l = (\<lambda>k. case ledger_txRead l k of
     Inr (Some (txn, meta)) \<Rightarrow> Some (txn, Some meta) | _ \<Rightarrow> None)"

definition tx_fits :: "Blob \<Rightarrow> Blob option \<Rightarrow> bool" where
  "tx_fits txn metaData \<longleftrightarrow> length txn \<le> 918744 \<and>
     (case metaData of None \<Rightarrow> False | Some meta \<Rightarrow> length meta \<le> 918744)"

definition txMap_ok :: "'v Ledger \<Rightarrow> bool" where
  "txMap_ok l \<longleftrightarrow> smap_ok (txMap l) \<and> (\<forall>k. \<exists>r. ledger_txRead l k = Inr r)"

definition ledger_txs_ok :: "(nat \<rightharpoonup> Blob \<times> Blob option) \<Rightarrow> 'v Ledger \<Rightarrow> bool" where
  "ledger_txs_ok T l \<longleftrightarrow> ledger_ok l \<and> txMap_ok l \<and> ledger_txs l = T"

text \<open>What is written into an item is read from it.\<close>

interpretation slice: codec "\<lambda>v. length v \<le> 918744" vl_bytes next_slice
proof
  fix v rest :: Blob and it
  assume v: "length v \<le> 918744" and ok: "si_ok it" and l: "si_left it = vl_bytes v @ rest"
  have p: "0 \<le> int (length v) \<and> int (length v) \<le> 918744" using v by simp
  have l': "si_left it = vl_prefix (int (length v)) @ v @ rest" using l by (simp add: vl_bytes_def)
  note a = vl_length.after [OF ok l', THEN conjunct1] vl_length.after [OF ok l', THEN conjunct2]
  have "length v \<le> si_remain (advance (length (vl_prefix (int (length v)))) it)"
    using si_left_length [OF a(1)] a(2) by simp
  then show "next_slice it = Inr (v, advance (length (vl_bytes v)) it)"
    using vl_length.get_enc [OF p ok l'] a
    by (simp add: next_slice_def si_getSlice_def bytes_at_left vl_bytes_def advance_advance)
qed

lemma addVL_bytes: "length v \<le> 918744 \<Longrightarrow> addVL v s = Inr (length s, s @ vl_bytes v)"
  by (simp add: addVL_prefix vl_bytes_def)

lemma item_roundtrip:
  assumes "length txn \<le> 918744" "length meta \<le> 918744"
  shows "deserializeTxPlusMeta (vl_bytes txn @ vl_bytes meta) = Inr (txn, meta)"
proof -
  let ?it = "SerialIter_of (vl_bytes txn @ vl_bytes meta)"
  have l: "si_ok ?it" "si_left ?it = vl_bytes txn @ vl_bytes meta @ []" by simp_all
  note a = slice.after [OF l, THEN conjunct1] slice.after [OF l, THEN conjunct2]
  show ?thesis
    using slice.get_enc [OF assms(1) l] slice.get_enc [OF assms(2) a]
    by (simp add: deserializeTxPlusMeta_def)
qed

text \<open>State changes leave the transactions alone.\<close>

lemma ledger_raw_txMap:
  "rawErase ledger_raw e l = Inr l' \<Longrightarrow> txMap l' = txMap l"
  "rawInsert ledger_raw e l = Inr l' \<Longrightarrow> txMap l' = txMap l"
  "rawReplace ledger_raw e l = Inr l' \<Longrightarrow> txMap l' = txMap l"
  "txMap (rawDestroyM ledger_raw fee l) = txMap l"
  by (auto simp: ledger_raw_def ledger_rawErase_def ledger_rawInsert_def ledger_rawReplace_def
      ledger_rawDestroyM_def split: if_splits)

lemma ledger_txs_ok_cong:
  "ledger_txs_ok T l \<Longrightarrow> ledger_ok l' \<Longrightarrow> txMap l' = txMap l \<Longrightarrow> ledger_txs_ok T l'"
  by (simp add: ledger_txs_ok_def ledger_txs_def txMap_ok_def ledger_txRead_def)

lemma ledger_txs_okD: "ledger_txs_ok T l \<Longrightarrow> ledger_ok l"
  by (simp add: ledger_txs_ok_def)

lemma ledger_txs_None: "txMap_ok l \<Longrightarrow> ledger_txs l key = None \<longleftrightarrow> map_of (txMap l) key = None"
proof -
  assume "txMap_ok l"
  then obtain r where "ledger_txRead l key = Inr r" by (auto simp: txMap_ok_def)
  then show ?thesis
    by (cases "map_of (txMap l) key") (auto simp: ledger_txs_def ledger_txRead_def rbind_Inr_iff split: option.splits)
qed

lemma ledger_txRead_put:
  assumes "smap_ok (txMap l)" "length txn \<le> 918744" "length meta \<le> 918744"
  shows "ledger_txRead (l\<lparr>txMap := smap_put key (vl_bytes txn @ vl_bytes meta) (txMap l)\<rparr>) =
    (ledger_txRead l)(key := Inr (Some (txn, meta)))"
  using assms by (auto simp: ledger_txRead_def map_of_smap_put item_roundtrip fun_eq_iff)

lemma ledger_rawTxInsert_ok:
  assumes "ledger_txs_ok T l" "T key = None" "tx_fits txn (Some meta)"
  shows "\<exists>l'. ledger_rawTxInsert key txn (Some meta) l = Inr l' \<and>
    ledger_txs_ok (T(key \<mapsto> (txn, Some meta))) l' \<and> stateMap l' = stateMap l \<and> info_feePool l' = info_feePool l"
proof -
  have T: "T = ledger_txs l" and ok: "txMap_ok l" using assms(1) by (simp_all add: ledger_txs_ok_def)
  have k: "map_of (txMap l) key = None" using assms(2) ledger_txs_None [OF ok] by (simp add: T)
  have f: "length txn \<le> 918744" "length meta \<le> 918744" using assms(3) by (simp_all add: tx_fits_def)
  let ?l = "l\<lparr>txMap := smap_put key (vl_bytes txn @ vl_bytes meta) (txMap l)\<rparr>"
  have r: "ledger_txRead ?l = (ledger_txRead l)(key := Inr (Some (txn, meta)))"
    using ok f by (intro ledger_txRead_put) (simp_all add: txMap_ok_def)
  have "ledger_txs ?l = T(key \<mapsto> (txn, Some meta))" by (simp add: T ledger_txs_def r fun_eq_iff)
  moreover have "txMap_ok ?l" using ok by (simp add: txMap_ok_def r smap_ok_put)
  ultimately show ?thesis
    using assms(1) k f by (simp add: ledger_rawTxInsert_def addVL_bytes ledger_txs_ok_def ledger_ok_def)
qed

interpretation ledger_target: txs_target ledger_txs_raw ledger_txs_ok "\<lambda>l. map_of (stateMap l)"
  info_feePool tx_fits
proof (unfold_locales, goal_cases)
  case (1 T s e)
  from ledger.erase [OF ledger_txs_okD [OF 1(1)] 1(2)] ledger_raw_txMap(1) ledger_txs_ok_cong [OF 1(1)]
  show ?case by (metis ledger_txs_raw_simps(1))
next
  case (2 T s e)
  from ledger.insert [OF ledger_txs_okD [OF 2(1)] 2(2)] ledger_raw_txMap(2) ledger_txs_ok_cong [OF 2(1)]
  show ?case by (metis ledger_txs_raw_simps(1))
next
  case (3 T s e)
  from ledger.replace [OF ledger_txs_okD [OF 3(1)] 3(2)] ledger_raw_txMap(3) ledger_txs_ok_cong [OF 3(1)]
  show ?case by (metis ledger_txs_raw_simps(1))
next
  case (4 T s fee)
  have "ledger_txs_ok T (rawDestroyM ledger_raw fee s)"
    by (rule ledger_txs_ok_cong [OF 4 conjunct1 [OF ledger.destroy [OF ledger_txs_okD [OF 4]]] ledger_raw_txMap(4)])
  with ledger.destroy [OF ledger_txs_okD [OF 4], of fee] show ?case by simp
next
  case (5 T s key txn meta)
  then obtain mt where "meta = Some mt" by (auto simp: tx_fits_def split: option.splits)
  with ledger_rawTxInsert_ok [OF 5(1,2), of txn mt] 5(3) show ?case by auto
next
  case (6 T s key txn meta)
  then have "map_of (txMap s) key \<noteq> None" using ledger_txs_None [of s key] by (auto simp: ledger_txs_ok_def)
  with 6(3) show ?case
    by (auto simp: ledger_rawTxInsert_def tx_fits_def addVL_bytes split: option.splits)
qed



end
