(* ===== verification/STAmountWire.thy ===== *)
theory STAmountWire
  imports STAmount WireCodec
begin

unbundle bit_operations_syntax

text \<open>
  The wire form of an amount, \<^verbatim>\<open>protocol/impl/STAmount.cpp\<close>: \<^verbatim>\<open>STAmount::add\<close> and the
  constructor that reads from a \<^verbatim>\<open>SerialIter\<close>. A native amount is one 64-bit word with the
  sign in bit 62; an issued one a word with bit 63 set, ten bits of flags and exponent, 54 bits
  of mantissa, followed by the 20 bytes of the currency and of the issuer.
\<close>

definition cNotNative :: "64 word" where "cNotNative = 0x8000000000000000"
definition cPosNative :: "64 word" where "cPosNative = 0x4000000000000000"

definition st_serialize :: "STAmount \<Rightarrow> Blob \<Rightarrow> Blob" where
  "st_serialize a s =
     (if mIsNative a then
        if \<not> mIsNegative a then snd (add64 (word_of_int (mValue a) OR cPosNative) s)
        else snd (add64 (word_of_int (mValue a)) s)
      else
        let s1 =
          (if is_zero a then snd (add64 cNotNative s)
           else if mIsNegative a
           then snd (add64 (word_of_int (mValue a) OR push_bit 54 (word_of_int (mOffset a + 512 + 97))) s)
           else snd (add64 (word_of_int (mValue a) OR push_bit 54 (word_of_int (mOffset a + 512 + 256 + 97))) s))
        in snd (addBitString 20 (account (mIssue a)) (snd (addBitString 20 (currency (mIssue a)) s1))))"

definition st_read_native :: "64 word \<Rightarrow> STAmount result" where
  "st_read_native v =
     (if v AND cPosNative \<noteq> 0
      then Inr \<lparr>mIssue = mIssue0, mValue = uint (v AND NOT cPosNative), mOffset = 0, mIsNative = True,
                mIsNegative = False, mDecimal = 0\<rparr>
      else if v = 0 then Inl (runtime_error ''negative zero is not canonical'')
      else Inr \<lparr>mIssue = mIssue0, mValue = uint v, mOffset = 0, mIsNative = True,
                mIsNegative = True, mDecimal = 0\<rparr>)"

definition st_read_issued :: "64 word \<Rightarrow> Issue \<Rightarrow> STAmount result" where
  "st_read_issued v issue =
     (let offset = uint (drop_bit 54 v); value = uint (v AND NOT (push_bit 54 1023)) in
      if value \<noteq> 0 then
        let isNegative = (offset AND 256 = 0); offset = (offset AND 255) - 97 in
        if value < cMinValue \<or> value > cMaxValue \<or> offset < cMinOffset \<or> offset > cMaxOffset
        then Inl (runtime_error ''invalid currency value'')
        else canonicalize \<lparr>mIssue = issue, mValue = value, mOffset = offset, mIsNative = False,
                           mIsNegative = isNegative, mDecimal = 0\<rparr>
      else if offset \<noteq> 512 then Inl (runtime_error ''invalid currency value'')
      else canonicalize \<lparr>mIssue = issue, mValue = 0, mOffset = 0, mIsNative = False,
                         mIsNegative = False, mDecimal = 0\<rparr>)"

definition st_deserialize :: "SerialIter \<Rightarrow> (STAmount \<times> SerialIter) result" where
  "st_deserialize it =
     rbind (si_get64 it) (\<lambda>(v, it).
       if v AND cNotNative = 0 then rbind (st_read_native v) (\<lambda>a. Inr (a, it))
       else
         rbind (si_getBitString 20 it) (\<lambda>(cur, it).
           if cur = 0 then Inl (runtime_error ''invalid native currency'')
           else rbind (si_getBitString 20 it) (\<lambda>(acc, it).
             if acc = 0 then Inl (runtime_error ''invalid native account'')
             else rbind (st_read_issued v \<lparr>currency = cur, account = acc\<rparr>) (\<lambda>a. Inr (a, it)))))"

subsection \<open>The 64-bit word\<close>

text \<open>Ten high bits \<open>k\<close> over 54 low bits \<open>m\<close>.\<close>

lemma word_parts:
  assumes "0 \<le> m" "m < 2 ^ 54" "0 \<le> k" "k < 1024"
  shows "uint (word_of_int m OR push_bit 54 (word_of_int k) :: 64 word) = k * 2 ^ 54 + m"
proof -
  have t: "take_bit 54 m = m" using assms by (simp add: take_bit_eq_mod)
  have nb: "\<not> bit m n" if "54 \<le> n" for n
    using bit_take_bit_iff [of 54 m n] that unfolding t by simp
  have "m AND push_bit 54 k = 0"
    by (rule bit_eqI) (auto simp: bit_and_iff bit_push_bit_iff nb)
  then have o: "m + push_bit 54 k = m OR push_bit 54 k" by (rule disjunctive_add_eq_or)
  have "word_of_int m OR push_bit 54 (word_of_int k) = (word_of_int (m OR push_bit 54 k) :: 64 word)"
    by (rule bit_word_eqI) (auto simp: bit_or_iff bit_push_bit_iff bit_word_of_int_iff)
  also have "uint \<dots> = (m + push_bit 54 k) mod 2 ^ 64"
    unfolding o [symmetric] by (simp only: uint_word_of_int) simp
  also have "\<dots> = k * 2 ^ 54 + m" using assms by (simp add: push_bit_eq_mult)
  finally show ?thesis .
qed

lemma bit_1023: "i < 10 \<Longrightarrow> bit (1023 :: 64 word) i"
proof -
  assume "i < 10"
  then have "bit (mask 10 :: 64 word) i" by (simp only: bit_mask_iff) simp
  moreover have "(1023 :: 64 word) = mask 10" by (simp add: mask_eq_exp_minus_1)
  ultimately show "bit (1023 :: 64 word) i" by metis
qed

lemma word_low: "uint ((w :: 64 word) AND NOT (push_bit 54 1023)) = uint w mod 2 ^ 54"
proof -
  have t: "w AND NOT (push_bit 54 1023) = take_bit 54 w"
  proof (rule bit_word_eqI)
    fix n assume n: "n < LENGTH(64)"
    have "bit (1023 :: 64 word) (n - 54)" if "54 \<le> n"
      using n that bit_1023 [of "n - 54"] by simp
    then show "bit (w AND NOT (push_bit 54 1023)) n = bit (take_bit 54 w) n"
      using n unfolding bit_and_iff bit_not_iff bit_push_bit_iff bit_take_bit_iff by auto
  qed
  show ?thesis unfolding t unsigned_take_bit_eq unfolding take_bit_eq_mod by (rule refl)
qed

lemma word_top:
  "(w :: 64 word) AND cNotNative = 0 \<longleftrightarrow> uint w < 2 ^ 63"
  "w AND cPosNative = 0 \<longleftrightarrow> \<not> bit w 62"
proof -
  have c: "cNotNative = 2 ^ 63" "cPosNative = 2 ^ 62" by (simp_all add: cNotNative_def cPosNative_def)
  have "bit w 63 \<longleftrightarrow> bit (uint w) 63" by (simp add: bit_uint_iff)
  also have "\<dots> \<longleftrightarrow> odd (uint w div 2 ^ 63)" by (rule bit_iff_odd)
  finally have "bit w 63 \<longleftrightarrow> odd (uint w div 2 ^ 63)" .
  moreover have "uint w div 2 ^ 63 = (if uint w < 2 ^ 63 then 0 else 1)"
    using uint_lt2p [of w] by (auto simp: div_pos_geq)
  ultimately show "w AND cNotNative = 0 \<longleftrightarrow> uint w < 2 ^ 63"
    unfolding c and_exp_eq_0_iff_not_bit by simp
  show "w AND cPosNative = 0 \<longleftrightarrow> \<not> bit w 62" unfolding c by (rule and_exp_eq_0_iff_not_bit)
qed

lemma word_high: "uint (drop_bit 54 (w :: 64 word)) = uint w div 2 ^ 54"
  using uint_lt2p [of w] unfolding unsigned_drop_bit_eq unfolding drop_bit_eq_div take_bit_eq_mod by simp

lemma flag_bits:
  "(k :: int) AND 255 = k mod 256" "k AND 256 = 0 \<longleftrightarrow> even (k div 256)"
proof -
  show "k AND 255 = k mod 256" by (rule and_255_int)
  have "k AND 2 ^ 8 = 0 \<longleftrightarrow> \<not> bit k 8" by (rule and_exp_eq_0_iff_not_bit)
  then show "k AND 256 = 0 \<longleftrightarrow> even (k div 256)" by (simp add: bit_iff_odd)
qed

subsection \<open>Native amounts\<close>

lemma low_bits: "0 \<le> m \<Longrightarrow> m < 2 ^ 62 \<Longrightarrow> 62 \<le> n \<Longrightarrow> \<not> bit (word_of_int m :: 64 word) n"
proof -
  assume m: "0 \<le> m" "m < 2 ^ 62" and n: "62 \<le> n"
  have t: "take_bit 62 m = m" using m by (simp add: take_bit_eq_mod)
  show ?thesis using bit_take_bit_iff [of 62 m n] n unfolding t by (simp add: bit_word_of_int_iff)
qed

lemma bit_cPosNative: "bit cPosNative n \<longleftrightarrow> n = 62"
proof -
  have c: "cPosNative = 2 ^ 62" by (simp add: cPosNative_def)
  show ?thesis unfolding c bit_exp_iff by auto
qed

lemma uint_word64: "0 \<le> m \<Longrightarrow> m < 2 ^ 64 \<Longrightarrow> uint (word_of_int m :: 64 word) = m"
  by (simp only: uint_word_of_int) simp

lemma read_native_write:
  assumes "0 \<le> m" "m < 2 ^ 62" "neg \<longrightarrow> m \<noteq> 0"
  shows "(if neg then word_of_int m else word_of_int m OR cPosNative) AND cNotNative = 0"
    and "st_read_native (if neg then word_of_int m else word_of_int m OR cPosNative) =
      Inr \<lparr>mIssue = mIssue0, mValue = m, mOffset = 0, mIsNative = True, mIsNegative = neg, mDecimal = 0\<rparr>"
proof -
  let ?w = "word_of_int m :: 64 word"
  note lo = low_bits [OF assms(1,2)]
  have m: "uint ?w = m" using assms by (intro uint_word64) auto
  have c: "cNotNative = 2 ^ 63" by (simp add: cNotNative_def)
  show "(if neg then ?w else ?w OR cPosNative) AND cNotNative = 0"
    unfolding c and_exp_eq_0_iff_not_bit using lo [of 63] by (simp add: bit_or_iff bit_cPosNative)
  have undo: "(?w OR cPosNative) AND NOT cPosNative = ?w"
    by (rule bit_word_eqI) (use lo [of 62] in \<open>auto simp: bit_and_iff bit_or_iff bit_not_iff bit_cPosNative\<close>)
  have pos: "(?w OR cPosNative) AND cPosNative \<noteq> 0"
    unfolding word_top(2) by (simp add: bit_or_iff bit_cPosNative)
  have "?w AND cPosNative = 0" unfolding word_top(2) using lo [of 62] by simp
  moreover have "?w \<noteq> 0" if neg using assms(3) m that by auto
  ultimately show "st_read_native (if neg then ?w else ?w OR cPosNative) =
      Inr \<lparr>mIssue = mIssue0, mValue = m, mOffset = 0, mIsNative = True, mIsNegative = neg, mDecimal = 0\<rparr>"
    using undo pos m if_P [OF pos] by (cases neg) (auto simp: st_read_native_def)
qed

subsection \<open>Issued amounts\<close>

text \<open>The ten high bits of a non-zero amount.\<close>

definition wire_bits :: "STAmount \<Rightarrow> int" where
  "wire_bits a = mOffset a + 512 + (if mIsNegative a then 0 else 256) + 97"

definition issued_word :: "STAmount \<Rightarrow> 64 word" where
  "issued_word a = (if is_zero a then cNotNative
     else word_of_int (mValue a) OR push_bit 54 (word_of_int (wire_bits a)))"

lemma st_serialize_issued:
  "\<not> mIsNative a \<Longrightarrow> st_serialize a s =
     s @ be_bytes 8 (uint (issued_word a)) @ be_bytes 20 (currency (mIssue a)) @ be_bytes 20 (account (mIssue a))"
  by (simp add: st_serialize_def issued_word_def wire_bits_def add64_bytes addBitString_def algebra_simps)

lemma st_serialize_native:
  "mIsNative a \<Longrightarrow> st_serialize a s =
     s @ be_bytes 8 (uint (if mIsNegative a then word_of_int (mValue a) else word_of_int (mValue a) OR cPosNative))"
  by (simp add: st_serialize_def add64_bytes)

definition issued_ok :: "STAmount \<Rightarrow> bool" where
  "issued_ok a \<longleftrightarrow> \<not> mIsNative a \<and> mValue a \<noteq> 0 \<and> cMinValue \<le> mValue a \<and> mValue a \<le> cMaxValue \<and>
     cMinOffset \<le> mOffset a \<and> mOffset a \<le> cMaxOffset"

lemma uint_issued_word:
  assumes "issued_ok a"
  shows "uint (issued_word a) = wire_bits a * 2 ^ 54 + mValue a" "512 \<le> wire_bits a" "wire_bits a < 1024"
    "wire_bits a mod 256 - 97 = mOffset a" "even (wire_bits a div 256) = mIsNegative a"
proof -
  note b = assms [unfolded issued_ok_def amount_simps]
  show k: "512 \<le> wire_bits a" "wire_bits a < 1024" using b by (simp_all add: wire_bits_def)
  have "wire_bits a = (mOffset a + 97) + 256 * (if mIsNegative a then 2 else 3)"
    by (simp add: wire_bits_def)
  then have "wire_bits a mod 256 = mOffset a + 97 \<and> wire_bits a div 256 = (if mIsNegative a then 2 else 3)"
    using b by simp
  then show "wire_bits a mod 256 - 97 = mOffset a" "even (wire_bits a div 256) = mIsNegative a" by auto
  have "\<not> is_zero a" using b by simp
  then have w: "issued_word a = word_of_int (mValue a) OR push_bit 54 (word_of_int (wire_bits a))"
    unfolding issued_word_def by (rule if_not_P)
  show "uint (issued_word a) = wire_bits a * 2 ^ 54 + mValue a"
    unfolding w by (rule word_parts) (use b k in simp_all)
qed

lemma st_read_issued_arith:
  "st_read_issued v issue =
     (let k = uint v div 2 ^ 54; m = uint v mod 2 ^ 54 in
      if m \<noteq> 0 then
        if m < cMinValue \<or> m > cMaxValue \<or> k mod 256 - 97 < cMinOffset \<or> k mod 256 - 97 > cMaxOffset
        then Inl (runtime_error ''invalid currency value'')
        else canonicalize \<lparr>mIssue = issue, mValue = m, mOffset = k mod 256 - 97, mIsNative = False,
                           mIsNegative = even (k div 256), mDecimal = 0\<rparr>
      else if k \<noteq> 512 then Inl (runtime_error ''invalid currency value'')
      else canonicalize \<lparr>mIssue = issue, mValue = 0, mOffset = 0, mIsNative = False,
                         mIsNegative = False, mDecimal = 0\<rparr>)"
  unfolding st_read_issued_def word_low word_high flag_bits Let_def by (rule refl)

text \<open>\<^verbatim>\<open>canonicalize\<close> keeps an amount that is canonical already and sets its decimals.\<close>

lemma canonicalize_issued_ok:
  assumes "\<not> isM issue" "cMinValue \<le> m" "m \<le> cMaxValue" "cMinOffset \<le> e" "e \<le> cMaxOffset"
  shows "canonicalize \<lparr>mIssue = issue, mValue = m, mOffset = e, mIsNative = False, mIsNegative = neg, mDecimal = 0\<rparr> =
    Inr \<lparr>mIssue = issue, mValue = m, mOffset = e, mIsNative = False, mIsNegative = neg, mDecimal = decimals m e\<rparr>"
proof -
  have "iou_ok \<lparr>mantissa = m, exponent = e\<rparr>" using assms by (simp add: iou_ok_def amount_simps)
  from normalize_canonical [OF this] show ?thesis
    using assms by (simp add: canonicalize_norm amount_simps)
qed

lemma canonicalize_issued_zero:
  assumes "\<not> isM issue"
  shows "canonicalize \<lparr>mIssue = issue, mValue = 0, mOffset = 0, mIsNative = False, mIsNegative = False, mDecimal = 0\<rparr> =
    Inr \<lparr>mIssue = issue, mValue = 0, mOffset = - 100, mIsNative = False, mIsNegative = False, mDecimal = 0\<rparr>"
  using assms by (simp add: canonicalize_def)

text \<open>The amounts that can be written so that they are read back.\<close>

definition wire_ok :: "STAmount \<Rightarrow> bool" where
  "wire_ok a \<longleftrightarrow> st_ok a \<and>
     (if mIsNative a then mIssue a = mIssue0 \<and> mValue a < 2 ^ 62 \<and> mDecimal a = 0
      else 0 < currency (mIssue a) \<and> currency (mIssue a) < 2 ^ 160 \<and>
        0 < account (mIssue a) \<and> account (mIssue a) < 2 ^ 160 \<and>
        mDecimal a = (if mValue a = 0 then 0 else decimals (mValue a) (mOffset a)))"

lemma wire_ok_issued:
  assumes "wire_ok a" "\<not> mIsNative a"
  obtains "mValue a = 0" "a = \<lparr>mIssue = mIssue a, mValue = 0, mOffset = - 100, mIsNative = False,
      mIsNegative = False, mDecimal = 0\<rparr>"
  | "issued_ok a" "a = \<lparr>mIssue = mIssue a, mValue = mValue a, mOffset = mOffset a, mIsNative = False,
      mIsNegative = mIsNegative a, mDecimal = decimals (mValue a) (mOffset a)\<rparr>"
proof (cases "mValue a = 0")
  case True
  have "mOffset a = - 100" "\<not> mIsNegative a" "mDecimal a = 0"
    using assms True by (auto simp: wire_ok_def st_ok_def st_abs_def iou_ok_def iou_zero_def amount_simps)
  with True assms(2) show ?thesis by (intro that(1) STAmount.equality) simp_all
next
  case False
  have "issued_ok a" "mDecimal a = decimals (mValue a) (mOffset a)"
    using assms False
    by (auto simp: wire_ok_def st_ok_def st_abs_def iou_ok_def iou_zero_def issued_ok_def amount_simps split: if_splits)
  with assms(2) show ?thesis by (intro that(2) STAmount.equality) simp_all
qed

lemma read_issued_word:
  assumes "wire_ok a" "\<not> mIsNative a"
  shows "issued_word a AND cNotNative \<noteq> 0" "st_read_issued (issued_word a) (mIssue a) = Inr a"
proof -
  have i: "\<not> isM (mIssue a)" using assms by (simp add: wire_ok_def st_ok_def)
  have "issued_word a AND cNotNative \<noteq> 0 \<and> st_read_issued (issued_word a) (mIssue a) = Inr a"
  proof (rule wire_ok_issued [OF assms])
    assume z: "mValue a = 0" and a: "a = \<lparr>mIssue = mIssue a, mValue = 0, mOffset = - 100, mIsNative = False,
      mIsNegative = False, mDecimal = 0\<rparr>"
    have "issued_word a = cNotNative" using z by (simp add: issued_word_def)
    moreover have "uint cNotNative = 512 * 2 ^ 54" by (simp add: cNotNative_def)
    ultimately show ?thesis
      using canonicalize_issued_zero [OF i] a unfolding st_read_issued_arith word_top(1) by simp
  next
    assume ok: "issued_ok a" and a: "a = \<lparr>mIssue = mIssue a, mValue = mValue a, mOffset = mOffset a, mIsNative = False,
      mIsNegative = mIsNegative a, mDecimal = decimals (mValue a) (mOffset a)\<rparr>"
    note b = ok [unfolded issued_ok_def] and u = uint_issued_word [OF ok]
    have m: "0 \<le> mValue a" "mValue a < 2 ^ 54" using b by (simp_all add: amount_simps)
    have k: "uint (issued_word a) div 2 ^ 54 = wire_bits a" "uint (issued_word a) mod 2 ^ 54 = mValue a"
      unfolding u(1) using m by simp_all
    have "uint (issued_word a) \<ge> 512 * 2 ^ 54" unfolding u(1) using u(2) m by simp
    moreover have "st_read_issued (issued_word a) (mIssue a) =
        canonicalize \<lparr>mIssue = mIssue a, mValue = mValue a, mOffset = mOffset a, mIsNative = False,
          mIsNegative = mIsNegative a, mDecimal = 0\<rparr>"
      unfolding st_read_issued_arith Let_def k u(4,5) using b by simp
    ultimately show ?thesis
      using canonicalize_issued_ok [OF i, of "mValue a" "mOffset a" "mIsNegative a"] b a
      unfolding word_top(1) by simp
  qed
  then show "issued_word a AND cNotNative \<noteq> 0" "st_read_issued (issued_word a) (mIssue a) = Inr a" by simp_all
qed

subsection \<open>Both directions\<close>

lemma read_amount:
  assumes w: "wire_ok a" and ok: "si_ok it" and l: "si_left it = st_serialize a [] @ rest"
  shows "st_deserialize it = Inr (a, advance (length (st_serialize a [])) it)"
proof (cases "mIsNative a")
  case True
  let ?w = "if mIsNegative a then word_of_int (mValue a) else word_of_int (mValue a) OR cPosNative"
  have e: "st_serialize a [] = snd (add64 ?w [])" using True by (simp add: st_serialize_native add64_bytes)
  have m: "0 \<le> mValue a" "mValue a < 2 ^ 62" "mIsNegative a \<longrightarrow> mValue a \<noteq> 0"
    and f: "mIssue a = mIssue0" "mOffset a = 0" "mDecimal a = 0"
    using w True by (auto simp: wire_ok_def st_ok_def)
  have a: "\<lparr>mIssue = mIssue0, mValue = mValue a, mOffset = 0, mIsNative = True, mIsNegative = mIsNegative a,
      mDecimal = 0\<rparr> = a" using True f by (intro STAmount.equality) simp_all
  note r = read_native_write [OF m, unfolded a]
  show ?thesis
    using u64.get_enc [OF TrueI ok, of ?w rest] l unfolding st_deserialize_def e
    by (simp add: r del: add64_def)
next
  case False
  let ?c = "currency (mIssue a)" and ?i = "account (mIssue a)"
  have b: "0 < ?c" "?c < 2 ^ 160" "0 < ?i" "?i < 2 ^ 160" using w False by (simp_all add: wire_ok_def)
  have e: "st_serialize a [] = snd (add64 (issued_word a) []) @ snd (addBitString 20 ?c []) @ snd (addBitString 20 ?i [])"
    using False by (simp add: st_serialize_issued add64_bytes addBitString_def)
  have l0: "si_left it = snd (add64 (issued_word a) []) @ (snd (addBitString 20 ?c []) @ snd (addBitString 20 ?i []) @ rest)"
    using l e by simp
  note 1 = u64.get_enc [OF TrueI ok l0] u64.after [OF ok l0, THEN conjunct1] u64.after [OF ok l0, THEN conjunct2]
  have v: "0 \<le> ?c \<and> ?c < 256 ^ 20" "0 \<le> ?i \<and> ?i < 256 ^ 20" using b by simp_all
  note 2 = bits.get_enc [OF v(1) 1(2,3)] bits.after [OF 1(2,3), THEN conjunct1] bits.after [OF 1(2,3), THEN conjunct2]
  note 3 = bits.get_enc [OF v(2) 2(2,3)]
  have i: "\<lparr>currency = ?c, account = ?i\<rparr> = mIssue a" by (intro Issue.equality) simp_all
  have r: "st_read_issued (issued_word a) \<lparr>currency = ?c, account = ?i\<rparr> = Inr a"
    unfolding i using read_issued_word [OF w False] by simp
  show ?thesis
    unfolding st_deserialize_def e using 1(1) 2(1) 3 r read_issued_word [OF w False] b
    by (simp add: advance_advance add.assoc)
qed

interpretation amount: codec wire_ok "\<lambda>a. st_serialize a []" st_deserialize
  by unfold_locales (rule read_amount)

lemma si_get64_inv:
  assumes "si_ok it" "si_get64 it = Inr (v, it')"
  shows "si_ok it'" "si_left it = be_bytes 8 (uint v) @ si_left it'"
proof -
  have r: "8 \<le> si_remain it" using assms(2) by (auto simp: si_get64_def split: if_splits)
  note g = si_get64_be [OF assms(1) r] and a = advance_ok(1,2) [OF assms(1) r]
  have e: "v = word_of_int (be_int (take 8 (si_left it)))" "it' = advance 8 it" using assms(2) g by auto
  show "si_ok it'" using a e by simp
  have len: "length (take 8 (si_left it)) = 8" using si_left_length [OF assms(1)] r by simp
  have "be_int (take 8 (si_left it)) < 2 ^ 64" "0 \<le> be_int (take 8 (si_left it))"
    using be_int_bounds [of "take 8 (si_left it)"] unfolding len by simp_all
  then have "uint v = be_int (take 8 (si_left it))" unfolding e by (intro uint_word64)
  then have "be_bytes 8 (uint v) = take 8 (si_left it)" using be_bytes_int [of "take 8 (si_left it)"] unfolding len by simp
  then show "si_left it = be_bytes 8 (uint v) @ si_left it'" using a e by simp
qed

lemma si_getBitString_inv:
  assumes "si_ok it" "si_getBitString n it = Inr (x, it')"
  shows "si_ok it'" "si_left it = be_bytes n x @ si_left it'" "0 \<le> x" "x < 256 ^ n"
proof -
  have r: "n \<le> si_remain it" and e: "x = be_int (take n (si_left it))" "it' = advance n it"
    using assms(2) by (auto simp: si_getBitString_def bytes_at_left split: if_splits)
  note a = advance_ok(1,2) [OF assms(1) r]
  have len: "length (take n (si_left it)) = n" using si_left_length [OF assms(1)] r by simp
  show "0 \<le> x" "x < 256 ^ n" using be_int_bounds [of "take n (si_left it)"] unfolding len e by simp_all
  have "be_bytes n x = take n (si_left it)" using be_bytes_int [of "take n (si_left it)"] unfolding len e .
  then show "si_left it = be_bytes n x @ si_left it'" using a e by simp
  show "si_ok it'" using a e by simp
qed

lemma read_native_inv:
  assumes "v AND cNotNative = 0" "st_read_native v = Inr a"
  shows "wire_ok a" "st_serialize a [] = be_bytes 8 (uint v)"
proof -
  have c: "cNotNative = 2 ^ 63" by (simp add: cNotNative_def)
  have b63: "\<not> bit v 63" using assms(1) unfolding c and_exp_eq_0_iff_not_bit .
  have hi: "n < 62 \<or> n = 62" if "bit v n" for n
  proof -
    have "n < 64" using bit_imp_le_length [OF that] by simp
    moreover have "n \<noteq> 63" using that b63 by auto
    ultimately show ?thesis by linarith
  qed
  have lo: "v AND NOT cPosNative = take_bit 62 v"
    by (rule bit_word_eqI) (auto simp: bit_and_iff bit_not_iff bit_take_bit_iff bit_cPosNative dest: hi)
  have lo_u: "uint (take_bit 62 v) = uint v mod 2 ^ 62"
    unfolding unsigned_take_bit_eq unfolding take_bit_eq_mod by (rule refl)
  have "wire_ok a \<and> st_serialize a [] = be_bytes 8 (uint v)"
  proof (cases "bit v 62")
    case True
    then have a: "a = \<lparr>mIssue = mIssue0, mValue = uint (take_bit 62 v), mOffset = 0, mIsNative = True,
        mIsNegative = False, mDecimal = 0\<rparr>"
      using assms(2) lo unfolding st_read_native_def word_top(2) by simp
    have "take_bit 62 v OR cPosNative = v"
      by (rule bit_word_eqI) (use True in \<open>auto simp: bit_or_iff bit_take_bit_iff bit_cPosNative dest: hi\<close>)
    then have "st_serialize a [] = be_bytes 8 (uint v)" by (simp add: st_serialize_native a)
    then show ?thesis using lo_u by (simp add: a wire_ok_def st_ok_def isM_def mIssue0_def)
  next
    case False
    then have v: "v \<noteq> 0" and a: "a = \<lparr>mIssue = mIssue0, mValue = uint v, mOffset = 0, mIsNative = True,
        mIsNegative = True, mDecimal = 0\<rparr>"
      using assms(2) unfolding st_read_native_def word_top(2) by (auto split: if_splits)
    have "v = take_bit 62 v"
      by (rule bit_word_eqI) (use False in \<open>auto simp: bit_take_bit_iff dest: hi\<close>)
    then have "uint v < 2 ^ 62" using lo_u by (metis pos_mod_bound zero_less_numeral zero_less_power)
    then show ?thesis using v by (simp add: a wire_ok_def st_ok_def isM_def mIssue0_def st_serialize_native unsigned_eq_0_iff)
  qed
  then show "wire_ok a" "st_serialize a [] = be_bytes 8 (uint v)" by simp_all
qed

lemma issued_bits:
  assumes "uint (v :: 64 word) \<ge> 2 ^ 63"
  shows "512 \<le> uint v div 2 ^ 54" "uint v div 2 ^ 54 < 1024"
    "uint v div 2 ^ 54 = (uint v div 2 ^ 54) mod 256 + 512 + (if even (uint v div 2 ^ 54 div 256) then 0 else 256)"
proof -
  define k where "k = uint v div 2 ^ 54"
  have "uint v < 2 ^ 64" using uint_lt2p [of v] by simp
  then have k: "512 \<le> k" "k < 1024" using assms by (auto simp: k_def)
  then have "k div 256 = 2 \<or> k div 256 = 3" by auto
  moreover have "k = k div 256 * 256 + k mod 256" by (rule div_mult_mod_eq [symmetric])
  ultimately have "k = k mod 256 + 512 + (if even (k div 256) then 0 else 256)" by (elim disjE) presburger+
  with k show "512 \<le> uint v div 2 ^ 54" "uint v div 2 ^ 54 < 1024"
    "uint v div 2 ^ 54 = (uint v div 2 ^ 54) mod 256 + 512 + (if even (uint v div 2 ^ 54 div 256) then 0 else 256)"
    by (simp_all add: k_def)
qed

lemma read_issued_inv:
  assumes v: "v AND cNotNative \<noteq> 0" and r: "st_read_issued v issue = Inr a"
    and i: "0 < currency issue" "currency issue < 2 ^ 160" "0 < account issue" "account issue < 2 ^ 160"
  shows "wire_ok a" "\<not> mIsNative a" "mIssue a = issue" "issued_word a = v"
proof -
  have n: "\<not> isM issue" using i by (simp add: isM_def)
  have b: "uint v \<ge> 2 ^ 63" using v unfolding word_top(1) by simp
  define k where "k = uint v div 2 ^ 54"
  define m where "m = uint v mod 2 ^ 54"
  have km: "uint v = k * 2 ^ 54 + m" unfolding k_def m_def by (rule div_mult_mod_eq [symmetric])
  note k = issued_bits [OF b, folded k_def]
  note r = r [unfolded st_read_issued_arith, folded k_def m_def, unfolded Let_def]
  have "wire_ok a \<and> \<not> mIsNative a \<and> mIssue a = issue \<and> issued_word a = v"
  proof (cases "m = 0")
    case True
    then have "k = 512" and a: "a = \<lparr>mIssue = issue, mValue = 0, mOffset = - 100, mIsNative = False,
        mIsNegative = False, mDecimal = 0\<rparr>"
      using r canonicalize_issued_zero [OF n] by (auto split: if_splits)
    then have "uint v = uint cNotNative" using km True by (simp add: cNotNative_def)
    then have "v = cNotNative" by (rule word_uint_eqI)
    then show ?thesis using a n i
      by (simp add: wire_ok_def st_ok_def st_abs_def iou_ok_def iou_zero_def issued_word_def amount_simps)
  next
    case False
    then have c: "cMinValue \<le> m" "m \<le> cMaxValue" "cMinOffset \<le> k mod 256 - 97" "k mod 256 - 97 \<le> cMaxOffset"
      using r by (auto split: if_splits)
    note f = canonicalize_issued_ok [OF n c, of "even (k div 256)"]
    have a: "a = \<lparr>mIssue = issue, mValue = m, mOffset = k mod 256 - 97, mIsNative = False,
        mIsNegative = even (k div 256), mDecimal = decimals m (k mod 256 - 97)\<rparr>"
      using r f False c by (auto split: if_splits)
    have ok: "issued_ok a" using c False by (simp add: a issued_ok_def)
    have "wire_bits a = k" using k(3) by (simp add: a wire_bits_def)
    then have "uint (issued_word a) = uint v" using uint_issued_word(1) [OF ok] km by (simp add: a)
    then have "issued_word a = v" by (rule word_uint_eqI)
    then show ?thesis using a n i c False
      by (simp add: wire_ok_def st_ok_def st_abs_def iou_ok_def amount_simps)
  qed
  then show "wire_ok a" "\<not> mIsNative a" "mIssue a = issue" "issued_word a = v" by simp_all
qed

text \<open>
  C10. An amount survives its wire form: every canonical amount whose native part fits 62 bits
  and whose issue fits 160 bits, appended to any buffer and followed by any bytes, is read back
  unchanged by the constructor, decimals included, and the reader stops right behind it.
\<close>
theorem amount_wire_roundtrip:
  assumes "wire_ok a"
  shows "st_deserialize (advance (length s) (SerialIter_of (st_serialize a s @ rest))) =
    Inr (a, advance (length (st_serialize a s)) (SerialIter_of (st_serialize a s @ rest)))"
proof -
  have e: "st_serialize a s = s @ st_serialize a []"
    by (cases "mIsNative a") (simp_all add: st_serialize_native st_serialize_issued)
  let ?it = "advance (length s) (SerialIter_of (s @ st_serialize a [] @ rest))"
  have "si_ok ?it" "si_left ?it = st_serialize a [] @ rest" by (simp_all add: SerialIter_at)
  from amount.get_enc [OF assms this] show ?thesis
    unfolding e by (simp add: advance_advance)
qed

theorem amount_wire_roundtrip_witness:
  "st_deserialize (advance 1 (SerialIter_of (st_serialize
      \<lparr>mIssue = \<lparr>currency = 5, account = 6\<rparr>, mValue = 1250000000000000, mOffset = - 15, mIsNative = False,
       mIsNegative = True, mDecimal = 2\<rparr> [7] @ [8]))) =
   Inr (\<lparr>mIssue = \<lparr>currency = 5, account = 6\<rparr>, mValue = 1250000000000000, mOffset = - 15, mIsNative = False,
       mIsNegative = True, mDecimal = 2\<rparr>, advance 49 (SerialIter_of (st_serialize
      \<lparr>mIssue = \<lparr>currency = 5, account = 6\<rparr>, mValue = 1250000000000000, mOffset = - 15, mIsNative = False,
       mIsNegative = True, mDecimal = 2\<rparr> [7] @ [8])))"
proof -
  let ?a = "\<lparr>mIssue = \<lparr>currency = 5, account = 6\<rparr>, mValue = 1250000000000000, mOffset = - 15, mIsNative = False,
       mIsNegative = True, mDecimal = 2\<rparr>"
  have "decimals 1250000000000000 (- 15) = 2" by code_simp
  then have "wire_ok ?a" by (simp add: wire_ok_def st_ok_def isM_def iou_ok_def st_abs_def amount_simps)
  from amount_wire_roundtrip [OF this, of "[7]" "[8]"] show ?thesis
    by (simp add: st_serialize_issued)
qed

text \<open>C9. No amount has two encodings: whatever the constructor reads from a stream is
  a canonical amount, and the bytes it consumed are exactly those \<^verbatim>\<open>add\<close> writes for it.\<close>

theorem amount_not_malleable:
  assumes ok: "si_ok it" and d: "st_deserialize it = Inr (a, it')"
  shows "wire_ok a \<and> si_left it = st_serialize a [] @ si_left it'"
proof -
  obtain v it1 where v: "si_get64 it = Inr (v, it1)"
    using d by (cases "si_get64 it") (auto simp: st_deserialize_def)
  note g = si_get64_inv [OF ok v]
  show ?thesis
  proof (cases "v AND cNotNative = 0")
    case True
    then have "st_read_native v = Inr a" "it' = it1"
      using d v by (auto simp: st_deserialize_def rbind_Inr_iff)
    with g read_native_inv [OF True] show ?thesis by simp
  next
    case False
    from d v False obtain cur it2 acc where
      c: "si_getBitString 20 it1 = Inr (cur, it2)" "cur \<noteq> 0" "si_getBitString 20 it2 = Inr (acc, it')" "acc \<noteq> 0"
      and r: "st_read_issued v \<lparr>currency = cur, account = acc\<rparr> = Inr a"
      by (auto simp: st_deserialize_def rbind_Inr_iff split: if_splits)
    note c1 = si_getBitString_inv [OF g(1) c(1)]
    note c2 = si_getBitString_inv [OF c1(1) c(3)]
    have "wire_ok a" "\<not> mIsNative a" "mIssue a = \<lparr>currency = cur, account = acc\<rparr>" "issued_word a = v"
      using read_issued_inv [OF False r] c c1 c2 by simp_all
    then show ?thesis using g c1 c2 by (simp add: st_serialize_issued)
  qed
qed

theorem amount_not_malleable_witness:
  "wire_ok \<lparr>mIssue = mIssue0, mValue = 5, mOffset = 0, mIsNative = True, mIsNegative = True, mDecimal = 0\<rparr> \<and>
   [0, 0, 0, 0, 0, 0, 0, 5] = st_serialize
     \<lparr>mIssue = mIssue0, mValue = 5, mOffset = 0, mIsNative = True, mIsNegative = True, mDecimal = 0\<rparr> []"
proof -
  let ?it = "SerialIter_of [0, 0, 0, 0, 0, 0, 0, 5]"
  have "st_deserialize ?it =
      Inr (\<lparr>mIssue = mIssue0, mValue = 5, mOffset = 0, mIsNative = True, mIsNegative = True, mDecimal = 0\<rparr>, advance 8 ?it)"
    by (simp add: st_deserialize_def si_get64_def SerialIter_of_def byte_at_def advance_def st_read_native_def
        cNotNative_def cPosNative_def)
  moreover have "length [0, 0, 0, 0, 0, 0, 0, 5 :: byte] = 8" by simp
  ultimately show ?thesis
    using amount_not_malleable [OF SerialIter_of_ok(1)] SerialIter_at(2) [of "[0, 0, 0, 0, 0, 0, 0, 5]" "[]"]
    by (metis SerialIter_of_ok(2) append_Nil2)
qed

end
