(* ===== verification/Indexes.thy ===== *)
theory Indexes
  imports LedgerView "HOL-Library.Countable"
begin

text \<open>
  \<^verbatim>\<open>protocol/impl/Indexes.cpp\<close>: the keys of ledger entries. A key is the SHA-512-half of a
  name space and the identifying values. The hash function is not part of this code: it is
  the argument \<open>sha\<close> of the definitions, a function of the list of values handed to
  \<^verbatim>\<open>sha512Half\<close>; \<open>hash_bytes\<close> is the byte string \<^verbatim>\<open>hash_append\<close> feeds to it for that list
  (big-endian integers, raw bytes of \<^verbatim>\<open>base_uint\<close>, byte strings followed by their size).
  \<open>collision_free\<close> is the property of the hash function the ledger relies on.
\<close>

datatype HashArg = hU16 int | hU32 int | hU64 int | hU160 int | hU256 nat | hBlob Blob

instance HashArg :: countable
  by countable_datatype

fun hash_append :: "HashArg \<Rightarrow> Blob" where
  "hash_append (hU16 x) = be_bytes 2 x"
| "hash_append (hU32 x) = be_bytes 4 x"
| "hash_append (hU64 x) = be_bytes 8 x"
| "hash_append (hU160 x) = be_bytes 20 x"
| "hash_append (hU256 x) = be_bytes 32 (int x)"
| "hash_append (hBlob b) = b @ be_bytes 8 (int (length b))"

definition hash_bytes :: "HashArg list \<Rightarrow> Blob" where
  "hash_bytes args = concat (map hash_append args)"

definition collision_free :: "(HashArg list \<Rightarrow> nat) \<Rightarrow> bool" where
  "collision_free sha \<longleftrightarrow> inj sha \<and> (\<forall>args. sha args \<noteq> 0)"

datatype LedgerNameSpace =
    spaceAccount | spaceDirNode | spaceGenerator | spaceMTChain | spaceOffer | spaceOwnerDir | spaceBookDir
  | spaceSkipList | spaceEscrow | spaceAmendment | spaceFee | spaceTicket | spaceSignerList | spaceMUChannel
  | spaceNFAsset | spaceNFToken | spaceNFTAuth | spaceNFTAccount | spaceNFTIndex | spaceNFTOwnerIndex
  | spaceNFAssetIndex

fun code :: "LedgerNameSpace \<Rightarrow> int" where
  "code spaceAccount = 97" | "code spaceDirNode = 100" | "code spaceGenerator = 103"
| "code spaceMTChain = 114" | "code spaceOffer = 111" | "code spaceOwnerDir = 79"
| "code spaceBookDir = 66" | "code spaceSkipList = 115" | "code spaceEscrow = 117"
| "code spaceAmendment = 102" | "code spaceFee = 101" | "code spaceTicket = 84"
| "code spaceSignerList = 83" | "code spaceMUChannel = 120" | "code spaceNFAsset = 78"
| "code spaceNFToken = 116" | "code spaceNFTAuth = 85" | "code spaceNFTAccount = 65"
| "code spaceNFTIndex = 73" | "code spaceNFTOwnerIndex = 105" | "code spaceNFAssetIndex = 80"

abbreviation hSpace :: "LedgerNameSpace \<Rightarrow> HashArg" where
  "hSpace s \<equiv> hU16 (code s)"

definition ltACCOUNT_ROOT :: int where "ltACCOUNT_ROOT = 97"
definition ltMTCHAIN_STATE :: int where "ltMTCHAIN_STATE = 114"
definition ltTICKET :: int where "ltTICKET = 84"
definition ltSIGNER_LIST :: int where "ltSIGNER_LIST = 83"
definition ltOFFER :: int where "ltOFFER = 111"
definition ltLEDGER_HASHES :: int where "ltLEDGER_HASHES = 104"
definition ltAMENDMENTS :: int where "ltAMENDMENTS = 102"
definition ltFEE_SETTINGS :: int where "ltFEE_SETTINGS = 115"
definition ltESCROW :: int where "ltESCROW = 117"
definition ltPAYCHAN :: int where "ltPAYCHAN = 120"
definition ltNFASSET :: int where "ltNFASSET = 78"
definition ltNFTOKEN :: int where "ltNFTOKEN = 116"
definition ltNFTAUTH :: int where "ltNFTAUTH = 85"
definition ltNFT_ACCOUNT :: int where "ltNFT_ACCOUNT = 65"
definition ltNFT_INDEX :: int where "ltNFT_INDEX = 73"
definition ltNFT_OWNER_INDEX :: int where "ltNFT_OWNER_INDEX = 105"
definition ltNFASSET_INDEX :: int where "ltNFASSET_INDEX = 80"

lemmas lt_codes = ltANY_def ltCHILD_def ltINVALID_def ltDIR_NODE_def ltACCOUNT_ROOT_def ltMTCHAIN_STATE_def
  ltTICKET_def ltSIGNER_LIST_def ltOFFER_def ltLEDGER_HASHES_def ltAMENDMENTS_def ltFEE_SETTINGS_def
  ltESCROW_def ltPAYCHAN_def ltNFASSET_def ltNFTOKEN_def ltNFTAUTH_def ltNFT_ACCOUNT_def ltNFT_INDEX_def
  ltNFT_OWNER_INDEX_def ltNFASSET_INDEX_def

subsection \<open>Indexes\<close>

definition getLedgerHashIndex0 :: "(HashArg list \<Rightarrow> nat) \<Rightarrow> nat" where
  "getLedgerHashIndex0 sha = sha [hSpace spaceSkipList]"

definition getLedgerHashIndex :: "(HashArg list \<Rightarrow> nat) \<Rightarrow> int \<Rightarrow> nat" where
  "getLedgerHashIndex sha desired = sha [hSpace spaceSkipList, hU32 (desired div 65536)]"

definition getLedgerAmendmentIndex :: "(HashArg list \<Rightarrow> nat) \<Rightarrow> nat" where
  "getLedgerAmendmentIndex sha = sha [hSpace spaceAmendment]"

definition getLedgerFeeIndex :: "(HashArg list \<Rightarrow> nat) \<Rightarrow> nat" where
  "getLedgerFeeIndex sha = sha [hSpace spaceFee]"

definition getAccountRootIndex :: "(HashArg list \<Rightarrow> nat) \<Rightarrow> int \<Rightarrow> nat" where
  "getAccountRootIndex sha account = sha [hSpace spaceAccount, hU160 account]"

definition getGeneratorIndex :: "(HashArg list \<Rightarrow> nat) \<Rightarrow> int \<Rightarrow> nat" where
  "getGeneratorIndex sha gen = sha [hSpace spaceGenerator, hU160 gen]"

definition getQualityIndex :: "nat \<Rightarrow> nat \<Rightarrow> nat" where
  "getQualityIndex uBase uNodeDir = uBase div 2 ^ 64 * 2 ^ 64 + uNodeDir"

definition getQualityNext :: "nat \<Rightarrow> nat" where
  "getQualityNext uBase = (uBase + 0x10000000000000000) mod 2 ^ 256"

definition getQuality :: "nat \<Rightarrow> nat" where
  "getQuality uBase = uBase mod 2 ^ 64"

definition getBookBase :: "(HashArg list \<Rightarrow> nat) \<Rightarrow> int \<Rightarrow> int \<Rightarrow> int \<Rightarrow> int \<Rightarrow> nat" where
  "getBookBase sha in_currency out_currency in_account out_account =
     getQualityIndex (sha [hSpace spaceBookDir, hU160 in_currency, hU160 out_currency,
                           hU160 in_account, hU160 out_account]) 0"

definition getOfferIndex :: "(HashArg list \<Rightarrow> nat) \<Rightarrow> int \<Rightarrow> int \<Rightarrow> nat" where
  "getOfferIndex sha account uSequence = sha [hSpace spaceOffer, hU160 account, hU32 uSequence]"

definition getOwnerDirIndex :: "(HashArg list \<Rightarrow> nat) \<Rightarrow> int \<Rightarrow> nat" where
  "getOwnerDirIndex sha account = sha [hSpace spaceOwnerDir, hU160 account]"

definition getDirNodeIndex :: "(HashArg list \<Rightarrow> nat) \<Rightarrow> nat \<Rightarrow> int \<Rightarrow> nat" where
  "getDirNodeIndex sha uDirRoot uNodeIndex =
     (if uNodeIndex = 0 then uDirRoot
      else sha [hSpace spaceDirNode, hU256 uDirRoot, hU64 uNodeIndex])"

definition getTicketIndex :: "(HashArg list \<Rightarrow> nat) \<Rightarrow> int \<Rightarrow> int \<Rightarrow> nat" where
  "getTicketIndex sha account uSequence = sha [hSpace spaceTicket, hU160 account, hU32 uSequence]"

definition getMtchainStateIndex :: "(HashArg list \<Rightarrow> nat) \<Rightarrow> int \<Rightarrow> int \<Rightarrow> int \<Rightarrow> nat" where
  "getMtchainStateIndex sha a b currency =
     (if a < b then sha [hSpace spaceMTChain, hU160 a, hU160 b, hU160 currency]
      else sha [hSpace spaceMTChain, hU160 b, hU160 a, hU160 currency])"

definition getSignerListIndex :: "(HashArg list \<Rightarrow> nat) \<Rightarrow> int \<Rightarrow> nat" where
  "getSignerListIndex sha account = sha [hSpace spaceSignerList, hU160 account, hU32 0]"

definition getNFTokenIndex :: "(HashArg list \<Rightarrow> nat) \<Rightarrow> nat \<Rightarrow> Blob \<Rightarrow> nat" where
  "getNFTokenIndex sha assetid ident = sha [hSpace spaceNFToken, hU256 assetid, hBlob ident]"

definition getNFTokenOwnerAuthIndex :: "(HashArg list \<Rightarrow> nat) \<Rightarrow> nat \<Rightarrow> int \<Rightarrow> int \<Rightarrow> nat" where
  "getNFTokenOwnerAuthIndex sha assetid owner oper =
     sha [hSpace spaceNFTAuth, hU256 assetid, hU160 owner, hU160 oper]"

definition getNFTokenAccountIndex :: "(HashArg list \<Rightarrow> nat) \<Rightarrow> nat \<Rightarrow> int \<Rightarrow> nat" where
  "getNFTokenAccountIndex sha assetid owner = sha [hSpace spaceNFTAccount, hU256 assetid, hU160 owner]"

definition getNFTokenIndexIndex :: "(HashArg list \<Rightarrow> nat) \<Rightarrow> nat \<Rightarrow> int \<Rightarrow> nat" where
  "getNFTokenIndexIndex sha assetid tokenIndex = sha [hSpace spaceNFTIndex, hU256 assetid, hU64 tokenIndex]"

definition getNFTokenOwnerIndexIndex :: "(HashArg list \<Rightarrow> nat) \<Rightarrow> nat \<Rightarrow> int \<Rightarrow> int \<Rightarrow> nat" where
  "getNFTokenOwnerIndexIndex sha assetid owner ownerTokenIndex =
     sha [hSpace spaceNFTOwnerIndex, hU256 assetid, hU160 owner, hU64 ownerTokenIndex]"

definition getNFAssetIndex :: "(HashArg list \<Rightarrow> nat) \<Rightarrow> int \<Rightarrow> Blob \<Rightarrow> nat" where
  "getNFAssetIndex sha issuer ident = sha [hSpace spaceNFAsset, hU160 issuer, hBlob ident]"

definition getNFAssetIndexIndex :: "(HashArg list \<Rightarrow> nat) \<Rightarrow> int \<Rightarrow> int \<Rightarrow> nat" where
  "getNFAssetIndexIndex sha account assetIndex = sha [hSpace spaceNFAssetIndex, hU160 account, hU64 assetIndex]"

subsection \<open>Keylets\<close>

definition keylet_account :: "(HashArg list \<Rightarrow> nat) \<Rightarrow> int \<Rightarrow> Keylet" where
  "keylet_account sha i = \<lparr>kl_type = ltACCOUNT_ROOT, kl_key = getAccountRootIndex sha i\<rparr>"

definition keylet_child :: "nat \<Rightarrow> Keylet" where
  "keylet_child key = \<lparr>kl_type = ltCHILD, kl_key = key\<rparr>"

definition keylet_skip0 :: "(HashArg list \<Rightarrow> nat) \<Rightarrow> Keylet" where
  "keylet_skip0 sha = \<lparr>kl_type = ltLEDGER_HASHES, kl_key = getLedgerHashIndex0 sha\<rparr>"

definition keylet_skip :: "(HashArg list \<Rightarrow> nat) \<Rightarrow> int \<Rightarrow> Keylet" where
  "keylet_skip sha ledger = \<lparr>kl_type = ltLEDGER_HASHES, kl_key = getLedgerHashIndex sha ledger\<rparr>"

definition keylet_amendments :: "(HashArg list \<Rightarrow> nat) \<Rightarrow> Keylet" where
  "keylet_amendments sha = \<lparr>kl_type = ltAMENDMENTS, kl_key = getLedgerAmendmentIndex sha\<rparr>"

definition keylet_fees :: "(HashArg list \<Rightarrow> nat) \<Rightarrow> Keylet" where
  "keylet_fees sha = \<lparr>kl_type = ltFEE_SETTINGS, kl_key = getLedgerFeeIndex sha\<rparr>"

definition keylet_book :: "(HashArg list \<Rightarrow> nat) \<Rightarrow> int \<Rightarrow> int \<Rightarrow> int \<Rightarrow> int \<Rightarrow> Keylet" where
  "keylet_book sha ic oc ia oa = \<lparr>kl_type = ltDIR_NODE, kl_key = getBookBase sha ic oc ia oa\<rparr>"

definition keylet_line :: "(HashArg list \<Rightarrow> nat) \<Rightarrow> int \<Rightarrow> int \<Rightarrow> int \<Rightarrow> Keylet" where
  "keylet_line sha id0 id1 currency = \<lparr>kl_type = ltMTCHAIN_STATE, kl_key = getMtchainStateIndex sha id0 id1 currency\<rparr>"

definition keylet_offer :: "(HashArg list \<Rightarrow> nat) \<Rightarrow> int \<Rightarrow> int \<Rightarrow> Keylet" where
  "keylet_offer sha i sq = \<lparr>kl_type = ltOFFER, kl_key = getOfferIndex sha i sq\<rparr>"

definition keylet_quality :: "Keylet \<Rightarrow> nat \<Rightarrow> Keylet" where
  "keylet_quality k q = \<lparr>kl_type = ltDIR_NODE, kl_key = getQualityIndex (kl_key k) q\<rparr>"

definition keylet_next :: "Keylet \<Rightarrow> Keylet" where
  "keylet_next k = \<lparr>kl_type = ltDIR_NODE, kl_key = getQualityNext (kl_key k)\<rparr>"

definition keylet_ticket :: "(HashArg list \<Rightarrow> nat) \<Rightarrow> int \<Rightarrow> int \<Rightarrow> Keylet" where
  "keylet_ticket sha i sq = \<lparr>kl_type = ltTICKET, kl_key = getTicketIndex sha i sq\<rparr>"

definition keylet_signers :: "(HashArg list \<Rightarrow> nat) \<Rightarrow> int \<Rightarrow> Keylet" where
  "keylet_signers sha i = \<lparr>kl_type = ltSIGNER_LIST, kl_key = getSignerListIndex sha i\<rparr>"

text \<open>The overloads of \<^verbatim>\<open>keylet::nftoken\<close> and \<^verbatim>\<open>keylet::nfasset\<close>.\<close>

definition nftoken_key :: "nat \<Rightarrow> Keylet" where
  "nftoken_key key = \<lparr>kl_type = ltNFTOKEN, kl_key = key\<rparr>"

definition nftoken_id :: "(HashArg list \<Rightarrow> nat) \<Rightarrow> nat \<Rightarrow> Blob \<Rightarrow> Keylet" where
  "nftoken_id sha assetid ident = \<lparr>kl_type = ltNFTOKEN, kl_key = getNFTokenIndex sha assetid ident\<rparr>"

definition nftoken_index :: "(HashArg list \<Rightarrow> nat) \<Rightarrow> nat \<Rightarrow> int \<Rightarrow> Keylet" where
  "nftoken_index sha assetid tokenIndex =
     \<lparr>kl_type = ltNFT_INDEX, kl_key = getNFTokenIndexIndex sha assetid tokenIndex\<rparr>"

definition nftoken_owner_index :: "(HashArg list \<Rightarrow> nat) \<Rightarrow> nat \<Rightarrow> int \<Rightarrow> int \<Rightarrow> Keylet" where
  "nftoken_owner_index sha assetid owner ownerTokenIndex =
     \<lparr>kl_type = ltNFT_OWNER_INDEX, kl_key = getNFTokenOwnerIndexIndex sha assetid owner ownerTokenIndex\<rparr>"

definition nfasset_key :: "nat \<Rightarrow> Keylet" where
  "nfasset_key key = \<lparr>kl_type = ltNFASSET, kl_key = key\<rparr>"

definition nfasset_id :: "(HashArg list \<Rightarrow> nat) \<Rightarrow> int \<Rightarrow> Blob \<Rightarrow> Keylet" where
  "nfasset_id sha issuer ident = \<lparr>kl_type = ltNFASSET, kl_key = getNFAssetIndex sha issuer ident\<rparr>"

definition nfasset_owner :: "(HashArg list \<Rightarrow> nat) \<Rightarrow> nat \<Rightarrow> int \<Rightarrow> Keylet" where
  "nfasset_owner sha assetid owner = \<lparr>kl_type = ltNFT_ACCOUNT, kl_key = getNFTokenAccountIndex sha assetid owner\<rparr>"

definition nfasset_auth :: "(HashArg list \<Rightarrow> nat) \<Rightarrow> nat \<Rightarrow> int \<Rightarrow> int \<Rightarrow> Keylet" where
  "nfasset_auth sha assetid owner oper =
     \<lparr>kl_type = ltNFTAUTH, kl_key = getNFTokenOwnerAuthIndex sha assetid owner oper\<rparr>"

definition nfasset_index :: "(HashArg list \<Rightarrow> nat) \<Rightarrow> int \<Rightarrow> int \<Rightarrow> Keylet" where
  "nfasset_index sha account assetIndex =
     \<lparr>kl_type = ltNFASSET_INDEX, kl_key = getNFAssetIndexIndex sha account assetIndex\<rparr>"

definition keylet_ownerDir :: "(HashArg list \<Rightarrow> nat) \<Rightarrow> int \<Rightarrow> Keylet" where
  "keylet_ownerDir sha i = \<lparr>kl_type = ltDIR_NODE, kl_key = getOwnerDirIndex sha i\<rparr>"

definition keylet_page :: "(HashArg list \<Rightarrow> nat) \<Rightarrow> nat \<Rightarrow> int \<Rightarrow> Keylet" where
  "keylet_page sha key index = \<lparr>kl_type = ltDIR_NODE, kl_key = getDirNodeIndex sha key index\<rparr>"

definition keylet_escrow :: "(HashArg list \<Rightarrow> nat) \<Rightarrow> int \<Rightarrow> int \<Rightarrow> Keylet" where
  "keylet_escrow sha source sq = \<lparr>kl_type = ltESCROW, kl_key = sha [hSpace spaceEscrow, hU160 source, hU32 sq]\<rparr>"

definition keylet_payChan :: "(HashArg list \<Rightarrow> nat) \<Rightarrow> int \<Rightarrow> int \<Rightarrow> int \<Rightarrow> Keylet" where
  "keylet_payChan sha source dst sq =
     \<lparr>kl_type = ltPAYCHAN, kl_key = sha [hSpace spaceMUChannel, hU160 source, hU160 dst, hU32 sq]\<rparr>"

subsection \<open>Different entries have different keys\<close>

text \<open>The entries whose key is a plain hash, and the keylet of each.\<close>

datatype EntryId =
    eSkip0 | eSkip int | eAmendments | eFees | eAccount int | eOffer int int | eOwnerDir int | ePage nat int
  | eTicket int int | eLine int int int | eSigners int | eEscrow int int | ePayChan int int int
  | eToken nat Blob | eAuth nat int int | eAssetOwner nat int | eTokenIndex nat int
  | eOwnerIndex nat int int | eAsset int Blob | eAssetIndex int int

fun keylet_of :: "(HashArg list \<Rightarrow> nat) \<Rightarrow> EntryId \<Rightarrow> Keylet" where
  "keylet_of sha eSkip0 = keylet_skip0 sha"
| "keylet_of sha (eSkip i) = keylet_skip sha i"
| "keylet_of sha eAmendments = keylet_amendments sha"
| "keylet_of sha eFees = keylet_fees sha"
| "keylet_of sha (eAccount a) = keylet_account sha a"
| "keylet_of sha (eOffer a i) = keylet_offer sha a i"
| "keylet_of sha (eOwnerDir a) = keylet_ownerDir sha a"
| "keylet_of sha (ePage r i) = keylet_page sha r i"
| "keylet_of sha (eTicket a i) = keylet_ticket sha a i"
| "keylet_of sha (eLine a b c) = keylet_line sha a b c"
| "keylet_of sha (eSigners a) = keylet_signers sha a"
| "keylet_of sha (eEscrow a i) = keylet_escrow sha a i"
| "keylet_of sha (ePayChan a b i) = keylet_payChan sha a b i"
| "keylet_of sha (eToken r b) = nftoken_id sha r b"
| "keylet_of sha (eAuth r a b) = nfasset_auth sha r a b"
| "keylet_of sha (eAssetOwner r a) = nfasset_owner sha r a"
| "keylet_of sha (eTokenIndex r i) = nftoken_index sha r i"
| "keylet_of sha (eOwnerIndex r a i) = nftoken_owner_index sha r a i"
| "keylet_of sha (eAsset a b) = nfasset_id sha a b"
| "keylet_of sha (eAssetIndex a i) = nfasset_index sha a i"

text \<open>Values in the range of their C++ types; the skip list is kept per 65536 ledgers, page 0 is the
  root of its directory, and a trust line belongs to an unordered pair of accounts.\<close>

definition u160 :: "int \<Rightarrow> bool" where "u160 a \<longleftrightarrow> 0 \<le> a \<and> a < 256 ^ 20"

fun entry_valid :: "EntryId \<Rightarrow> bool" where
  "entry_valid eSkip0 \<longleftrightarrow> True"
| "entry_valid (eSkip i) \<longleftrightarrow> 0 \<le> i \<and> i < 256 ^ 4 \<and> i mod 65536 = 0"
| "entry_valid eAmendments \<longleftrightarrow> True"
| "entry_valid eFees \<longleftrightarrow> True"
| "entry_valid (eAccount a) \<longleftrightarrow> u160 a"
| "entry_valid (eOffer a i) \<longleftrightarrow> u160 a \<and> 0 \<le> i \<and> i < 256 ^ 4"
| "entry_valid (eOwnerDir a) \<longleftrightarrow> u160 a"
| "entry_valid (ePage r i) \<longleftrightarrow> r < 256 ^ 32 \<and> 0 < i \<and> i < 256 ^ 8"
| "entry_valid (eTicket a i) \<longleftrightarrow> u160 a \<and> 0 \<le> i \<and> i < 256 ^ 4"
| "entry_valid (eLine a b c) \<longleftrightarrow> u160 a \<and> u160 b \<and> u160 c \<and> a \<le> b"
| "entry_valid (eSigners a) \<longleftrightarrow> u160 a"
| "entry_valid (eEscrow a i) \<longleftrightarrow> u160 a \<and> 0 \<le> i \<and> i < 256 ^ 4"
| "entry_valid (ePayChan a b i) \<longleftrightarrow> u160 a \<and> u160 b \<and> 0 \<le> i \<and> i < 256 ^ 4"
| "entry_valid (eToken r b) \<longleftrightarrow> r < 256 ^ 32 \<and> length b < 256 ^ 8"
| "entry_valid (eAuth r a b) \<longleftrightarrow> r < 256 ^ 32 \<and> u160 a \<and> u160 b"
| "entry_valid (eAssetOwner r a) \<longleftrightarrow> r < 256 ^ 32 \<and> u160 a"
| "entry_valid (eTokenIndex r i) \<longleftrightarrow> r < 256 ^ 32 \<and> 0 \<le> i \<and> i < 256 ^ 8"
| "entry_valid (eOwnerIndex r a i) \<longleftrightarrow> r < 256 ^ 32 \<and> u160 a \<and> 0 \<le> i \<and> i < 256 ^ 8"
| "entry_valid (eAsset a b) \<longleftrightarrow> u160 a \<and> length b < 256 ^ 8"
| "entry_valid (eAssetIndex a i) \<longleftrightarrow> u160 a \<and> 0 \<le> i \<and> i < 256 ^ 8"

lemmas index_defs = getLedgerHashIndex0_def getLedgerHashIndex_def getLedgerAmendmentIndex_def getLedgerFeeIndex_def
  getAccountRootIndex_def getOfferIndex_def getOwnerDirIndex_def getDirNodeIndex_def getTicketIndex_def
  getMtchainStateIndex_def getSignerListIndex_def getNFTokenIndex_def getNFTokenOwnerAuthIndex_def
  getNFTokenAccountIndex_def getNFTokenIndexIndex_def getNFTokenOwnerIndexIndex_def getNFAssetIndex_def
  getNFAssetIndexIndex_def

lemmas keylet_defs = keylet_account_def keylet_skip0_def keylet_skip_def keylet_amendments_def keylet_fees_def
  keylet_offer_def keylet_ownerDir_def keylet_page_def keylet_ticket_def keylet_line_def keylet_signers_def
  keylet_escrow_def keylet_payChan_def nftoken_id_def nfasset_auth_def nfasset_owner_def nftoken_index_def
  nftoken_owner_index_def nfasset_id_def nfasset_index_def

text \<open>The values hashed for an entry.\<close>

definition hash_args :: "EntryId \<Rightarrow> HashArg list" where
  "hash_args e = (case e of
     eSkip0 \<Rightarrow> [hSpace spaceSkipList] | eSkip i \<Rightarrow> [hSpace spaceSkipList, hU32 (i div 65536)]
   | eAmendments \<Rightarrow> [hSpace spaceAmendment] | eFees \<Rightarrow> [hSpace spaceFee]
   | eAccount a \<Rightarrow> [hSpace spaceAccount, hU160 a] | eOffer a i \<Rightarrow> [hSpace spaceOffer, hU160 a, hU32 i]
   | eOwnerDir a \<Rightarrow> [hSpace spaceOwnerDir, hU160 a] | ePage r i \<Rightarrow> [hSpace spaceDirNode, hU256 r, hU64 i]
   | eTicket a i \<Rightarrow> [hSpace spaceTicket, hU160 a, hU32 i]
   | eLine a b c \<Rightarrow> [hSpace spaceMTChain, hU160 a, hU160 b, hU160 c]
   | eSigners a \<Rightarrow> [hSpace spaceSignerList, hU160 a, hU32 0]
   | eEscrow a i \<Rightarrow> [hSpace spaceEscrow, hU160 a, hU32 i]
   | ePayChan a b i \<Rightarrow> [hSpace spaceMUChannel, hU160 a, hU160 b, hU32 i]
   | eToken r b \<Rightarrow> [hSpace spaceNFToken, hU256 r, hBlob b]
   | eAuth r a b \<Rightarrow> [hSpace spaceNFTAuth, hU256 r, hU160 a, hU160 b]
   | eAssetOwner r a \<Rightarrow> [hSpace spaceNFTAccount, hU256 r, hU160 a]
   | eTokenIndex r i \<Rightarrow> [hSpace spaceNFTIndex, hU256 r, hU64 i]
   | eOwnerIndex r a i \<Rightarrow> [hSpace spaceNFTOwnerIndex, hU256 r, hU160 a, hU64 i]
   | eAsset a b \<Rightarrow> [hSpace spaceNFAsset, hU160 a, hBlob b]
   | eAssetIndex a i \<Rightarrow> [hSpace spaceNFAssetIndex, hU160 a, hU64 i])"

lemma kl_key_of: "entry_valid e \<Longrightarrow> kl_key (keylet_of sha e) = sha (hash_args e)"
  by (cases e) (auto simp: keylet_defs index_defs hash_args_def)

lemma hash_args_inj: "entry_valid x \<Longrightarrow> entry_valid y \<Longrightarrow> hash_args x = hash_args y \<Longrightarrow> x = y"
  by (cases x; cases y) (auto simp: hash_args_def)

lemma be_bytes_eq: "0 \<le> x \<Longrightarrow> x < 256 ^ n \<Longrightarrow> 0 \<le> y \<Longrightarrow> y < 256 ^ n \<Longrightarrow> be_bytes n x = be_bytes n y \<longleftrightarrow> x = y"
  by (metis be_int_bytes mod_pos_pos_trivial)

lemma be_append: "0 \<le> x \<Longrightarrow> x < 256 ^ n \<Longrightarrow> 0 \<le> y \<Longrightarrow> y < 256 ^ n \<Longrightarrow>
    be_bytes n x @ r = be_bytes n y @ s \<longleftrightarrow> x = y \<and> r = s"
  by (simp add: be_bytes_eq)

lemma blob_append: "b @ be_bytes 8 (int (length b)) = c @ be_bytes 8 (int (length c)) \<longleftrightarrow> b = c"
proof
  assume e: "b @ be_bytes 8 (int (length b)) = c @ be_bytes 8 (int (length c))"
  then have "length (b @ be_bytes 8 (int (length b))) = length (c @ be_bytes 8 (int (length c)))" by (rule arg_cong)
  then have "length b = length c" by simp
  with e show "b = c" by simp
qed simp

lemma be_bytes_skip:
  assumes "0 \<le> i \<and> i < 4294967296 \<and> i mod 65536 = 0" "0 \<le> j \<and> j < 4294967296 \<and> j mod 65536 = 0"
  shows "be_bytes 4 (i div 65536) = be_bytes 4 (j div 65536) \<longleftrightarrow> i = j"
proof -
  have "be_bytes 4 (i div 65536) = be_bytes 4 (j div 65536) \<longleftrightarrow> i div 65536 = j div 65536"
    by (rule be_bytes_eq) (use assms in auto)
  also have "\<dots> \<longleftrightarrow> i = j" using assms by (metis div_mult_mod_eq)
  finally show ?thesis .
qed

lemma code_inj: "be_bytes 2 (code s) = be_bytes 2 (code t) \<longleftrightarrow> s = t"
proof -
  have b: "0 \<le> code u \<and> code u < 256 ^ 2" for u by (cases u) simp_all
  have "code s = code t \<longleftrightarrow> s = t" by (cases s; cases t) simp_all
  with b [of s] b [of t] show ?thesis by (simp add: be_bytes_eq)
qed

text \<open>The first two bytes are the name space; the rest has one layout per name space.\<close>

fun space_of :: "EntryId \<Rightarrow> LedgerNameSpace" where
  "space_of eSkip0 = spaceSkipList"
| "space_of (eSkip i) = spaceSkipList"
| "space_of eAmendments = spaceAmendment"
| "space_of eFees = spaceFee"
| "space_of (eAccount a) = spaceAccount"
| "space_of (eOffer a i) = spaceOffer"
| "space_of (eOwnerDir a) = spaceOwnerDir"
| "space_of (ePage r i) = spaceDirNode"
| "space_of (eTicket a i) = spaceTicket"
| "space_of (eLine a b c) = spaceMTChain"
| "space_of (eSigners a) = spaceSignerList"
| "space_of (eEscrow a i) = spaceEscrow"
| "space_of (ePayChan a b i) = spaceMUChannel"
| "space_of (eToken r b) = spaceNFToken"
| "space_of (eAuth r a b) = spaceNFTAuth"
| "space_of (eAssetOwner r a) = spaceNFTAccount"
| "space_of (eTokenIndex r i) = spaceNFTIndex"
| "space_of (eOwnerIndex r a i) = spaceNFTOwnerIndex"
| "space_of (eAsset a b) = spaceNFAsset"
| "space_of (eAssetIndex a i) = spaceNFAssetIndex"

lemma hash_bytes_space: "hash_bytes (hash_args e) = be_bytes 2 (code (space_of e)) @ hash_bytes (tl (hash_args e))"
  by (cases e) (simp_all add: hash_args_def hash_bytes_def)

lemma hash_bytes_inj:
  assumes "entry_valid x" "entry_valid y" "hash_bytes (hash_args x) = hash_bytes (hash_args y)"
  shows "x = y"
proof -
  have s: "space_of x = space_of y" and b: "hash_bytes (tl (hash_args x)) = hash_bytes (tl (hash_args y))"
    using assms(3) unfolding hash_bytes_space [of x] hash_bytes_space [of y] by (simp_all add: code_inj)
  have nil: "be_bytes 4 i \<noteq> []" "[] \<noteq> be_bytes 4 i" for i
    using be_bytes_length [of 4 i] by (metis length_0_conv zero_neq_numeral)+
  show ?thesis
    using s assms(1,2) b
    by (cases x; cases y; simp only: space_of.simps LedgerNameSpace.distinct simp_thms)
      (simp_all add: hash_args_def hash_bytes_def be_append be_bytes_eq blob_append u160_def nil be_bytes_skip)
qed



subsection \<open>Order books\<close>



lemma keylet_inj: "collision_free sha \<Longrightarrow> entry_valid x \<Longrightarrow> entry_valid y \<Longrightarrow>
    kl_key (keylet_of sha x) = kl_key (keylet_of sha y) \<longleftrightarrow> x = y"
  using hash_args_inj [of x y] by (auto simp: kl_key_of collision_free_def inj_eq)

lemma keylet_nonzero: "collision_free sha \<Longrightarrow> entry_valid x \<Longrightarrow> kl_key (keylet_of sha x) \<noteq> 0"
  by (simp add: kl_key_of collision_free_def)

lemma collision_free_example: "collision_free (\<lambda>args. Suc (to_nat args))"
  by (auto simp: collision_free_def inj_def)

lemma collision_freeD: "collision_free sha \<Longrightarrow> sha x = sha y \<longleftrightarrow> x = y" "collision_free sha \<Longrightarrow> sha x \<noteq> 0"
  unfolding collision_free_def by (auto simp: inj_eq)

definition sha0 :: "HashArg list \<Rightarrow> nat" where "sha0 = (\<lambda>args. Suc (to_nat args))"

lemma sha0_free: "collision_free sha0"
  using collision_free_example by (simp add: sha0_def)

end
