(* ===== verification/STObject.thy ===== *)
theory STObject
  imports STAmount Indexes ApplyStateTable
begin

text \<open>
  \<^verbatim>\<open>protocol/impl/STObject.cpp\<close>, \<^verbatim>\<open>protocol/STObject.h\<close>: objects as fields by name, with the
  getters' default for an absent field and the setters that make a field present; result
  codes (\<^verbatim>\<open>protocol/TER.h\<close>); and the state a transactor works on. By the theorem on
  sessions in \<open>ApplyStateTable\<close> the sandbox behaves as the map of entries it shows, so
  \<^verbatim>\<open>peek\<close>, \<^verbatim>\<open>insert\<close>, \<^verbatim>\<open>erase\<close> and writing through a pointer followed by \<^verbatim>\<open>update\<close> are operations
  on that map here; \<^verbatim>\<open>peek\<close> returns one pointer per key, so a pointer is the key of its entry.
\<close>

subsection \<open>Fields\<close>

datatype SerializedTypeID =
  STI_UINT32 | STI_UINT64 | STI_HASH256 | STI_ACCOUNT | STI_VL | STI_AMOUNT | STI_ARRAY

datatype SField =
    sfFlags | sfSequence | sfSetFlag | sfClearFlag | sfLastLedgerSequence | sfSignerQuorum | sfSignerListID
  | sfAssetNumber | sfTokenNumber | sfAssetIndex | sfTokenIndex | sfOwnerTokenIndex
  | sfAssetID | sfTokenID | sfTransactionHash | sfAccountTxnID
  | sfAccount | sfIssuer | sfOwner | sfDestination | sfApproved | sfRegularKey
  | sfIdent | sfName | sfImprint | sfSigningPubKey | sfTxnSignature
  | sfBalance | sfFee
  | sfMemos | sfSigners | sfSignerEntries | sfPayees

fun fieldType :: "SField \<Rightarrow> SerializedTypeID" where
  "fieldType sfFlags = STI_UINT32"
| "fieldType sfSequence = STI_UINT32"
| "fieldType sfSetFlag = STI_UINT32"
| "fieldType sfClearFlag = STI_UINT32"
| "fieldType sfLastLedgerSequence = STI_UINT32"
| "fieldType sfSignerQuorum = STI_UINT32"
| "fieldType sfSignerListID = STI_UINT32"
| "fieldType sfAssetNumber = STI_UINT64"
| "fieldType sfTokenNumber = STI_UINT64"
| "fieldType sfAssetIndex = STI_UINT64"
| "fieldType sfTokenIndex = STI_UINT64"
| "fieldType sfOwnerTokenIndex = STI_UINT64"
| "fieldType sfAssetID = STI_HASH256"
| "fieldType sfTokenID = STI_HASH256"
| "fieldType sfTransactionHash = STI_HASH256"
| "fieldType sfAccountTxnID = STI_HASH256"
| "fieldType sfAccount = STI_ACCOUNT"
| "fieldType sfIssuer = STI_ACCOUNT"
| "fieldType sfOwner = STI_ACCOUNT"
| "fieldType sfDestination = STI_ACCOUNT"
| "fieldType sfApproved = STI_ACCOUNT"
| "fieldType sfRegularKey = STI_ACCOUNT"
| "fieldType sfIdent = STI_VL"
| "fieldType sfName = STI_VL"
| "fieldType sfImprint = STI_VL"
| "fieldType sfSigningPubKey = STI_VL"
| "fieldType sfTxnSignature = STI_VL"
| "fieldType sfBalance = STI_AMOUNT"
| "fieldType sfFee = STI_AMOUNT"
| "fieldType sfMemos = STI_ARRAY"
| "fieldType sfSigners = STI_ARRAY"
| "fieldType sfSignerEntries = STI_ARRAY"
| "fieldType sfPayees = STI_ARRAY"

text \<open>
  The name of an array determines what its elements are: memos, or the signers of a transaction
  and the entries of a signer list. Of the array of payees only the size matters.
\<close>

record Memo =
  MemoType :: "Blob option"
  MemoData :: "Blob option"
  MemoFormat :: "Blob option"

datatype SignerName = sfSigner | sfSignerEntry | sfOtherObject

record Signer =
  sg_fname :: SignerName
  sg_Account :: "int option"
  sg_SignerWeight :: "int option"
  sg_SigningPubKey :: "Blob option"
  sg_TxnSignature :: "Blob option"

fun signerArray :: "SField \<Rightarrow> bool" where
  "signerArray sfSigners = True"
| "signerArray sfSignerEntries = True"
| "signerArray _ = False"

text \<open>A field name determines the type of its value, so there is one map per type.\<close>

record STObject =
  f_u32 :: "SField \<rightharpoonup> int"
  f_u64 :: "SField \<rightharpoonup> int"
  f_h256 :: "SField \<rightharpoonup> nat"
  f_account :: "SField \<rightharpoonup> int"
  f_vl :: "SField \<rightharpoonup> Blob"
  f_amount :: "SField \<rightharpoonup> STAmount"
  f_array :: "SField \<rightharpoonup> Memo list"
  f_signers :: "SField \<rightharpoonup> Signer list"

definition no_fields :: STObject where
  "no_fields = \<lparr>f_u32 = Map.empty, f_u64 = Map.empty, f_h256 = Map.empty, f_account = Map.empty,
     f_vl = Map.empty, f_amount = Map.empty, f_array = Map.empty,
     f_signers = Map.empty\<rparr>"

definition isFieldPresent :: "SField \<Rightarrow> STObject \<Rightarrow> bool" where
  "isFieldPresent f obj =
     (case fieldType f of
        STI_UINT32 \<Rightarrow> f_u32 obj f \<noteq> None | STI_UINT64 \<Rightarrow> f_u64 obj f \<noteq> None
      | STI_HASH256 \<Rightarrow> f_h256 obj f \<noteq> None | STI_ACCOUNT \<Rightarrow> f_account obj f \<noteq> None
      | STI_VL \<Rightarrow> f_vl obj f \<noteq> None | STI_AMOUNT \<Rightarrow> f_amount obj f \<noteq> None
      | STI_ARRAY \<Rightarrow> if signerArray f then f_signers obj f \<noteq> None else f_array obj f \<noteq> None)"

definition makeFieldAbsent :: "SField \<Rightarrow> STObject \<Rightarrow> STObject" where
  "makeFieldAbsent f obj =
     (case fieldType f of
        STI_UINT32 \<Rightarrow> obj\<lparr>f_u32 := (f_u32 obj)(f := None)\<rparr>
      | STI_UINT64 \<Rightarrow> obj\<lparr>f_u64 := (f_u64 obj)(f := None)\<rparr>
      | STI_HASH256 \<Rightarrow> obj\<lparr>f_h256 := (f_h256 obj)(f := None)\<rparr>
      | STI_ACCOUNT \<Rightarrow> obj\<lparr>f_account := (f_account obj)(f := None)\<rparr>
      | STI_VL \<Rightarrow> obj\<lparr>f_vl := (f_vl obj)(f := None)\<rparr>
      | STI_AMOUNT \<Rightarrow> obj\<lparr>f_amount := (f_amount obj)(f := None)\<rparr>
      | STI_ARRAY \<Rightarrow>
          if signerArray f then obj\<lparr>f_signers := (f_signers obj)(f := None)\<rparr>
          else obj\<lparr>f_array := (f_array obj)(f := None)\<rparr>)"

definition get_or :: "'a \<Rightarrow> 'a option \<Rightarrow> 'a" where
  "get_or d v = (case v of None \<Rightarrow> d | Some x \<Rightarrow> x)"

definition getFieldU32 :: "SField \<Rightarrow> STObject \<Rightarrow> int" where
  "getFieldU32 f obj = get_or 0 (f_u32 obj f)"

definition getFieldU64 :: "SField \<Rightarrow> STObject \<Rightarrow> int" where
  "getFieldU64 f obj = get_or 0 (f_u64 obj f)"

definition getFieldH256 :: "SField \<Rightarrow> STObject \<Rightarrow> nat" where
  "getFieldH256 f obj = get_or 0 (f_h256 obj f)"

definition getAccountID :: "SField \<Rightarrow> STObject \<Rightarrow> int" where
  "getAccountID f obj = get_or 0 (f_account obj f)"

definition getFieldVL :: "SField \<Rightarrow> STObject \<Rightarrow> Blob" where
  "getFieldVL f obj = get_or [] (f_vl obj f)"

definition getFieldAmount :: "SField \<Rightarrow> STObject \<Rightarrow> STAmount" where
  "getFieldAmount f obj = get_or \<lparr>mIssue = mIssue0, mValue = 0, mOffset = 0, mIsNative = True,
     mIsNegative = False, mDecimal = 0\<rparr> (f_amount obj f)"

definition getFieldArray :: "SField \<Rightarrow> STObject \<Rightarrow> Memo list" where
  "getFieldArray f obj = get_or [] (f_array obj f)"

definition getFieldSigners :: "SField \<Rightarrow> STObject \<Rightarrow> Signer list" where
  "getFieldSigners f obj = get_or [] (f_signers obj f)"

definition getFlags :: "STObject \<Rightarrow> int" where
  "getFlags obj = get_or 0 (f_u32 obj sfFlags)"

definition setFieldU32 :: "SField \<Rightarrow> int \<Rightarrow> STObject \<Rightarrow> STObject" where
  "setFieldU32 f v obj = obj\<lparr>f_u32 := (f_u32 obj)(f \<mapsto> v)\<rparr>"

definition setFieldU64 :: "SField \<Rightarrow> int \<Rightarrow> STObject \<Rightarrow> STObject" where
  "setFieldU64 f v obj = obj\<lparr>f_u64 := (f_u64 obj)(f \<mapsto> v)\<rparr>"

definition setFieldH256 :: "SField \<Rightarrow> nat \<Rightarrow> STObject \<Rightarrow> STObject" where
  "setFieldH256 f v obj = obj\<lparr>f_h256 := (f_h256 obj)(f \<mapsto> v)\<rparr>"

definition setAccountID :: "SField \<Rightarrow> int \<Rightarrow> STObject \<Rightarrow> STObject" where
  "setAccountID f v obj = obj\<lparr>f_account := (f_account obj)(f \<mapsto> v)\<rparr>"

definition setFieldVL :: "SField \<Rightarrow> Blob \<Rightarrow> STObject \<Rightarrow> STObject" where
  "setFieldVL f v obj = obj\<lparr>f_vl := (f_vl obj)(f \<mapsto> v)\<rparr>"

definition setFieldAmount :: "SField \<Rightarrow> STAmount \<Rightarrow> STObject \<Rightarrow> STObject" where
  "setFieldAmount f v obj = obj\<lparr>f_amount := (f_amount obj)(f \<mapsto> v)\<rparr>"

definition setFieldArray :: "SField \<Rightarrow> Memo list \<Rightarrow> STObject \<Rightarrow> STObject" where
  "setFieldArray f v obj = obj\<lparr>f_array := (f_array obj)(f \<mapsto> v)\<rparr>"

definition setFieldSigners :: "SField \<Rightarrow> Signer list \<Rightarrow> STObject \<Rightarrow> STObject" where
  "setFieldSigners f v obj = obj\<lparr>f_signers := (f_signers obj)(f \<mapsto> v)\<rparr>"

named_theorems st_fields "reading and writing fields"

lemmas [st_fields] = isFieldPresent_def makeFieldAbsent_def get_or_def getFieldU32_def getFieldU64_def
  getFieldH256_def getAccountID_def getFieldVL_def getFieldAmount_def getFieldArray_def setFieldU32_def
  setFieldU64_def setFieldH256_def setAccountID_def setFieldVL_def setFieldAmount_def setFieldArray_def
  getFieldSigners_def getFlags_def setFieldSigners_def no_fields_def

subsection \<open>Results of transactions\<close>

datatype TER =
    telINSUF_FEE_P
  | temMALFORMED | temBAD_FEE | temBAD_SIGNATURE | temDISABLED | temBAD_SIGNER | temBAD_QUORUM | temBAD_WEIGHT
  | temINVALID_FLAG | temBAD_SRC_ACCOUNT | temDST_IS_SRC | temINVALID
  | temBAD_ASSET | temBAD_TOKEN
  | tefFAILURE | tefALREADY | tefBAD_AUTH | tefINTERNAL | tefPAST_SEQ | tefWRONG_PRIOR | tefMASTER_DISABLED | tefMAX_LEDGER
  | tefBAD_SIGNATURE | tefBAD_QUORUM | tefNOT_MULTI_SIGNING | tefBAD_AUTH_MASTER
  | tefASSET_EXIST | tefNO_OWNER | tefNO_ASSET | tefTOKEN_EXIST | tefNO_TOKEN | tefDST_IS_OWNER | tefDESTROY_ASSET
  | terRETRY | terINSUF_FEE_B | terNO_ACCOUNT | terPRE_SEQ
  | tesSUCCESS
  | tecCLAIM | tecNO_DST | tecINSUFF_FEE | tecNO_ALTERNATIVE_KEY | tecNO_PERMISSION | tecINTERNAL | tecOVERSIZE

fun ter_code :: "TER \<Rightarrow> int" where
  "ter_code telINSUF_FEE_P = - 394"
| "ter_code temMALFORMED = - 299"
| "ter_code temBAD_FEE = - 295"
| "ter_code temBAD_SIGNATURE = - 283"
| "ter_code temBAD_SRC_ACCOUNT = - 282"
| "ter_code temDST_IS_SRC = - 280"
| "ter_code temINVALID = - 278"
| "ter_code temINVALID_FLAG = - 277"
| "ter_code temDISABLED = - 274"
| "ter_code temBAD_SIGNER = - 273"
| "ter_code temBAD_QUORUM = - 272"
| "ter_code temBAD_WEIGHT = - 271"
| "ter_code temBAD_ASSET = - 269"
| "ter_code temBAD_TOKEN = - 268"
| "ter_code tefFAILURE = - 199"
| "ter_code tefALREADY = - 198"
| "ter_code tefBAD_AUTH = - 196"
| "ter_code tefINTERNAL = - 192"
| "ter_code tefPAST_SEQ = - 190"
| "ter_code tefWRONG_PRIOR = - 189"
| "ter_code tefMASTER_DISABLED = - 188"
| "ter_code tefMAX_LEDGER = - 187"
| "ter_code tefBAD_SIGNATURE = - 186"
| "ter_code tefBAD_QUORUM = - 185"
| "ter_code tefNOT_MULTI_SIGNING = - 184"
| "ter_code tefBAD_AUTH_MASTER = - 183"
| "ter_code tefASSET_EXIST = - 182"
| "ter_code tefNO_OWNER = - 181"
| "ter_code tefNO_ASSET = - 180"
| "ter_code tefTOKEN_EXIST = - 179"
| "ter_code tefNO_TOKEN = - 178"
| "ter_code tefDST_IS_OWNER = - 177"
| "ter_code tefDESTROY_ASSET = - 176"
| "ter_code terRETRY = - 99"
| "ter_code terINSUF_FEE_B = - 97"
| "ter_code terNO_ACCOUNT = - 96"
| "ter_code terPRE_SEQ = - 92"
| "ter_code tesSUCCESS = 0"
| "ter_code tecCLAIM = 100"
| "ter_code tecNO_DST = 124"
| "ter_code tecNO_ALTERNATIVE_KEY = 130"
| "ter_code tecINSUFF_FEE = 136"
| "ter_code tecNO_PERMISSION = 139"
| "ter_code tecINTERNAL = 144"
| "ter_code tecOVERSIZE = 145"

definition isTesSuccess :: "TER \<Rightarrow> bool" where
  "isTesSuccess x \<longleftrightarrow> ter_code x = ter_code tesSUCCESS"

definition isTecClaim :: "TER \<Rightarrow> bool" where
  "isTecClaim x \<longleftrightarrow> ter_code x \<ge> ter_code tecCLAIM"

lemma isTesSuccess_iff [simp]: "isTesSuccess x \<longleftrightarrow> x = tesSUCCESS"
  by (cases x) (simp_all add: isTesSuccess_def)

subsection \<open>The state of a transactor\<close>

type_synonym Entry = "STObject SLE"
type_synonym State = "nat \<rightharpoonup> Entry"

definition make_sle :: "Keylet \<Rightarrow> STObject \<Rightarrow> Entry" where
  "make_sle k obj = \<lparr>sle_key = kl_key k, sle_type = kl_type k, sle_obj = obj\<rparr>"

definition peek :: "Keylet \<Rightarrow> State \<Rightarrow> STObject option" where
  "peek k m = map_option sle_obj (lookup m k)"

definition exists :: "Keylet \<Rightarrow> State \<Rightarrow> bool" where
  "exists k m \<longleftrightarrow> lookup m k \<noteq> None"

text \<open>Writing to the entry with the given key and \<^verbatim>\<open>update\<close>, which throws if it was erased.\<close>

definition update :: "Keylet \<Rightarrow> (STObject \<Rightarrow> STObject) \<Rightarrow> State \<Rightarrow> State result" where
  "update k f m =
     (case m (kl_key k) of
        None \<Rightarrow> Inl (logic_error ''ApplyStateTable::update: erased'')
      | Some e \<Rightarrow> Inr (m(kl_key k \<mapsto> e\<lparr>sle_obj := f (sle_obj e)\<rparr>)))"

definition erase :: "Keylet \<Rightarrow> State \<Rightarrow> State result" where
  "erase k m =
     (case m (kl_key k) of
        None \<Rightarrow> Inl (logic_error ''ApplyStateTable::erase: double erase'')
      | Some e \<Rightarrow> Inr (m(kl_key k := None)))"

definition insert_sle :: "Keylet \<Rightarrow> STObject \<Rightarrow> State \<Rightarrow> State result" where
  "insert_sle k obj m =
     (case m (kl_key k) of
        None \<Rightarrow> Inr (m(kl_key k \<mapsto> make_sle k obj))
      | Some e \<Rightarrow> Inl (logic_error ''ApplyStateTable::insert: already inserted''))"

text \<open>
  What the handlers change is a sequence of operations of a session other than payments of fees, so that the theorem on
  sessions applies to it.
\<close>

definition by_ops :: "State \<Rightarrow> State \<Rightarrow> bool" where
  "by_ops m m' \<longleftrightarrow> (\<exists>xs. (\<forall>x \<in> set xs. op_keys x \<and> op_fee x = 0) \<and> m' = fold do_op xs m)"

lemma by_ops_refl [simp]: "by_ops m m"
  by (auto simp: by_ops_def intro: exI [of _ "[]"])

lemma by_ops_trans: "by_ops m m' \<Longrightarrow> by_ops m' m'' \<Longrightarrow> by_ops m m''"
proof -
  assume "by_ops m m'" "by_ops m' m''"
  then obtain xs ys where "\<forall>x \<in> set xs. op_keys x \<and> op_fee x = 0" "m' = fold do_op xs m"
    "\<forall>x \<in> set ys. op_keys x \<and> op_fee x = 0"
    "m'' = fold do_op ys m'" by (auto simp: by_ops_def)
  then have "(\<forall>x \<in> set (xs @ ys). op_keys x \<and> op_fee x = 0) \<and> m'' = fold do_op (xs @ ys) m" by auto
  then show ?thesis unfolding by_ops_def by (rule exI)
qed

lemma by_op: "op_keys x \<Longrightarrow> op_fee x = 0 \<Longrightarrow> do_op x m = m' \<Longrightarrow> by_ops m m'"
  unfolding by_ops_def by (rule exI [of _ "[x]"]) simp

lemma update_by_ops: "kl_key k \<noteq> 0 \<Longrightarrow> update k f m = Inr m' \<Longrightarrow> by_ops m m'"
  by (rule by_op [of "OpModify (keylet_unchecked (kl_key k)) f"])
    (auto simp: update_def keylet_unchecked_def lookup_def check_def split: option.splits)

lemma erase_by_ops: "kl_key k \<noteq> 0 \<Longrightarrow> erase k m = Inr m' \<Longrightarrow> by_ops m m'"
  by (rule by_op [of "OpErase (keylet_unchecked (kl_key k))"])
    (auto simp: erase_def keylet_unchecked_def lookup_def check_def split: option.splits)

lemma insert_by_ops: "insert_sle k obj m = Inr m' \<Longrightarrow> by_ops m m'"
  by (rule by_op [of "OpInsert (make_sle k obj)"])
    (auto simp: insert_sle_def make_sle_def split: option.splits)

end
