(* ===== verification/LoadFeeTrack.thy ===== *)
theory LoadFeeTrack
  imports Prelude
begin

text \<open>
  \<^verbatim>\<open>app/misc/LoadFeeTrack.h\<close>, \<^verbatim>\<open>app/misc/impl/LoadFeeTrack.cpp\<close>: the load factors of a server
  and the scaling of fees by them. All members are 32-bit unsigned, so additions wrap.
\<close>

definition lftNormalFee :: int where "lftNormalFee = 256"
definition lftFeeIncFraction :: int where "lftFeeIncFraction = 4"
definition lftFeeDecFraction :: int where "lftFeeDecFraction = 4"
definition lftFeeMax :: int where "lftFeeMax = lftNormalFee * 1000000"

lemmas lft_defs = lftNormalFee_def lftFeeIncFraction_def lftFeeDecFraction_def lftFeeMax_def

record LoadFeeTrack =
  localTxnLoadFee :: int
  remoteTxnLoadFee :: int
  clusterTxnLoadFee :: int
  raiseCount :: int

definition LoadFeeTrack_new :: LoadFeeTrack where
  "LoadFeeTrack_new = \<lparr>localTxnLoadFee = lftNormalFee, remoteTxnLoadFee = lftNormalFee,
     clusterTxnLoadFee = lftNormalFee, raiseCount = 0\<rparr>"

definition setRemoteFee :: "int \<Rightarrow> LoadFeeTrack \<Rightarrow> LoadFeeTrack" where
  "setRemoteFee f t = t\<lparr>remoteTxnLoadFee := f\<rparr>"

definition setClusterFee :: "int \<Rightarrow> LoadFeeTrack \<Rightarrow> LoadFeeTrack" where
  "setClusterFee fee t = t\<lparr>clusterTxnLoadFee := fee\<rparr>"

definition getLoadBase :: int where
  "getLoadBase = lftNormalFee"

definition getLoadFactor :: "LoadFeeTrack \<Rightarrow> int" where
  "getLoadFactor t = max (clusterTxnLoadFee t) (max (localTxnLoadFee t) (remoteTxnLoadFee t))"

definition getScalingFactors :: "LoadFeeTrack \<Rightarrow> int \<times> int" where
  "getScalingFactors t = (max (localTxnLoadFee t) (remoteTxnLoadFee t),
                          max (remoteTxnLoadFee t) (clusterTxnLoadFee t))"

definition isLoadedLocal :: "LoadFeeTrack \<Rightarrow> bool" where
  "isLoadedLocal t \<longleftrightarrow> raiseCount t \<noteq> 0 \<or> localTxnLoadFee t \<noteq> lftNormalFee"

definition isLoadedCluster :: "LoadFeeTrack \<Rightarrow> bool" where
  "isLoadedCluster t \<longleftrightarrow> raiseCount t \<noteq> 0 \<or> localTxnLoadFee t \<noteq> lftNormalFee \<or>
     clusterTxnLoadFee t \<noteq> lftNormalFee"

definition raiseLocalFee :: "LoadFeeTrack \<Rightarrow> bool \<times> LoadFeeTrack" where
  "raiseLocalFee t =
     (let t = t\<lparr>raiseCount := u32 (raiseCount t + 1)\<rparr> in
      if raiseCount t < 2 then (False, t)
      else
        let origFee = localTxnLoadFee t;
            l = (if localTxnLoadFee t < remoteTxnLoadFee t then remoteTxnLoadFee t else localTxnLoadFee t);
            l = u32 (l + l div lftFeeIncFraction);
            l = (if l > lftFeeMax then lftFeeMax else l)
        in (origFee \<noteq> l, t\<lparr>localTxnLoadFee := l\<rparr>))"

definition lowerLocalFee :: "LoadFeeTrack \<Rightarrow> bool \<times> LoadFeeTrack" where
  "lowerLocalFee t =
     (let origFee = localTxnLoadFee t;
          l = localTxnLoadFee t - localTxnLoadFee t div lftFeeDecFraction;
          l = (if l < lftNormalFee then lftNormalFee else l)
      in (origFee \<noteq> l, t\<lparr>raiseCount := 0, localTxnLoadFee := l\<rparr>))"

text \<open>Euclid's algorithm on 64-bit values.\<close>

function lowest_gcd :: "int \<Rightarrow> int \<Rightarrow> int" where
  "lowest_gcd x y = (if y = 0 then x else lowest_gcd y (x mod y))"
  by pat_completeness auto

termination lowest_gcd
proof (relation "measure (\<lambda>(x, y). nat \<bar>y\<bar>)", goal_cases)
  case (2 x y)
  then show ?case using abs_mod_less [of y x] by simp
qed simp

declare lowest_gcd.simps [simp del]

definition lowestTerms :: "int \<Rightarrow> int \<Rightarrow> int \<times> int" where
  "lowestTerms a b =
     (if a = 0 \<and> b = 0 then (a, b)
      else let x = lowest_gcd a b in (a div x, b div x))"

record Fees =
  fees_base :: int
  fees_units :: int

text \<open>A division by zero in the source stops the program.\<close>

definition checked_div :: "int \<Rightarrow> int \<Rightarrow> int result" where
  "checked_div a b = (if b = 0 then Inl div_by_zero else Inr (a div b))"

definition scale_factor :: "LoadFeeTrack \<Rightarrow> bool \<Rightarrow> int" where
  "scale_factor t bUnlimited =
     (case getScalingFactors t of (feeFactor, uRemFee) \<Rightarrow>
        if bUnlimited \<and> feeFactor > uRemFee \<and> feeFactor < u32 (4 * uRemFee) then uRemFee else feeFactor)"

definition scaleFeeLoad :: "int \<Rightarrow> LoadFeeTrack \<Rightarrow> Fees \<Rightarrow> bool \<Rightarrow> int result" where
  "scaleFeeLoad fee feeTrack fees bUnlimited =
     (if fee = 0 then Inr fee
      else
        let feeFactor = scale_factor feeTrack bUnlimited;
            baseFee = fees_base fees;
            den = u64 (fees_units fees * getLoadBase);
            (fee, den) = lowestTerms fee den;
            (baseFee, den) = lowestTerms baseFee den;
            (feeFactor, den) = lowestTerms feeFactor den;
            (fee, baseFee) = (if fee < baseFee then (baseFee, fee) else (fee, baseFee))
        in
        rbind (checked_div u64_max feeFactor) (\<lambda>q.
        if baseFee > q then Inl (overflow_error ''scaleFeeLoad'')
        else
          let baseFee = u64 (baseFee * feeFactor);
              (fee, baseFee) = (if fee < baseFee then (baseFee, fee) else (fee, baseFee))
          in
          rbind (checked_div u64_max baseFee) (\<lambda>q.
          if fee > q then
            rbind (checked_div fee den) (\<lambda>fee.
            if fee > q then Inl (overflow_error ''scaleFeeLoad'') else Inr (u64 (fee * baseFee)))
          else checked_div (u64 (fee * baseFee)) den)))"

subsection \<open>Scaling\<close>

lemma lowest_gcd_gcd: "0 \<le> x \<Longrightarrow> 0 \<le> y \<Longrightarrow> lowest_gcd x y = gcd x y"
proof (induction x y rule: lowest_gcd.induct)
  case (1 x y)
  show ?case
  proof (cases "y = 0")
    case False
    then have "lowest_gcd y (x mod y) = gcd y (x mod y)" using 1 by simp
    then show ?thesis using False by (subst lowest_gcd.simps) (simp add: gcd_red_int [of x y])
  qed (use 1 in \<open>simp add: lowest_gcd.simps\<close>)
qed

lemma lowestTerms_parts:
  assumes "0 \<le> a" "0 \<le> b" "0 < a \<or> 0 < b"
  obtains g a' b' where "lowestTerms a b = (a', b')" "0 < g" "a = a' * g" "b = b' * g" "0 \<le> a'" "0 \<le> b'"
proof
  let ?g = "gcd a b"
  show "lowestTerms a b = (a div ?g, b div ?g)" using assms by (auto simp: lowestTerms_def lowest_gcd_gcd Let_def)
  show "0 < ?g" using assms by auto
  show "a = a div ?g * ?g" "b = b div ?g * ?g" by simp_all
  show "0 \<le> a div ?g" using assms by (simp add: div_int_pos_iff)
  show "0 \<le> b div ?g" using assms by (simp add: div_int_pos_iff)
qed

text \<open>The part of the computation behind the reduction to lowest terms.\<close>

definition scale_reduced :: "int \<Rightarrow> int \<Rightarrow> int \<Rightarrow> int \<Rightarrow> int result" where
  "scale_reduced fee baseFee feeFactor den =
     (let (fee, baseFee) = (if fee < baseFee then (baseFee, fee) else (fee, baseFee)) in
      rbind (checked_div u64_max feeFactor) (\<lambda>q.
      if baseFee > q then Inl (overflow_error ''scaleFeeLoad'')
      else
        let baseFee = u64 (baseFee * feeFactor);
            (fee, baseFee) = (if fee < baseFee then (baseFee, fee) else (fee, baseFee))
        in
        rbind (checked_div u64_max baseFee) (\<lambda>q.
        if fee > q then
          rbind (checked_div fee den) (\<lambda>fee.
          if fee > q then Inl (overflow_error ''scaleFeeLoad'') else Inr (u64 (fee * baseFee)))
        else checked_div (u64 (fee * baseFee)) den)))"

lemma scaleFeeLoad_reduced:
  "fee \<noteq> 0 \<Longrightarrow> lowestTerms fee (u64 (fees_units fees * getLoadBase)) = (f, d1) \<Longrightarrow>
   lowestTerms (fees_base fees) d1 = (b, d2) \<Longrightarrow> lowestTerms (scale_factor t u) d2 = (k, d) \<Longrightarrow>
   scaleFeeLoad fee t fees u = scale_reduced f b k d"
  by (simp add: scaleFeeLoad_def scale_reduced_def)

definition scaled_to :: "int \<Rightarrow> int \<Rightarrow> int result \<Rightarrow> bool" where
  "scaled_to num den r \<longleftrightarrow>
     (case r of Inr fee \<Rightarrow> u64_range fee \<and> fee \<le> num div den \<and> (num < 2 ^ 64 \<longrightarrow> fee = num div den)
      | Inl e \<Rightarrow> e = overflow_error ''scaleFeeLoad'' \<and> 2 ^ 64 \<le> num)"

lemma le_div: "0 < b \<Longrightarrow> a \<le> m div b \<longleftrightarrow> a * b \<le> m" for a b m :: int
proof
  assume b: "0 < b" and "a \<le> m div b"
  then have "a * b \<le> m div b * b" by (simp add: mult_right_mono)
  also have "\<dots> \<le> m" using b by (simp add: minus_mod_eq_div_mult [symmetric])
  finally show "a * b \<le> m" .
next
  assume b: "0 < b" and "a * b \<le> m"
  then have "a * b div b \<le> m div b" by (intro zdiv_mono1)
  then show "a \<le> m div b" using b by simp
qed

lemma le_max_div: "0 < b \<Longrightarrow> a \<le> u64_max div b \<longleftrightarrow> a * b < 2 ^ 64" for a b :: int
  unfolding le_div u64_max_def by auto

lemma scale_product:
  assumes "0 < x" "0 < y" "0 < d" "y \<le> x"
  shows "scaled_to (x * y) d
    (rbind (checked_div u64_max y) (\<lambda>q. if x > q then rbind (checked_div x d) (\<lambda>x. if x > q
       then Inl (overflow_error ''scaleFeeLoad'') else Inr (u64 (x * y))) else checked_div (u64 (x * y)) d))"
proof -
  let ?M = "2 ^ 64 :: int"
  have lt: "x' > u64_max div y \<longleftrightarrow> \<not> x' * y < ?M" for x' using le_max_div [OF assms(2), of x'] by linarith
  have d0: "x div d * y * d \<le> x * y"
    using assms le_div [of d "x div d" x] by (metis mult.commute mult.left_commute mult_right_mono less_imp_le order_refl)
  have le: "x div d * y \<le> x * y div d" using d0 le_div [OF assms(3)] by simp
  have d: "0 \<le> x div d * y" "0 \<le> x * y div d" using assms by (simp_all add: pos_imp_zdiv_nonneg_iff)
  have nz: "y \<noteq> 0" "d \<noteq> 0" using assms by simp_all
  show ?thesis
  proof (cases "x * y < ?M")
    case True
    then have "u64 (x * y) = x * y" using assms by (intro u64_id) (simp add: u64_range_def)
    moreover have "x * y div d \<le> x * y" using zdiv_mono2 [of "x * y" 1 d] assms by simp
    ultimately show ?thesis
      using True d nz unfolding checked_div_def rbind_def by (simp add: lt scaled_to_def u64_range_def)
  next
    case False
    have "u64 (x div d * y) = x div d * y" if "x div d * y < ?M" using that d by (intro u64_id) (simp add: u64_range_def)
    then show ?thesis
      using False nz d le unfolding checked_div_def rbind_def by (auto simp: lt scaled_to_def u64_range_def)
  qed
qed

lemma scale_reduced_correct:
  assumes "0 < f" "0 < b" "0 < k" "0 < d"
  shows "scaled_to (f * b * k) d (scale_reduced f b k d)"
proof -
  define x where "x = max f b"
  define y where "y = min f b"
  have xy: "(if f < b then (b, f) else (f, b)) = (x, y)" "x * y = f * b" "0 < x" "0 < y" "y \<le> x"
    using assms by (auto simp: x_def y_def max_def min_def)
  have nz: "k \<noteq> 0" using assms by simp
  show ?thesis
  proof (cases "y * k < 2 ^ 64")
    case True
    then have u: "u64 (y * k) = y * k" using xy assms by (intro u64_id) (simp add: u64_range_def)
    define z where "z = max x (y * k)"
    define w where "w = min x (y * k)"
    have zw: "(if x < y * k then (y * k, x) else (x, y * k)) = (z, w)" "z * w = f * b * k" "0 < z" "0 < w" "w \<le> z"
      using xy assms by (auto simp: z_def w_def max_def min_def mult_ac)
    have y: "\<not> y > u64_max div k" using le_max_div [OF assms(3), of y] True by linarith
    have q: "checked_div u64_max k = Inr (u64_max div k)" using nz by (simp add: checked_div_def)
    show ?thesis
      unfolding scale_reduced_def xy(1) Let_def prod.case q rbind_simps if_not_P [OF y] u zw(1) zw(2) [symmetric]
      by (rule scale_product [OF zw(3,4) assms(4) zw(5)])
  next
    case False
    then have y: "y > u64_max div k" using le_max_div [OF assms(3), of y] by linarith
    have "1 * (y * k) \<le> x * (y * k)" using xy assms by (intro mult_right_mono) auto
    then have "2 ^ 64 \<le> f * b * k" using False xy(2) by (simp add: mult.assoc [symmetric])
    then show ?thesis
      using y nz unfolding scale_reduced_def xy Let_def by (simp add: checked_div_def scaled_to_def)
  qed
qed

lemma lowestTerms_zero:
  "0 \<le> d \<Longrightarrow> lowestTerms 0 d = (0, if d = 0 then 0 else 1)" "0 < a \<Longrightarrow> lowestTerms a 0 = (1, 0)"
  by (auto simp: lowestTerms_def lowest_gcd_gcd Let_def)

lemma lowestTerms_nonneg: "0 \<le> a \<Longrightarrow> 0 \<le> b \<Longrightarrow> 0 \<le> fst (lowestTerms a b) \<and> 0 \<le> snd (lowestTerms a b)"
  by (auto simp: lowestTerms_def lowest_gcd_gcd Let_def div_int_pos_iff)

lemma scale_reduced_zero:
  assumes "k = 0 \<or> b = 0 \<and> 0 < f \<and> 0 < k \<or> f = 1 \<and> b = 1 \<and> k = 1 \<and> d = 0"
  shows "scale_reduced f b k d = Inl div_by_zero"
proof -
  have "0 \<le> u64_max div k" if "0 < k" using that by (simp add: u64_max_def pos_imp_zdiv_nonneg_iff)
  with assms show ?thesis by (auto simp: scale_reduced_def checked_div_def u64_def u64_max_def)
qed

lemma scale_zero:
  assumes r: "0 < fee" "0 \<le> base" "0 \<le> factor" "0 \<le> D"
    and 1: "lowestTerms fee D = (f, d1)" and 2: "lowestTerms base d1 = (b, d2)" and 3: "lowestTerms factor d2 = (k, d)"
    and f: "0 < f" and z: "base = 0 \<or> D = 0 \<or> factor = 0"
  shows "scale_reduced f b k d = Inl div_by_zero"
proof -
  have d: "0 \<le> d1" "0 \<le> d2" "0 \<le> k"
    using lowestTerms_nonneg [of fee D] lowestTerms_nonneg [of base d1] lowestTerms_nonneg [of factor d2] r 1 2 3 by auto
  show ?thesis
  proof (cases "factor = 0 \<or> base = 0")
    case True
    have "k = 0" if "factor = 0" using 3 that lowestTerms_zero(1) [OF d(2)] by auto
    moreover have "b = 0" if "base = 0" using 2 that lowestTerms_zero(1) [OF d(1)] by auto
    ultimately show ?thesis using True d(3) f by (intro scale_reduced_zero) auto
  next
    case False
    then have "f = 1" "d1 = 0" using 1 z lowestTerms_zero(2) [OF r(1)] by auto
    then have "b = 1" "d2 = 0" using 2 lowestTerms_zero(2) [of base] False r by auto
    then have "k = 1" "d = 0" using 3 lowestTerms_zero(2) [of factor] False r by auto
    then show ?thesis using \<open>f = 1\<close> \<open>b = 1\<close> by (intro scale_reduced_zero) simp
  qed
qed



text \<open>
  The comment that an overflowing product of base fee and factor makes the result overflow
  does not hold: here the exact result fits 64 bits.
\<close>

lemma scaleFeeLoad_early_overflow:
  "scaleFeeLoad 8589934593 \<lparr>localTxnLoadFee = 256, remoteTxnLoadFee = 2147483649, clusterTxnLoadFee = 256,
      raiseCount = 0\<rparr> \<lparr>fees_base = 8589934593, fees_units = 2147483648\<rparr> False = Inl (overflow_error ''scaleFeeLoad'')"
  "8589934593 * 8589934593 * 2147483649 div (2147483648 * 256) < (2 ^ 64 :: int)"
  by code_simp+

subsection \<open>The local load fee\<close>

datatype LoadOp = OpRaise | OpLower | OpRemote int | OpCluster int

fun run_load :: "LoadOp \<Rightarrow> LoadFeeTrack \<Rightarrow> LoadFeeTrack" where
  "run_load OpRaise t = snd (raiseLocalFee t)"
| "run_load OpLower t = snd (lowerLocalFee t)"
| "run_load (OpRemote f) t = setRemoteFee f t"
| "run_load (OpCluster f) t = setClusterFee f t"

text \<open>From this remote fee on, raising by a quarter wraps around.\<close>

definition lft_wrap :: int where "lft_wrap = 3435973837"

fun load_op_ok :: "LoadOp \<Rightarrow> bool" where
  "load_op_ok (OpRemote f) \<longleftrightarrow> 0 \<le> f \<and> f < lft_wrap"
| "load_op_ok _ \<longleftrightarrow> True"

definition load_ok :: "LoadFeeTrack \<Rightarrow> bool" where
  "load_ok t \<longleftrightarrow> lftNormalFee \<le> localTxnLoadFee t \<and> localTxnLoadFee t \<le> lftFeeMax \<and>
     0 \<le> remoteTxnLoadFee t \<and> remoteTxnLoadFee t < lft_wrap"

lemma load_ok_new: "load_ok LoadFeeTrack_new"
  by (simp add: load_ok_def LoadFeeTrack_new_def lft_defs lft_wrap_def)

lemma load_ok_raise: "load_ok t \<Longrightarrow> load_ok (snd (raiseLocalFee t))"
proof -
  assume ok: "load_ok t"
  define l where "l = max (localTxnLoadFee t) (remoteTxnLoadFee t)"
  have l: "256 \<le> l" "l < lft_wrap" using ok by (auto simp: l_def load_ok_def lft_defs lft_wrap_def)
  then have "0 \<le> l + l div 4" "l + l div 4 < 4294967296" by (auto simp: lft_wrap_def)
  then have "256 \<le> u32 (l + l div 4)" using l by (simp add: u32_def)
  then have "localTxnLoadFee t < remoteTxnLoadFee t \<longrightarrow> 256 \<le> u32 (remoteTxnLoadFee t + remoteTxnLoadFee t div 4)"
    "\<not> localTxnLoadFee t < remoteTxnLoadFee t \<longrightarrow> 256 \<le> u32 (localTxnLoadFee t + localTxnLoadFee t div 4)"
    by (auto simp: l_def max_def split: if_splits)
  then show ?thesis using ok by (simp add: raiseLocalFee_def Let_def load_ok_def lft_defs)
qed

lemma load_ok_run: "load_ok t \<Longrightarrow> load_op_ok x \<Longrightarrow> load_ok (run_load x t)"
  using load_ok_raise [of t]
  by (cases x) (auto simp: load_ok_def lowerLocalFee_def setRemoteFee_def setClusterFee_def Let_def lft_defs)

lemma load_ok_fold: "load_ok t \<Longrightarrow> \<forall>x \<in> set xs. load_op_ok x \<Longrightarrow> load_ok (fold run_load xs t)"
  by (induction xs arbitrary: t) (auto simp: load_ok_run)

definition lower_step :: "int \<Rightarrow> int" where
  "lower_step l = (if l - l div 4 < 256 then 256 else l - l div 4)"

lemma lower_step_mono: "k \<le> l \<Longrightarrow> lower_step k \<le> lower_step l"
proof -
  assume "k \<le> l"
  then have "k - k div 4 \<le> l - l div 4" by presburger
  then show ?thesis by (simp add: lower_step_def)
qed

lemma lower_local: "localTxnLoadFee (snd (lowerLocalFee t)) = lower_step (localTxnLoadFee t)"
  by (simp add: lowerLocalFee_def Let_def lower_step_def lft_defs)

lemma lower_iter:
  assumes "localTxnLoadFee t \<le> l"
  shows "localTxnLoadFee (fold run_load (replicate n OpLower) t) \<le> (lower_step ^^ n) l"
  using assms
proof (induction n arbitrary: t l)
  case (Suc n)
  have "localTxnLoadFee (run_load OpLower t) \<le> lower_step l"
    using lower_step_mono [OF Suc.prems] by (simp add: lower_local)
  from Suc.IH [OF this] show ?case by (simp add: funpow_swap1)
qed simp

lemma lower_normal: "localTxnLoadFee t = 256 \<Longrightarrow> localTxnLoadFee (fold run_load (replicate n OpLower) t) = 256"
  by (induction n arbitrary: t) (simp_all add: lower_local lower_step_def)

lemma lower_raise: "0 < n \<Longrightarrow> raiseCount (fold run_load (replicate n OpLower) t) = 0"
proof -
  have z: "raiseCount t = 0 \<Longrightarrow> raiseCount (fold run_load (replicate j OpLower) t) = 0" for j t
    by (induction j arbitrary: t) (simp_all add: lowerLocalFee_def Let_def)
  assume "0 < n"
  then obtain j where "n = Suc j" by (cases n) auto
  then show ?thesis using z [of "run_load OpLower t" j] by (simp add: lowerLocalFee_def Let_def)
qed

lemma lower_step_numeral: "lower_step (numeral k) =
    (if numeral k - numeral k div 4 < (256 :: int) then 256 else numeral k - numeral k div 4)"
  by (rule lower_step_def)

lemma lower_max: "(lower_step ^^ 49) 256000000 = 256"
  by (simp add: eval_nat_numeral(2,3) lower_step_numeral)

text \<open>
  C40. Load fees stay bounded and recover: after any sequence of raising, lowering and updates
  from peers in which no peer reports a fee of 3435973837 or more, the local fee is between the
  normal fee and a million times it; and from then on 49 calls of \<^verbatim>\<open>lowerLocalFee\<close>, or more, bring
  the server back to the normal fee and to not being loaded.
\<close>
theorem load_fee_recovers:
  assumes "\<forall>x \<in> set xs. load_op_ok x" "49 \<le> n"
  shows "let t = fold run_load xs LoadFeeTrack_new; t' = fold run_load (replicate n OpLower) t in
    lftNormalFee \<le> localTxnLoadFee t \<and> localTxnLoadFee t \<le> lftFeeMax \<and>
    localTxnLoadFee t' = lftNormalFee \<and> \<not> isLoadedLocal t'"
proof -
  define t where "t = fold run_load xs LoadFeeTrack_new"
  have ok: "load_ok t" unfolding t_def by (rule load_ok_fold [OF load_ok_new assms(1)])
  obtain k where n: "n = 49 + k" using assms(2) le_Suc_ex by blast
  define t1 where "t1 = fold run_load (replicate 49 OpLower) t"
  have ops: "\<forall>x \<in> set (replicate j OpLower). load_op_ok x" for j by simp
  have "localTxnLoadFee t1 \<le> 256"
    using lower_iter [of t 256000000 49] ok unfolding lower_max t1_def by (simp add: load_ok_def lft_defs)
  moreover have "load_ok t1" unfolding t1_def by (rule load_ok_fold [OF ok ops])
  ultimately have t1: "localTxnLoadFee t1 = 256" by (simp add: load_ok_def lft_defs)
  have t': "fold run_load (replicate n OpLower) t = fold run_load (replicate k OpLower) t1"
    by (simp add: n t1_def replicate_add)
  have "raiseCount (fold run_load (replicate n OpLower) t) = 0" by (rule lower_raise) (use assms(2) in simp)
  moreover have "localTxnLoadFee (fold run_load (replicate n OpLower) t) = 256"
    unfolding t' by (rule lower_normal [OF t1])
  moreover have "256 \<le> localTxnLoadFee t" "localTxnLoadFee t \<le> lftFeeMax"
    using ok by (simp_all add: load_ok_def lftNormalFee_def)
  ultimately show ?thesis
    unfolding t_def [symmetric] Let_def isLoadedLocal_def lftNormalFee_def by blast
qed

theorem load_fee_recovers_witness:
  "let t = fold run_load [OpRaise, OpRemote 1000, OpRaise, OpRaise] LoadFeeTrack_new;
       t' = fold run_load (replicate 60 OpLower) t in
   lftNormalFee \<le> localTxnLoadFee t \<and> localTxnLoadFee t \<le> lftFeeMax \<and>
   localTxnLoadFee t' = lftNormalFee \<and> \<not> isLoadedLocal t'"
  by (rule load_fee_recovers) (simp_all add: lft_wrap_def)

text \<open>The bound on what peers report is needed: the sum wraps to zero.\<close>

lemma raise_wraps:
  "localTxnLoadFee (fold run_load [OpRemote lft_wrap, OpRaise, OpRaise] LoadFeeTrack_new) = 0"
  by code_simp

end
