(* ===== verification/Transactor.thy ===== *)
theory Transactor
  imports STObject LoadFeeTrack
begin

text \<open>
  \<^verbatim>\<open>app/tx/impl/Transactor.cpp\<close>: the checks before a transaction is applied, the payment of its
  fee to the genesis account, and \<^verbatim>\<open>operator()\<close>, which runs the transactor, falls back to
  claiming the fee only, and decides whether the result is applied. What a transactor does
  beyond that is the argument \<open>doApply\<close>. Who may sign is the subject of \<open>Signing\<close>.
\<close>

record STTx =
  tx_fields :: STObject
  tx_id :: nat

text \<open>
  The context: state of the view (\<^verbatim>\<open>open\<close>, \<^verbatim>\<open>seq\<close>, \<^verbatim>\<open>fees\<close>, \<^verbatim>\<open>txExists\<close>), the server's load, the
  apply flags, whether \<^verbatim>\<open>checkValidity\<close> found the signature bad (its result is cached per transaction by
  the hash router) and the genesis account.
\<close>

record TxContext =
  cx_open :: bool
  cx_seq :: int
  cx_fees :: Fees
  cx_txExists :: "nat \<Rightarrow> bool"
  cx_track :: LoadFeeTrack
  tapNO_CHECK_SIGN :: bool
  tapRETRY :: bool
  tapUNLIMITED :: bool
  cx_sigBad :: bool
  cx_genesis :: int

definition SYSTEM_CURRENCY_START :: int where
  "SYSTEM_CURRENCY_START = 21 * 100000000 * 1000000"

definition isLegalAmount :: "int \<Rightarrow> bool" where
  "isLegalAmount drops \<longleftrightarrow> drops \<le> SYSTEM_CURRENCY_START"

definition publicKeyType :: "Blob \<Rightarrow> bool" where
  "publicKeyType key \<longleftrightarrow> length key = 33 \<and> hd key \<in> {0x02, 0x03, 0x22, 0x23, 0xED}"

subsection \<open>Checks\<close>

definition preflight0 :: "STTx \<Rightarrow> TER" where
  "preflight0 tx = (if tx_id tx = 0 then temINVALID else tesSUCCESS)"

definition preflight1 :: "STTx \<Rightarrow> TER result" where
  "preflight1 tx =
     (let ret = preflight0 tx in
      if \<not> isTesSuccess ret then Inr ret
      else if getAccountID sfAccount (tx_fields tx) = 0 then Inr temBAD_SRC_ACCOUNT
      else
        let fee = getFieldAmount sfFee (tx_fields tx) in
        if \<not> mIsNative fee \<or> mIsNegative fee then Inr temBAD_FEE
        else rbind (to_m fee) (\<lambda>drops.
          if \<not> isLegalAmount drops then Inr temBAD_FEE
          else
            let spk = getFieldVL sfSigningPubKey (tx_fields tx) in
            if spk \<noteq> [] \<and> \<not> publicKeyType spk then Inr temBAD_SIGNATURE else Inr tesSUCCESS))"

definition preflight2 :: "TxContext \<Rightarrow> TER" where
  "preflight2 cx = (if \<not> tapNO_CHECK_SIGN cx \<and> cx_sigBad cx then temINVALID else tesSUCCESS)"

definition calculateFee :: "TxContext \<Rightarrow> int \<Rightarrow> int result" where
  "calculateFee cx baseFee = scaleFeeLoad baseFee (cx_track cx) (cx_fees cx) (tapUNLIMITED cx)"

definition calculateBaseFee :: "TxContext \<Rightarrow> STTx \<Rightarrow> int" where
  "calculateBaseFee cx tx =
     (let baseFee = fees_units (cx_fees cx);
          baseFee = (if isFieldPresent sfPayees (tx_fields tx) then
                       let payees = getFieldArray sfPayees (tx_fields tx) in
                       if length payees > 1 then u64 (baseFee * int (length payees)) else baseFee
                     else baseFee);
          signerCount = (if isFieldPresent sfSigners (tx_fields tx)
                         then int (length (getFieldSigners sfSigners (tx_fields tx))) else 0)
      in u64 (baseFee + signerCount * baseFee))"

definition calculateFeePaid :: "STTx \<Rightarrow> int result" where
  "calculateFeePaid tx = to_m (getFieldAmount sfFee (tx_fields tx))"

definition checkFee :: "(HashArg list \<Rightarrow> nat) \<Rightarrow> TxContext \<Rightarrow> STTx \<Rightarrow> int \<Rightarrow> State \<Rightarrow> TER result" where
  "checkFee sha cx tx baseFee m =
     rbind (calculateFeePaid tx) (\<lambda>feePaid.
     if \<not> isLegalAmount feePaid \<or> feePaid < 0 then Inr temBAD_FEE
     else rbind (calculateFee cx baseFee) (\<lambda>feeDue.
       if cx_open cx \<and> feePaid < feeDue then Inr telINSUF_FEE_P
       else if feePaid = 0 then Inr tesSUCCESS
       else case peek (keylet_account sha (getAccountID sfAccount (tx_fields tx))) m of
              None \<Rightarrow> Inl null_deref
            | Some sle \<Rightarrow> rbind (to_m (getFieldAmount sfBalance sle)) (\<lambda>balance.
                if balance < feePaid then
                  if balance > 0 \<and> \<not> cx_open cx then Inr tecINSUFF_FEE else Inr terINSUF_FEE_B
                else Inr tesSUCCESS)))"

definition checkSeq :: "(HashArg list \<Rightarrow> nat) \<Rightarrow> TxContext \<Rightarrow> STTx \<Rightarrow> State \<Rightarrow> TER" where
  "checkSeq sha cx tx m =
     (let tx' = tx_fields tx in
      case peek (keylet_account sha (getAccountID sfAccount tx')) m of
        None \<Rightarrow> terNO_ACCOUNT
      | Some sle \<Rightarrow>
          let t_seq = getFieldU32 sfSequence tx'; a_seq = getFieldU32 sfSequence sle in
          if t_seq \<noteq> a_seq then
            if a_seq < t_seq then terPRE_SEQ
            else if cx_txExists cx (tx_id tx) then tefALREADY else tefPAST_SEQ
          else if isFieldPresent sfAccountTxnID tx' \<and>
                  getFieldH256 sfAccountTxnID sle \<noteq> getFieldH256 sfAccountTxnID tx' then tefWRONG_PRIOR
          else if isFieldPresent sfLastLedgerSequence tx' \<and>
                  cx_seq cx > getFieldU32 sfLastLedgerSequence tx' then tefMAX_LEDGER
          else tesSUCCESS)"

subsection \<open>Applying\<close>

definition setSeq :: "STTx \<Rightarrow> STObject \<Rightarrow> STObject" where
  "setSeq tx sle =
     (let sle = setFieldU32 sfSequence (u32 (getFieldU32 sfSequence (tx_fields tx) + 1)) sle in
      if isFieldPresent sfAccountTxnID sle then setFieldH256 sfAccountTxnID (tx_id tx) sle else sle)"

text \<open>Adding to the balance of an account: the amount is converted to drops and back.\<close>

definition add_drops :: "Keylet \<Rightarrow> int \<Rightarrow> State \<Rightarrow> State result" where
  "add_drops k drops m =
     (case peek k m of
        None \<Rightarrow> Inl null_deref
      | Some sle \<Rightarrow>
          rbind (to_m (getFieldAmount sfBalance sle)) (\<lambda>balance.
          rbind (of_m (s64 (balance + drops))) (\<lambda>amount.
            update k (setFieldAmount sfBalance amount) m)))"

definition payFee :: "(HashArg list \<Rightarrow> nat) \<Rightarrow> TxContext \<Rightarrow> STTx \<Rightarrow> State \<Rightarrow> State result" where
  "payFee sha cx tx m =
     (let account = getAccountID sfAccount (tx_fields tx) in
      if cx_genesis cx = account then Inr m
      else rbind (calculateFeePaid tx) (\<lambda>feePaid.
        rbind (add_drops (keylet_account sha account) (- feePaid) m) (\<lambda>m.
          add_drops (keylet_account sha (cx_genesis cx)) feePaid m)))"

definition tx_apply ::
    "(HashArg list \<Rightarrow> nat) \<Rightarrow> TxContext \<Rightarrow> STTx \<Rightarrow> int \<Rightarrow> (State \<Rightarrow> (TER \<times> State) result) \<Rightarrow>
       State \<Rightarrow> (TER \<times> State) result" where
  "tx_apply sha cx tx baseFee doApply m =
     (let k = keylet_account sha (getAccountID sfAccount (tx_fields tx)) in
      rbind (calculateFee cx baseFee) (\<lambda>feeDue.
      if exists k m then
        rbind (update k (setSeq tx) m) (\<lambda>m. rbind (payFee sha cx tx m) doApply)
      else doApply m))"

text \<open>
  Claiming the fee only. \<open>removeOffers\<close> is the removal of offers that were found unfunded,
  which happens for oversized transactions.
\<close>

definition claim_fee ::
    "(HashArg list \<Rightarrow> nat) \<Rightarrow> TxContext \<Rightarrow> STTx \<Rightarrow> (State \<Rightarrow> State result) \<Rightarrow> int \<Rightarrow> State \<Rightarrow> (int \<times> State) result" where
  "claim_fee sha cx tx removeOffers fee m =
     (let k = keylet_account sha (getAccountID sfAccount (tx_fields tx)) in
      case peek k m of
        None \<Rightarrow> Inl null_deref
      | Some sle \<Rightarrow>
          rbind (to_m (getFieldAmount sfBalance sle)) (\<lambda>balance.
          let fee = (if fee > balance then balance else fee) in
          rbind (add_drops k (- fee) m) (\<lambda>m.
          rbind (update k (setFieldU32 sfSequence (u32 (getFieldU32 sfSequence (tx_fields tx) + 1))) m) (\<lambda>m.
          rbind (removeOffers m) (\<lambda>m.
          rbind (add_drops (keylet_account sha (cx_genesis cx)) fee m) (\<lambda>m. Inr (fee, m)))))))"

text \<open>
  \<^verbatim>\<open>operator()\<close>: the result, whether it was applied, the new state and the drops handed to
  \<^verbatim>\<open>destroyM\<close>. \<open>items\<close> is the number of entries changed in the sandbox, \<^verbatim>\<open>ctx.size ()\<close>.
\<close>

definition transact ::
    "(HashArg list \<Rightarrow> nat) \<Rightarrow> TxContext \<Rightarrow> STTx \<Rightarrow> TER \<Rightarrow> int \<Rightarrow> nat \<Rightarrow> (State \<Rightarrow> State result) \<Rightarrow>
       (State \<Rightarrow> (TER \<times> State) result) \<Rightarrow> State \<Rightarrow> (TER \<times> bool \<times> State \<times> int) result" where
  "transact sha cx tx preclaimResult baseFee items removeOffers doApply m =
     rbind (if preclaimResult = tesSUCCESS then tx_apply sha cx tx baseFee doApply m
            else Inr (preclaimResult, m)) (\<lambda>(terResult, m1).
     rbind (to_m (getFieldAmount sfFee (tx_fields tx))) (\<lambda>fee.
     let didApply = isTesSuccess terResult;
         terResult = (if items > 5200 then tecOVERSIZE else terResult) in
     rbind (if terResult = tecOVERSIZE \<or> (isTecClaim terResult \<and> \<not> tapRETRY cx)
            then rbind (claim_fee sha cx tx (if terResult = tecOVERSIZE then removeOffers else Inr) fee m)
                   (\<lambda>(fee, m2). Inr (True, fee, m2))
            else Inr (didApply, fee, m1)) (\<lambda>(didApply, fee, m2).
     if \<not> didApply then Inr (terResult, False, m, 0)
     else if \<not> cx_open cx then
       if fee < 0 then Inl (logic_error ''amount is negative!'')
       else Inr (terResult, True, m2, fee)
     else Inr (terResult, True, m2, 0))))"

subsection \<open>Balances\<close>

definition balances :: "State \<Rightarrow> nat \<rightharpoonup> STAmount" where
  "balances m k = (case m k of None \<Rightarrow> None
     | Some e \<Rightarrow> if sle_type e = ltACCOUNT_ROOT then Some (getFieldAmount sfBalance (sle_obj e)) else None)"

definition sequences :: "State \<Rightarrow> nat \<rightharpoonup> int" where
  "sequences m k = (case m k of None \<Rightarrow> None
     | Some e \<Rightarrow> if sle_type e = ltACCOUNT_ROOT then Some (getFieldU32 sfSequence (sle_obj e)) else None)"

definition total :: "(nat \<rightharpoonup> STAmount) \<Rightarrow> int" where
  "total b = (\<Sum>k \<in> dom b. mValue (the (b k)))"

definition balance_ok :: "STAmount \<Rightarrow> bool" where
  "balance_ok a \<longleftrightarrow> mIsNative a \<and> \<not> mIsNegative a \<and> 0 \<le> mValue a"

text \<open>Non-negative native balances, at most the largest native amount altogether.\<close>

definition balances_ok :: "(nat \<rightharpoonup> STAmount) \<Rightarrow> bool" where
  "balances_ok b \<longleftrightarrow> finite (dom b) \<and> (\<forall>k a. b k = Some a \<longrightarrow> balance_ok a) \<and> total b \<le> cMaxNativeN"

lemma balances_okD:
  assumes "balances_ok b"
  shows "finite (dom b)" "b k = Some a \<Longrightarrow> balance_ok a" "total b \<le> cMaxNativeN"
  using assms unfolding balances_ok_def by blast+

lemma total_upd: "finite (dom b) \<Longrightarrow> b k = Some a \<Longrightarrow> total (b(k \<mapsto> a')) = total b - mValue a + mValue a'"
proof -
  assume f: "finite (dom b)" and k: "b k = Some a"
  then have d: "dom (b(k \<mapsto> a')) = insert k (dom b - {k})" "dom b = insert k (dom b - {k})" by auto
  have "total (b(k \<mapsto> a')) = mValue a' + (\<Sum>j \<in> dom b - {k}. mValue (the (b j)))"
    unfolding total_def d(1) using f by (subst sum.insert) (auto intro: sum.cong)
  moreover have "total b = mValue a + (\<Sum>j \<in> dom b - {k}. mValue (the (b j)))"
    unfolding total_def using f k by (subst d(2), subst sum.insert) auto
  ultimately show ?thesis by simp
qed

lemma total_nonneg: "balances_ok b \<Longrightarrow> 0 \<le> total b"
  unfolding total_def by (intro sum_nonneg) (auto simp: balances_ok_def balance_ok_def)

lemma balance_le_total: "balances_ok b \<Longrightarrow> b k = Some a \<Longrightarrow> mValue a \<le> total b"
proof -
  assume ok: "balances_ok b" and k: "b k = Some a"
  have "mValue (the (b k)) \<le> total b"
    unfolding total_def
    by (rule member_le_sum) (use ok k in \<open>auto simp: balances_ok_def balance_ok_def\<close>)
  then show ?thesis using k by simp
qed

definition drops_amount :: "int \<Rightarrow> STAmount" where
  "drops_amount d = \<lparr>mIssue = mIssue0, mValue = d, mOffset = 0, mIsNative = True, mIsNegative = False, mDecimal = 0\<rparr>"

lemma of_m_drops: "0 \<le> d \<Longrightarrow> d \<le> cMaxNativeN \<Longrightarrow> of_m d = Inr (drops_amount d)"
  by (simp add: of_m_def canonicalize_def drops_amount_def isM_def mIssue0_def native_down.simps native_up.simps)

lemma to_m_balance: "balance_ok a \<Longrightarrow> mValue a \<le> cMaxNativeN \<Longrightarrow> to_m a = Inr (mValue a)"
  by (simp add: balance_ok_def to_m_def s64_def cMaxNativeN_def)

lemma s64_small: "0 \<le> d \<Longrightarrow> d \<le> cMaxNativeN \<Longrightarrow> s64 d = d"
  by (simp add: s64_def cMaxNativeN_def)

lemma peek_account:
  "peek (keylet_account sha a) m = Some sle \<longleftrightarrow>
     (\<exists>e. m (getAccountRootIndex sha a) = Some e \<and> sle_type e = ltACCOUNT_ROOT \<and> sle_obj e = sle)"
  by (auto simp: peek_def lookup_def check_def keylet_account_def lt_codes split: option.splits)

lemma add_drops_ok:
  assumes ok: "balances_ok (balances m)" and p: "peek (keylet_account sha a) m = Some sle"
    and d: "0 \<le> mValue (getFieldAmount sfBalance sle) + d"
      "mValue (getFieldAmount sfBalance sle) + d \<le> cMaxNativeN"
  shows "add_drops (keylet_account sha a) d m =
    update (keylet_account sha a) (setFieldAmount sfBalance (drops_amount (mValue (getFieldAmount sfBalance sle) + d))) m"
proof -
  let ?b = "getFieldAmount sfBalance sle"
  have b: "balances m (getAccountRootIndex sha a) = Some ?b" using p by (auto simp: peek_account balances_def)
  have v: "mValue ?b \<le> cMaxNativeN" using balance_le_total [OF ok b] balances_okD(3) [OF ok] by simp
  show ?thesis
    unfolding add_drops_def p using to_m_balance [OF balances_okD(2) [OF ok b] v] of_m_drops [OF d] s64_small [OF d] by simp
qed

lemma update_account:
  assumes p: "peek (keylet_account sha a) m = Some sle"
  obtains m' where "update (keylet_account sha a) f m = Inr m'"
    "peek (keylet_account sha a) m' = Some (f sle)"
    "balances m' = (balances m)(getAccountRootIndex sha a \<mapsto> getFieldAmount sfBalance (f sle))"
    "sequences m' = (sequences m)(getAccountRootIndex sha a \<mapsto> getFieldU32 sfSequence (f sle))"
    "\<And>k. k \<noteq> getAccountRootIndex sha a \<Longrightarrow> m' k = m k"
proof -
  obtain e where e: "m (getAccountRootIndex sha a) = Some e" "sle_type e = ltACCOUNT_ROOT" "sle_obj e = sle"
    using p by (auto simp: peek_account)
  let ?m = "m(getAccountRootIndex sha a \<mapsto> e\<lparr>sle_obj := f sle\<rparr>)"
  show ?thesis
  proof (rule that [of ?m])
    show "update (keylet_account sha a) f m = Inr ?m" using e by (simp add: update_def keylet_account_def)
    show "peek (keylet_account sha a) ?m = Some (f sle)" using e by (auto simp: peek_account)
    show "balances ?m = (balances m)(getAccountRootIndex sha a \<mapsto> getFieldAmount sfBalance (f sle))"
      using e by (auto simp: balances_def fun_eq_iff)
    show "sequences ?m = (sequences m)(getAccountRootIndex sha a \<mapsto> getFieldU32 sfSequence (f sle))"
      using e by (auto simp: sequences_def fun_eq_iff)
  qed simp
qed

lemma balances_peek: "peek (keylet_account sha a) m = Some sle \<Longrightarrow>
    balances m (getAccountRootIndex sha a) = Some (getFieldAmount sfBalance sle) \<and>
    sequences m (getAccountRootIndex sha a) = Some (getFieldU32 sfSequence sle)"
  by (auto simp: peek_account balances_def sequences_def)

lemma peek_balances: "balances m (getAccountRootIndex sha a) = Some b \<Longrightarrow>
    \<exists>sle. peek (keylet_account sha a) m = Some sle \<and> getFieldAmount sfBalance sle = b"
  by (auto simp: peek_account balances_def split: option.splits if_splits)

text \<open>What the fee, the payer and the accounts it concerns look like after the checks.\<close>

definition payer :: "(HashArg list \<Rightarrow> nat) \<Rightarrow> STTx \<Rightarrow> nat" where
  "payer sha tx = getAccountRootIndex sha (getAccountID sfAccount (tx_fields tx))"

definition fee_of :: "STTx \<Rightarrow> int" where
  "fee_of tx = mValue (getFieldAmount sfFee (tx_fields tx))"

definition next_seq :: "STTx \<Rightarrow> int" where
  "next_seq tx = u32 (getFieldU32 sfSequence (tx_fields tx) + 1)"

definition fee_ready :: "(HashArg list \<Rightarrow> nat) \<Rightarrow> TxContext \<Rightarrow> STTx \<Rightarrow> State \<Rightarrow> bool" where
  "fee_ready sha cx tx m \<longleftrightarrow> balances_ok (balances m) \<and> balance_ok (getFieldAmount sfFee (tx_fields tx)) \<and>
     fee_of tx \<le> cMaxNativeN \<and> balances m (payer sha tx) \<noteq> None \<and>
     balances m (getAccountRootIndex sha (cx_genesis cx)) \<noteq> None"

text \<open>
  What running a transaction leaves: no drop is created or lost; if it was applied, the sequence
  number of the payer has advanced and at most the fee was counted as destroyed.
\<close>

definition fee_settled :: "(HashArg list \<Rightarrow> nat) \<Rightarrow> STTx \<Rightarrow> State \<Rightarrow> bool \<Rightarrow> State \<Rightarrow> int \<Rightarrow> bool" where
  "fee_settled sha tx m applied m' d \<longleftrightarrow>
     balances_ok (balances m') \<and> total (balances m') = total (balances m) \<and>
     (if applied then sequences m' (payer sha tx) = Some (next_seq tx) \<and> 0 \<le> d \<and> d \<le> fee_of tx
      else m' = m \<and> d = 0)"

text \<open>Fields of an account root that fee payment does not touch.\<close>

definition fee_change :: "(STObject \<Rightarrow> STObject) \<Rightarrow> bool" where
  "fee_change f \<longleftrightarrow> (\<forall>obj. f_u64 (f obj) = f_u64 obj \<and> f_account (f obj) = f_account obj \<and> getFlags (f obj) = getFlags obj)"

lemma fee_change_intros:
  "fee_change (setFieldAmount fld v)" "fee_change (setFieldU32 sfSequence n)" "fee_change (setSeq tx)"
  by (simp_all add: fee_change_def st_fields setSeq_def Let_def)

text \<open>
  The contract of the part of a transactor below \<^verbatim>\<open>doApply\<close>: a condition \<open>inv\<close> that does not depend
  on balances and sequence numbers; from it \<^verbatim>\<open>doApply\<close> returns, leaves balances and sequence numbers
  alone, and establishes \<open>post\<close> if it succeeds.
\<close>

locale handler =
  fixes sha :: "HashArg list \<Rightarrow> nat" and inv :: "State \<Rightarrow> bool" and post :: "State \<Rightarrow> bool"
    and doApply :: "State \<Rightarrow> (TER \<times> State) result"
  assumes inv_post: "inv m \<Longrightarrow> post m"
    and account_change: "inv m \<Longrightarrow> peek (keylet_account sha a) m = Some sle \<Longrightarrow> fee_change f \<Longrightarrow>
      update (keylet_account sha a) f m = Inr m' \<Longrightarrow> inv m'"
    and runs: "inv m \<Longrightarrow> \<exists>ter m'. doApply m = Inr (ter, m') \<and> balances m' = balances m \<and>
      sequences m' = sequences m \<and> (ter = tesSUCCESS \<longrightarrow> post m')"
begin

lemma account_update:
  assumes "inv m" "peek (keylet_account sha a) m = Some sle" "fee_change f"
  shows "\<exists>m'. update (keylet_account sha a) f m = Inr m' \<and> inv m' \<and>
    balances m' = (balances m)(getAccountRootIndex sha a \<mapsto> getFieldAmount sfBalance (f sle)) \<and>
    sequences m' = (sequences m)(getAccountRootIndex sha a \<mapsto> getFieldU32 sfSequence (f sle))"
proof -
  obtain m' where u: "update (keylet_account sha a) f m = Inr m'"
    "balances m' = (balances m)(getAccountRootIndex sha a \<mapsto> getFieldAmount sfBalance (f sle))"
    "sequences m' = (sequences m)(getAccountRootIndex sha a \<mapsto> getFieldU32 sfSequence (f sle))"
    by (rule update_account [OF assms(2), of f])
  with account_change [OF assms u(1)] show ?thesis by blast
qed

lemma drops_added:
  assumes i: "inv m" and ok: "balances_ok (balances m)" and p: "balances m (getAccountRootIndex sha a) = Some b"
    and d: "0 \<le> mValue b + d" "mValue b + d \<le> cMaxNativeN"
  shows "\<exists>m'. add_drops (keylet_account sha a) d m = Inr m' \<and> inv m' \<and>
    balances m' = (balances m)(getAccountRootIndex sha a \<mapsto> drops_amount (mValue b + d)) \<and> sequences m' = sequences m"
proof -
  obtain sle where s: "peek (keylet_account sha a) m = Some sle" "getFieldAmount sfBalance sle = b"
    using peek_balances [OF p] by blast
  have q: "sequences m (getAccountRootIndex sha a) = Some (getFieldU32 sfSequence sle)" using balances_peek [OF s(1)] by simp
  from account_update [OF i s(1) fee_change_intros(1), of sfBalance "drops_amount (mValue b + d)"] q
  show ?thesis using add_drops_ok [OF ok s(1), of d] d s(2) by (auto simp: st_fields fun_upd_idem)
qed

text \<open>Moving drops between two accounts, or within one.\<close>

lemma drops_moved:
  assumes i: "inv m" and ok: "balances_ok (balances m)"
    and a: "balances m (getAccountRootIndex sha a) = Some b" and g: "balances m (getAccountRootIndex sha g) = Some c"
    and d: "0 \<le> d" "d \<le> mValue b"
  shows "\<exists>m1. add_drops (keylet_account sha a) (- d) m = Inr m1 \<and> inv m1 \<and> sequences m1 = sequences m \<and>
    balances m1 = (balances m)(getAccountRootIndex sha a \<mapsto> drops_amount (mValue b - d)) \<and>
    (\<forall>m2. inv m2 \<and> balances m2 = balances m1 \<longrightarrow> (\<exists>m'. add_drops (keylet_account sha g) d m2 = Inr m' \<and> inv m' \<and>
       sequences m' = sequences m2 \<and> balances_ok (balances m') \<and> total (balances m') = total (balances m)))"
proof -
  let ?a = "getAccountRootIndex sha a" and ?g = "getAccountRootIndex sha g"
  note fin = balances_okD(1) [OF ok] and tot = balances_okD(3) [OF ok]
  have b: "0 \<le> mValue b" "mValue b \<le> total (balances m)"
    using balances_okD(2) [OF ok a] balance_le_total [OF ok a] by (simp_all add: balance_ok_def)
  obtain m1 where m1: "add_drops (keylet_account sha a) (- d) m = Inr m1" "inv m1" "sequences m1 = sequences m"
    "balances m1 = (balances m)(?a \<mapsto> drops_amount (mValue b - d))"
    using drops_added [OF i ok a, of "- d"] b d tot by auto
  have t1: "total (balances m1) = total (balances m) - d"
    unfolding m1(4) using total_upd [OF fin a] by (simp add: drops_amount_def)
  have ok1: "balances_ok (balances m1)"
    unfolding balances_ok_def t1 using ok d b(1) tot
    by (auto simp: m1(4) balances_ok_def drops_amount_def balance_ok_def split: if_splits)
  obtain c1 where c1: "balances m1 ?g = Some c1" using g by (cases "?g = ?a") (auto simp: m1(4))
  have le: "0 \<le> mValue c1" "mValue c1 \<le> total (balances m) - d"
    using balances_okD(2) [OF ok1 c1] balance_le_total [OF ok1 c1] t1 by (simp_all add: balance_ok_def)
  have "\<exists>m'. add_drops (keylet_account sha g) d m2 = Inr m' \<and> inv m' \<and> sequences m' = sequences m2 \<and>
      balances_ok (balances m') \<and> total (balances m') = total (balances m)" if m2: "inv m2" "balances m2 = balances m1" for m2
  proof -
    obtain m' where m': "add_drops (keylet_account sha g) d m2 = Inr m'" "inv m'" "sequences m' = sequences m2"
      "balances m' = (balances m1)(?g \<mapsto> drops_amount (mValue c1 + d))"
      using drops_added [OF m2(1), of g c1 d] m2(2) ok1 c1 le d tot by auto
    have "total (balances m') = total (balances m)"
      unfolding m'(4) using total_upd [OF balances_okD(1) [OF ok1] c1] t1 by (simp add: drops_amount_def)
    moreover from this have "balances_ok (balances m')"
      using ok1 le(1) d tot unfolding balances_ok_def by (auto simp: m'(4) drops_amount_def balance_ok_def split: if_splits)
    ultimately show ?thesis using m' by blast
  qed
  with m1 show ?thesis by blast
qed

lemma paid:
  assumes i: "inv m" and r: "fee_ready sha cx tx m" and c: "calculateFee cx baseFee = Inr due"
    and e: "fee_of tx \<le> mValue (the (balances m (payer sha tx)))"
  shows "\<exists>ter m1. tx_apply sha cx tx baseFee doApply m = Inr (ter, m1) \<and> balances_ok (balances m1) \<and>
    total (balances m1) = total (balances m) \<and> sequences m1 = (sequences m)(payer sha tx \<mapsto> next_seq tx) \<and>
    (ter = tesSUCCESS \<longrightarrow> post m1)"
proof -
  let ?k = "keylet_account sha (getAccountID sfAccount (tx_fields tx))"
  note r = r [unfolded fee_ready_def]
  obtain b where b: "balances m (payer sha tx) = Some b" using r by blast
  obtain sle where s: "peek ?k m = Some sle" "getFieldAmount sfBalance sle = b"
    using peek_balances [of m sha] b by (auto simp: payer_def)
  have "getFieldU32 sfSequence (setSeq tx sle) = next_seq tx" "getFieldAmount sfBalance (setSeq tx sle) = b"
    using s(2) by (simp_all add: setSeq_def st_fields Let_def next_seq_def)
  with account_update [OF i s(1) fee_change_intros(3), of tx] obtain m1 where
    m1: "update ?k (setSeq tx) m = Inr m1" "inv m1" "balances m1 = balances m"
      "sequences m1 = (sequences m)(payer sha tx \<mapsto> next_seq tx)"
    using b by (auto simp: payer_def fun_upd_idem)
  have "\<exists>m2. payFee sha cx tx m1 = Inr m2 \<and> inv m2 \<and> sequences m2 = sequences m1 \<and> balances_ok (balances m2) \<and>
      total (balances m2) = total (balances m)"
  proof (cases "cx_genesis cx = getAccountID sfAccount (tx_fields tx)")
    case True
    then show ?thesis using m1 r by (simp add: payFee_def)
  next
    case False
    obtain g where g: "balances m1 (getAccountRootIndex sha (cx_genesis cx)) = Some g" using r m1(3) by auto
    have f: "calculateFeePaid tx = Inr (fee_of tx)" "0 \<le> fee_of tx"
      using r to_m_balance by (auto simp: calculateFeePaid_def fee_of_def balance_ok_def)
    have le: "fee_of tx \<le> mValue b" using e b by simp
    have "balances_ok (balances m1)" using r m1(3) by simp
    from drops_moved [OF m1(2) this _ g f(2) le] b m1(3) show ?thesis
      using False f(1) unfolding payFee_def payer_def by fastforce
  qed
  then obtain m2 where m2: "payFee sha cx tx m1 = Inr m2" "inv m2" "sequences m2 = sequences m1"
    "balances_ok (balances m2)" "total (balances m2) = total (balances m)" by blast
  have "exists ?k m" using s(1) by (auto simp: exists_def peek_def)
  then show ?thesis using runs [OF m2(2)] m1 m2 c by (auto simp: tx_apply_def Let_def)
qed

lemma claimed:
  assumes i: "inv m" and r: "fee_ready sha cx tx m"
    and o: "\<And>m. inv m \<Longrightarrow> \<exists>m'. rem m = Inr m' \<and> inv m' \<and> balances m' = balances m \<and> sequences m' = sequences m"
  shows "\<exists>d m2. claim_fee sha cx tx rem (fee_of tx) m = Inr (d, m2) \<and> 0 \<le> d \<and> d \<le> fee_of tx \<and> inv m2 \<and>
    balances_ok (balances m2) \<and> total (balances m2) = total (balances m) \<and>
    sequences m2 = (sequences m)(payer sha tx \<mapsto> next_seq tx)"
proof -
  let ?k = "keylet_account sha (getAccountID sfAccount (tx_fields tx))"
  note r = r [unfolded fee_ready_def]
  obtain b where b: "balances m (payer sha tx) = Some b" using r by blast
  obtain g where g: "balances m (getAccountRootIndex sha (cx_genesis cx)) = Some g" using r by auto
  have b0: "0 \<le> mValue b" "mValue b \<le> cMaxNativeN"
    using balances_okD [OF conjunct1 [OF r]] b balance_le_total [OF conjunct1 [OF r] b] by (auto simp: balance_ok_def)
  define d where "d = (if fee_of tx > mValue b then mValue b else fee_of tx)"
  have d: "0 \<le> d" "d \<le> mValue b" "d \<le> fee_of tx" using r b0 by (auto simp: d_def fee_of_def balance_ok_def)
  obtain sle where s: "peek ?k m = Some sle" "getFieldAmount sfBalance sle = b"
    using peek_balances [of m sha] b by (auto simp: payer_def)
  have t: "to_m (getFieldAmount sfBalance sle) = Inr (mValue b)"
    using s(2) to_m_balance [OF balances_okD(2) [OF conjunct1 [OF r] b] b0(2)] by simp
  obtain m1 where m1: "add_drops ?k (- d) m = Inr m1" "inv m1" "sequences m1 = sequences m"
    "balances m1 = (balances m)(payer sha tx \<mapsto> drops_amount (mValue b - d))"
    and mv: "\<And>m2. inv m2 \<Longrightarrow> balances m2 = balances m1 \<Longrightarrow> \<exists>m'. add_drops (keylet_account sha (cx_genesis cx)) d m2 = Inr m' \<and>
       inv m' \<and> sequences m' = sequences m2 \<and> balances_ok (balances m') \<and> total (balances m') = total (balances m)"
    using drops_moved [OF i conjunct1 [OF r] _ g d(1,2), of "getAccountID sfAccount (tx_fields tx)"] b
    by (auto simp: payer_def)
  obtain sle1 where s1: "peek ?k m1 = Some sle1" "getFieldAmount sfBalance sle1 = drops_amount (mValue b - d)"
    using peek_balances [of m1 sha "getAccountID sfAccount (tx_fields tx)"] m1(4) by (simp add: payer_def) blast
  have "getFieldAmount sfBalance (setFieldU32 sfSequence (next_seq tx) sle1) = drops_amount (mValue b - d)"
    "getFieldU32 sfSequence (setFieldU32 sfSequence (next_seq tx) sle1) = next_seq tx"
    using s1(2) by (simp_all add: st_fields)
  with account_update [OF m1(2) s1(1) fee_change_intros(2), of "next_seq tx"] obtain m2 where
    m2: "update ?k (setFieldU32 sfSequence (next_seq tx)) m1 = Inr m2" "inv m2" "balances m2 = balances m1"
      "sequences m2 = (sequences m)(payer sha tx \<mapsto> next_seq tx)"
    using m1(3,4) by (auto simp: payer_def)
  obtain m3 where m3: "rem m2 = Inr m3" "inv m3" "balances m3 = balances m2" "sequences m3 = sequences m2"
    using o [OF m2(2)] by blast
  obtain m4 where m4: "add_drops (keylet_account sha (cx_genesis cx)) d m3 = Inr m4" "inv m4" "sequences m4 = sequences m3"
    "balances_ok (balances m4)" "total (balances m4) = total (balances m)"
    using mv [OF m3(2)] m3(3) m2(3) by auto
  have "claim_fee sha cx tx rem (fee_of tx) m = Inr (d, m4)"
    unfolding claim_fee_def Let_def using s(1) t m1(1) m2(1) m3(1) m4(1) by (simp add: d_def next_seq_def)
  then show ?thesis using d m4 m3 m2 by auto
qed

lemma transact_runs:
  assumes i: "inv m" and r: "fee_ready sha cx tx m" and c: "calculateFee cx baseFee = Inr due"
    and e: "pre = tesSUCCESS \<Longrightarrow> fee_of tx \<le> mValue (the (balances m (payer sha tx)))"
    and o: "\<And>m. inv m \<Longrightarrow> \<exists>m'. rem m = Inr m' \<and> inv m' \<and> balances m' = balances m \<and> sequences m' = sequences m"
  shows "\<exists>ter applied m' d. transact sha cx tx pre baseFee items rem doApply m = Inr (ter, applied, m', d) \<and>
    post m' \<and> fee_settled sha tx m applied m' d"
proof -
  let ?a = "if pre = tesSUCCESS then tx_apply sha cx tx baseFee doApply m else Inr (pre, m)"
  have "\<exists>ter1 m1. ?a = Inr (ter1, m1) \<and> (ter1 = tesSUCCESS \<longrightarrow> post m1 \<and> balances_ok (balances m1) \<and>
      total (balances m1) = total (balances m) \<and> sequences m1 = (sequences m)(payer sha tx \<mapsto> next_seq tx))"
    using paid [OF i r c] e by (cases "pre = tesSUCCESS") auto
  then obtain ter1 m1 where 1: "?a = Inr (ter1, m1)" "ter1 = tesSUCCESS \<Longrightarrow> post m1 \<and> balances_ok (balances m1) \<and>
      total (balances m1) = total (balances m) \<and> sequences m1 = (sequences m)(payer sha tx \<mapsto> next_seq tx)" by blast
  have f: "to_m (getFieldAmount sfFee (tx_fields tx)) = Inr (fee_of tx)" "0 \<le> fee_of tx"
    using r to_m_balance by (auto simp: fee_ready_def fee_of_def balance_ok_def)
  define ter where "ter = (if items > 5200 then tecOVERSIZE else ter1)"
  show ?thesis
  proof (cases "ter = tecOVERSIZE \<or> (isTecClaim ter \<and> \<not> tapRETRY cx)")
    case True
    have "\<exists>d m2. claim_fee sha cx tx (if ter = tecOVERSIZE then rem else Inr) (fee_of tx) m = Inr (d, m2) \<and> 0 \<le> d \<and>
        d \<le> fee_of tx \<and> inv m2 \<and> balances_ok (balances m2) \<and> total (balances m2) = total (balances m) \<and>
        sequences m2 = (sequences m)(payer sha tx \<mapsto> next_seq tx)"
      by (rule claimed [OF i r]) (use o in \<open>auto split: if_splits\<close>)
    then obtain d m2 where 2: "claim_fee sha cx tx (if ter = tecOVERSIZE then rem else Inr) (fee_of tx) m = Inr (d, m2)"
      "0 \<le> d" "d \<le> fee_of tx" "inv m2" "balances_ok (balances m2)" "total (balances m2) = total (balances m)"
      "sequences m2 = (sequences m)(payer sha tx \<mapsto> next_seq tx)" by blast
    have "transact sha cx tx pre baseFee items rem doApply m = Inr (ter, True, m2, if cx_open cx then 0 else d)"
      unfolding transact_def 1(1) rbind_simps prod.case f(1) Let_def ter_def [symmetric] if_P [OF True] 2(1)
      using 2(2) by simp
    then show ?thesis using 2 f(2) inv_post [OF 2(4)] by (auto simp: fee_settled_def)
  next
    case False
    have t: "transact sha cx tx pre baseFee items rem doApply m =
        (if ter1 = tesSUCCESS then Inr (ter, True, m1, if cx_open cx then 0 else fee_of tx) else Inr (ter, False, m, 0))"
      unfolding transact_def 1(1) rbind_simps prod.case f(1) Let_def ter_def [symmetric] if_not_P [OF False]
      using f(2) by simp
    show ?thesis
      using 1(2) inv_post [OF i] f(2) r unfolding t by (cases "ter1 = tesSUCCESS") (auto simp: fee_settled_def fee_ready_def)
  qed
qed

end

text \<open>A transactor whose changes are operations of a session: so is the whole transaction.\<close>

locale session_handler = handler +
  assumes key_nonzero: "inv m \<Longrightarrow> getAccountRootIndex sha a \<noteq> 0"
    and runs_by_ops: "inv m \<Longrightarrow> doApply m = Inr (ter, m') \<Longrightarrow> by_ops m m'"
begin

lemma tracked: "handler sha (\<lambda>m'. inv m' \<and> by_ops m m') (\<lambda>m'. post m' \<and> by_ops m m') doApply"
proof
  fix m' assume "inv m' \<and> by_ops m m'"
  then show "post m' \<and> by_ops m m'" using inv_post by blast
next
  fix m1 a sle f m2
  assume i: "inv m1 \<and> by_ops m m1" and p: "peek (keylet_account sha a) m1 = Some sle" and f: "fee_change f"
    and u: "update (keylet_account sha a) f m1 = Inr m2"
  have "kl_key (keylet_account sha a) \<noteq> 0" using key_nonzero [of m1 a] i by (simp add: keylet_account_def)
  with u have "by_ops m1 m2" by (intro update_by_ops)
  with i account_change [OF _ p f u] show "inv m2 \<and> by_ops m m2" by (auto intro: by_ops_trans)
next
  fix m1 assume i: "inv m1 \<and> by_ops m m1"
  then obtain ter m2 where "doApply m1 = Inr (ter, m2)" "balances m2 = balances m1" "sequences m2 = sequences m1"
    "ter = tesSUCCESS \<longrightarrow> post m2" using runs by blast
  with runs_by_ops [of m1 ter m2] i show "\<exists>ter m'. doApply m1 = Inr (ter, m') \<and> balances m' = balances m1 \<and>
      sequences m' = sequences m1 \<and> (ter = tesSUCCESS \<longrightarrow> post m' \<and> by_ops m m')"
    by (auto intro: by_ops_trans)
qed

lemma transact_session:
  assumes "inv m" "fee_ready sha cx tx m" "calculateFee cx baseFee = Inr due"
    "pre = tesSUCCESS \<Longrightarrow> fee_of tx \<le> mValue (the (balances m (payer sha tx)))"
  shows "\<exists>ter applied m' d. transact sha cx tx pre baseFee items Inr doApply m = Inr (ter, applied, m', d) \<and>
    post m' \<and> by_ops m m' \<and> fee_settled sha tx m applied m' d"
proof -
  have "inv m \<and> by_ops m m" using assms(1) by simp
  from handler.transact_runs [OF tracked this assms(2-4), where rem = Inr] show ?thesis by auto
qed

end

end
