(* ===== verification/Signing.thy ===== *)
theory Signing
  imports Transactor
begin

unbundle bit_operations_syntax

text \<open>
  Who may sign a transaction: signer lists (\<^verbatim>\<open>app/tx/impl/SignerEntries.cpp\<close> and the checks of
  \<^verbatim>\<open>SetSignerList.cpp\<close>), the signatures a transaction carries (\<^verbatim>\<open>protocol/impl/STTx.cpp\<close>), the keys an
  account accepts (\<^verbatim>\<open>Transactor::checkSign\<close>), the transactor \<^verbatim>\<open>SetRegularKey\<close>, and \<^verbatim>\<open>invoke_preclaim\<close>,
  which runs all checks against the ledger. The signature scheme \<open>verify\<close>, the account of a public
  key \<open>calc\<close> and the serialized unsigned fields \<open>flds\<close> are arguments of the definitions.
\<close>

definition minMultiSigners :: nat where "minMultiSigners = 1"
definition maxMultiSigners :: nat where "maxMultiSigners = 8"

definition lsfPasswordSpent :: int where "lsfPasswordSpent = 0x00010000"
definition lsfDisableMaster :: int where "lsfDisableMaster = 0x00100000"

definition tfFullyCanonicalSig :: int where "tfFullyCanonicalSig = 0x80000000"
definition tfUniversalMask :: int where "tfUniversalMask = u32 (NOT tfFullyCanonicalSig)"

definition setFlag :: "int \<Rightarrow> STObject \<Rightarrow> STObject" where
  "setFlag f obj = setFieldU32 sfFlags (getFlags obj OR f) obj"

definition isFlag :: "int \<Rightarrow> STObject \<Rightarrow> bool" where
  "isFlag f obj \<longleftrightarrow> getFlags obj AND f = f"

abbreviation sg_account :: "Signer \<Rightarrow> int" where
  "sg_account s \<equiv> get_or 0 (sg_Account s)"

abbreviation sg_key :: "Signer \<Rightarrow> Blob" where
  "sg_key s \<equiv> get_or [] (sg_SigningPubKey s)"

subsection \<open>Signer lists\<close>

record SignerEntry =
  se_account :: int
  se_weight :: int

fun SignerEntries_read :: "Signer list \<Rightarrow> SignerEntry list \<times> TER" where
  "SignerEntries_read [] = ([], tesSUCCESS)"
| "SignerEntries_read (sEntry # sEntries) =
     (if sg_fname sEntry \<noteq> sfSignerEntry then ([], temMALFORMED)
      else case SignerEntries_read sEntries of (accountVec, ter) \<Rightarrow>
        (\<lparr>se_account = sg_account sEntry, se_weight = get_or 0 (sg_SignerWeight sEntry)\<rparr> # accountVec, ter))"

definition SignerEntries_deserialize :: "STObject \<Rightarrow> SignerEntry list \<times> TER" where
  "SignerEntries_deserialize obj =
     (if \<not> isFieldPresent sfSignerEntries obj then ([], temMALFORMED)
      else SignerEntries_read (getFieldSigners sfSignerEntries obj))"

datatype SignerOperation = op_unknown | op_set | op_destroy

definition determineOperation :: "STTx \<Rightarrow> TER \<times> int \<times> SignerEntry list \<times> SignerOperation" where
  "determineOperation tx =
     (let t = tx_fields tx; quorum = getFieldU32 sfSignerQuorum t;
          hasSignerEntries = isFieldPresent sfSignerEntries t in
      if quorum \<noteq> 0 \<and> hasSignerEntries then
        case SignerEntries_deserialize t of (signers, ter) \<Rightarrow>
          if ter \<noteq> tesSUCCESS then (ter, quorum, [], op_unknown)
          else (tesSUCCESS, quorum, sort_key se_account signers, op_set)
      else if quorum = 0 \<and> \<not> hasSignerEntries then (tesSUCCESS, quorum, [], op_destroy)
      else (tesSUCCESS, quorum, [], op_unknown))"

fun adjacent_find :: "SignerEntry list \<Rightarrow> bool" where
  "adjacent_find (x # y # zs) \<longleftrightarrow> se_account x = se_account y \<or> adjacent_find (y # zs)"
| "adjacent_find _ \<longleftrightarrow> False"

text \<open>The loop over the signers: an error, or the sum of the weights in 64 bits.\<close>

fun sum_weights :: "int \<Rightarrow> SignerEntry list \<Rightarrow> int \<Rightarrow> TER + int" where
  "sum_weights self [] allSignersWeight = Inr allSignersWeight"
| "sum_weights self (signer # signers) allSignersWeight =
     (if se_weight signer \<le> 0 then Inl temBAD_WEIGHT
      else if se_account signer = self then Inl temBAD_SIGNER
      else sum_weights self signers (u64 (allSignersWeight + se_weight signer)))"

definition validateQuorumAndSignerEntries :: "int \<Rightarrow> SignerEntry list \<Rightarrow> int \<Rightarrow> TER" where
  "validateQuorumAndSignerEntries quorum signers self =
     (if length signers < minMultiSigners \<or> length signers > maxMultiSigners then temMALFORMED
      else if adjacent_find signers then temBAD_SIGNER
      else case sum_weights self signers 0 of
             Inl ter \<Rightarrow> ter
           | Inr allSignersWeight \<Rightarrow>
               if quorum \<le> 0 \<or> allSignersWeight < quorum then temBAD_QUORUM else tesSUCCESS)"

definition SetSignerList_preflight :: "bool \<Rightarrow> TxContext \<Rightarrow> STTx \<Rightarrow> TER result" where
  "SetSignerList_preflight multiSign cx tx =
     (if \<not> multiSign then Inr temDISABLED
      else rbind (preflight1 tx) (\<lambda>ret.
        if \<not> isTesSuccess ret then Inr ret
        else case determineOperation tx of (ter, quorum, signers, op) \<Rightarrow>
          if ter \<noteq> tesSUCCESS then Inr ter
          else if op = op_unknown then Inr temMALFORMED
          else
            let ter = (if op = op_set
                       then validateQuorumAndSignerEntries quorum signers (getAccountID sfAccount (tx_fields tx))
                       else tesSUCCESS) in
            if ter \<noteq> tesSUCCESS then Inr ter else Inr (preflight2 cx)))"

definition writeSignersToSLE :: "int \<Rightarrow> SignerEntry list \<Rightarrow> STObject \<Rightarrow> STObject" where
  "writeSignersToSLE quorum signers ledgerEntry =
     setFieldSigners sfSignerEntries
       (map (\<lambda>e. \<lparr>sg_fname = sfSignerEntry, sg_Account = Some (se_account e), sg_SignerWeight = Some (se_weight e),
               sg_SigningPubKey = None, sg_TxnSignature = None\<rparr>) signers)
       (setFieldU32 sfSignerListID 0 (setFieldU32 sfSignerQuorum quorum ledgerEntry))"

definition ownerCountDelta :: "nat \<Rightarrow> int" where
  "ownerCountDelta entryCount = 2 + int entryCount"

subsection \<open>The signatures of a transaction\<close>

definition HashPrefix :: "8 word \<Rightarrow> 8 word \<Rightarrow> 8 word \<Rightarrow> 32 word" where
  "HashPrefix a b c = push_bit 8 (push_bit 8 (push_bit 8 (ucast a) + ucast b) + ucast c)"

definition getSigningData :: "(STObject \<Rightarrow> Blob) \<Rightarrow> STTx \<Rightarrow> Blob" where
  "getSigningData flds tx = snd (add32 (HashPrefix 0x53 0x54 0x58) []) @ flds (tx_fields tx)"

definition startMultiSigningData :: "(STObject \<Rightarrow> Blob) \<Rightarrow> STTx \<Rightarrow> Blob" where
  "startMultiSigningData flds tx = snd (add32 (HashPrefix 0x53 0x4D 0x54) []) @ flds (tx_fields tx)"

definition finishMultiSigningData :: "int \<Rightarrow> Blob \<Rightarrow> Blob" where
  "finishMultiSigningData signingID s = snd (addBitString 20 signingID s)"

definition STTx_checkSingleSign ::
    "(STObject \<Rightarrow> Blob) \<Rightarrow> (Blob \<Rightarrow> Blob \<Rightarrow> Blob \<Rightarrow> bool \<Rightarrow> bool) \<Rightarrow> STTx \<Rightarrow> bool" where
  "STTx_checkSingleSign flds verify tx =
     (let t = tx_fields tx; spk = getFieldVL sfSigningPubKey t in
      if isFieldPresent sfSigners t then False
      else publicKeyType spk \<and>
        verify spk (getSigningData flds tx) (getFieldVL sfTxnSignature t) (getFlags t AND tfFullyCanonicalSig \<noteq> 0))"

definition signer_valid ::
    "(STObject \<Rightarrow> Blob) \<Rightarrow> (Blob \<Rightarrow> Blob \<Rightarrow> Blob \<Rightarrow> bool \<Rightarrow> bool) \<Rightarrow> STTx \<Rightarrow> Signer \<Rightarrow> bool" where
  "signer_valid flds verify tx signer \<longleftrightarrow>
     publicKeyType (sg_key signer) \<and>
     verify (sg_key signer) (finishMultiSigningData (sg_account signer) (startMultiSigningData flds tx))
       (get_or [] (sg_TxnSignature signer)) (getFlags (tx_fields tx) AND tfFullyCanonicalSig \<noteq> 0)"

fun check_signers :: "(Signer \<Rightarrow> bool) \<Rightarrow> int \<Rightarrow> int \<Rightarrow> Signer list \<Rightarrow> bool" where
  "check_signers valid txnAccountID lastAccountID [] = True"
| "check_signers valid txnAccountID lastAccountID (signer # signers) =
     (let accountID = sg_account signer in
      if accountID = txnAccountID then False
      else if lastAccountID = accountID then False
      else if lastAccountID > accountID then False
      else if \<not> valid signer then False
      else check_signers valid txnAccountID accountID signers)"

definition STTx_checkMultiSign ::
    "(STObject \<Rightarrow> Blob) \<Rightarrow> (Blob \<Rightarrow> Blob \<Rightarrow> Blob \<Rightarrow> bool \<Rightarrow> bool) \<Rightarrow> STTx \<Rightarrow> bool" where
  "STTx_checkMultiSign flds verify tx =
     (let t = tx_fields tx; signers = getFieldSigners sfSigners t in
      if \<not> isFieldPresent sfSigners t then False
      else if isFieldPresent sfTxnSignature t then False
      else if length signers < minMultiSigners \<or> length signers > maxMultiSigners then False
      else check_signers (signer_valid flds verify tx) (getAccountID sfAccount t) 0 signers)"

definition STTx_checkSign ::
    "(STObject \<Rightarrow> Blob) \<Rightarrow> (Blob \<Rightarrow> Blob \<Rightarrow> Blob \<Rightarrow> bool \<Rightarrow> bool) \<Rightarrow> bool \<Rightarrow> STTx \<Rightarrow> bool" where
  "STTx_checkSign flds verify allowMultiSign tx =
     (if allowMultiSign \<and> getFieldVL sfSigningPubKey (tx_fields tx) = []
      then STTx_checkMultiSign flds verify tx else STTx_checkSingleSign flds verify tx)"

subsection \<open>The keys of an account\<close>

definition checkSingleSign ::
    "(HashArg list \<Rightarrow> nat) \<Rightarrow> (Blob \<Rightarrow> int) \<Rightarrow> STTx \<Rightarrow> State \<Rightarrow> TER result" where
  "checkSingleSign sha calc tx m =
     (let id = getAccountID sfAccount (tx_fields tx); spk = getFieldVL sfSigningPubKey (tx_fields tx) in
      case peek (keylet_account sha id) m of
        None \<Rightarrow> Inl null_deref
      | Some sle \<Rightarrow>
          let hasAuthKey = isFieldPresent sfRegularKey sle in
          if \<not> publicKeyType spk then Inr tefBAD_AUTH
          else if calc spk = id then
            if isFlag lsfDisableMaster sle then Inr tefMASTER_DISABLED else Inr tesSUCCESS
          else if hasAuthKey \<and> calc spk = getAccountID sfRegularKey sle then Inr tesSUCCESS
          else if hasAuthKey then Inr tefBAD_AUTH
          else Inr tefBAD_AUTH_MASTER)"

text \<open>The key of one signer of a multi-signed transaction against the ledger.\<close>

definition checkSigner :: "(HashArg list \<Rightarrow> nat) \<Rightarrow> (Blob \<Rightarrow> int) \<Rightarrow> State \<Rightarrow> Signer \<Rightarrow> TER" where
  "checkSigner sha calc m txSigner =
     (let spk = sg_key txSigner; sleTxSignerRoot = peek (keylet_account sha (sg_account txSigner)) m in
      if \<not> publicKeyType spk then tefBAD_SIGNATURE
      else if calc spk = sg_account txSigner then
        (case sleTxSignerRoot of
           None \<Rightarrow> tesSUCCESS
         | Some sle \<Rightarrow> if getFieldU32 sfFlags sle AND lsfDisableMaster \<noteq> 0 then tefMASTER_DISABLED else tesSUCCESS)
      else
        (case sleTxSignerRoot of
           None \<Rightarrow> tefBAD_SIGNATURE
         | Some sle \<Rightarrow>
             if \<not> isFieldPresent sfRegularKey sle then tefBAD_SIGNATURE
             else if calc spk \<noteq> getAccountID sfRegularKey sle then tefBAD_SIGNATURE
             else tesSUCCESS))"

text \<open>
  The walk along both lists. The iterator is the rest of the account's signers from where it
  points; \<open>next_signer\<close> is the inner loop, \<open>None\<close> if it meets the end.
\<close>

fun next_signer :: "SignerEntry list \<Rightarrow> int \<Rightarrow> SignerEntry list option" where
  "next_signer [] a = None"
| "next_signer (e # es) a = (if se_account e < a then next_signer es a else Some (e # es))"

fun match_signers ::
    "(Signer \<Rightarrow> TER) \<Rightarrow> SignerEntry list \<Rightarrow> Signer list \<Rightarrow> int \<Rightarrow> (TER \<times> int) result" where
  "match_signers chk iter [] weightSum = Inr (tesSUCCESS, weightSum)"
| "match_signers chk iter (txSigner # txSigners) weightSum =
     (if iter = [] then Inl null_deref
      else case next_signer iter (sg_account txSigner) of
             None \<Rightarrow> Inr (tefBAD_SIGNATURE, weightSum)
           | Some iter \<Rightarrow>
               if se_account (hd iter) \<noteq> sg_account txSigner then Inr (tefBAD_SIGNATURE, weightSum)
               else if chk txSigner \<noteq> tesSUCCESS then Inr (chk txSigner, weightSum)
               else match_signers chk iter txSigners (u32 (weightSum + se_weight (hd iter))))"

definition checkMultiSign ::
    "(HashArg list \<Rightarrow> nat) \<Rightarrow> (Blob \<Rightarrow> int) \<Rightarrow> STTx \<Rightarrow> State \<Rightarrow> TER result" where
  "checkMultiSign sha calc tx m =
     (case peek (keylet_signers sha (getAccountID sfAccount (tx_fields tx))) m of
        None \<Rightarrow> Inr tefNOT_MULTI_SIGNING
      | Some sleAccountSigners \<Rightarrow>
          case SignerEntries_deserialize sleAccountSigners of (accountSigners, ter) \<Rightarrow>
            if ter \<noteq> tesSUCCESS then Inr ter
            else rbind (match_signers (checkSigner sha calc m) accountSigners
                          (getFieldSigners sfSigners (tx_fields tx)) 0) (\<lambda>(ter, weightSum).
              if ter \<noteq> tesSUCCESS then Inr ter
              else if weightSum < getFieldU32 sfSignerQuorum sleAccountSigners then Inr tefBAD_QUORUM
              else Inr tesSUCCESS))"

definition checkSign ::
    "(HashArg list \<Rightarrow> nat) \<Rightarrow> (Blob \<Rightarrow> int) \<Rightarrow> bool \<Rightarrow> STTx \<Rightarrow> State \<Rightarrow> TER result" where
  "checkSign sha calc multiSign tx m =
     (if multiSign \<and> getFieldVL sfSigningPubKey (tx_fields tx) = [] then checkMultiSign sha calc tx m
      else checkSingleSign sha calc tx m)"

subsection \<open>All checks against the ledger\<close>

text \<open>
  \<^verbatim>\<open>invoke_preclaim<T>\<close>: the base fee and the check of the transactor's own are arguments; the
  checks are made in this order and the first that fails is the result.
\<close>

definition invoke_preclaim ::
    "(HashArg list \<Rightarrow> nat) \<Rightarrow> (Blob \<Rightarrow> int) \<Rightarrow> bool \<Rightarrow> TxContext \<Rightarrow> STTx \<Rightarrow> int \<Rightarrow> (State \<Rightarrow> TER) \<Rightarrow>
       State \<Rightarrow> (TER \<times> int) result" where
  "invoke_preclaim sha calc multiSign cx tx baseFee preclaim m =
     (if getAccountID sfAccount (tx_fields tx) \<noteq> 0 then
        if checkSeq sha cx tx m \<noteq> tesSUCCESS then Inr (checkSeq sha cx tx m, baseFee)
        else rbind (checkFee sha cx tx baseFee m) (\<lambda>result.
          if result \<noteq> tesSUCCESS then Inr (result, baseFee)
          else rbind (checkSign sha calc multiSign tx m) (\<lambda>result.
            if result \<noteq> tesSUCCESS then Inr (result, baseFee)
            else if preclaim m \<noteq> tesSUCCESS then Inr (preclaim m, baseFee)
            else Inr (tesSUCCESS, baseFee)))
      else Inr (tesSUCCESS, baseFee))"

subsection \<open>SetRegularKey\<close>

definition SetRegularKey_calculateBaseFee ::
    "(HashArg list \<Rightarrow> nat) \<Rightarrow> (Blob \<Rightarrow> int) \<Rightarrow> TxContext \<Rightarrow> STTx \<Rightarrow> State \<Rightarrow> int" where
  "SetRegularKey_calculateBaseFee sha calc cx tx m =
     (let id = getAccountID sfAccount (tx_fields tx); spk = getFieldVL sfSigningPubKey (tx_fields tx) in
      if publicKeyType spk \<and> calc spk = id \<and>
         (case peek (keylet_account sha id) m of None \<Rightarrow> False | Some sle \<Rightarrow> getFlags sle AND lsfPasswordSpent = 0)
      then 0 else calculateBaseFee cx tx)"

definition SetRegularKey_preflight :: "TxContext \<Rightarrow> STTx \<Rightarrow> TER result" where
  "SetRegularKey_preflight cx tx =
     rbind (preflight1 tx) (\<lambda>ret.
     if \<not> isTesSuccess ret then Inr ret
     else if getFlags (tx_fields tx) AND tfUniversalMask \<noteq> 0 then Inr temINVALID_FLAG
     else Inr (preflight2 cx))"

text \<open>
  The source writes through the pointer without calling \<^verbatim>\<open>update\<close>; \<^verbatim>\<open>Transactor::apply\<close> has called it
  for the same entry before, so the sandbox commits what is written.
\<close>

definition SetRegularKey_doApply ::
    "(HashArg list \<Rightarrow> nat) \<Rightarrow> STTx \<Rightarrow> int \<Rightarrow> State \<Rightarrow> (TER \<times> State) result" where
  "SetRegularKey_doApply sha tx feeDue m =
     (let account = getAccountID sfAccount (tx_fields tx); k = keylet_account sha account in
      case peek k m of
        None \<Rightarrow> Inl null_deref
      | Some sle \<Rightarrow>
          let sle = (if feeDue = 0 then setFlag lsfPasswordSpent sle else sle) in
          if isFieldPresent sfRegularKey (tx_fields tx) then
            rbind (update k (\<lambda>_. setAccountID sfRegularKey (getAccountID sfRegularKey (tx_fields tx)) sle) m)
              (\<lambda>m. Inr (tesSUCCESS, m))
          else if isFlag lsfDisableMaster sle \<and> peek (keylet_signers sha account) m = None then
            rbind (update k (\<lambda>_. sle) m) (\<lambda>m. Inr (tecNO_ALTERNATIVE_KEY, m))
          else
            rbind (update k (\<lambda>_. makeFieldAbsent sfRegularKey sle) m) (\<lambda>m. Inr (tesSUCCESS, m)))"

subsection \<open>Multi-signing\<close>

definition weight_of :: "SignerEntry list \<Rightarrow> int set \<Rightarrow> int" where
  "weight_of es A = sum_list (map se_weight (filter (\<lambda>e. se_account e \<in> A) es))"

lemma next_signer_dropWhile:
  "next_signer es a = (let d = dropWhile (\<lambda>e. se_account e < a) es in if d = [] then None else Some d)"
  by (induction es) (simp_all add: Let_def)

text \<open>The part of a list sorted by account from an account on.\<close>

lemma sorted_from:
  assumes "sorted_wrt (<) (map se_account es)" and d: "dropWhile (\<lambda>e. se_account e < a) es = e # rest"
  obtains ls where "es = ls @ e # rest" "\<And>x. x \<in> set ls \<Longrightarrow> se_account x < a"
    "a \<le> se_account e" "\<And>x. x \<in> set rest \<Longrightarrow> se_account e < se_account x"
    "sorted_wrt (<) (map se_account (e # rest))"
proof (rule that)
  let ?ls = "takeWhile (\<lambda>e. se_account e < a) es"
  show es: "es = ?ls @ e # rest" using d takeWhile_dropWhile_id [of "\<lambda>e. se_account e < a" es] by simp
  show "a \<le> se_account e" using hd_dropWhile [of "\<lambda>e. se_account e < a" es] d by simp
  have "sorted_wrt (<) (map se_account ?ls @ map se_account (e # rest))" using assms(1) es by (metis map_append)
  then show s: "sorted_wrt (<) (map se_account (e # rest))" by (simp add: sorted_wrt_append)
  then show "\<And>x. x \<in> set rest \<Longrightarrow> se_account e < se_account x" by simp
qed (auto dest: set_takeWhileD)

lemma weight_of_from:
  assumes "es = ls @ e # rest" "\<And>x. x \<in> set ls \<Longrightarrow> se_account x < a" "se_account e = a"
    "\<And>x. x \<in> set rest \<Longrightarrow> a < se_account x" "\<And>b. b \<in> A \<Longrightarrow> a < b"
  shows "weight_of es (insert a A) = se_weight e + weight_of (e # rest) A"
proof -
  have "filter (\<lambda>x. se_account x \<in> insert a A) ls = []"
    using assms(2,5) by (fastforce simp: filter_empty_conv)
  moreover have "filter (\<lambda>x. se_account x \<in> insert a A) rest = filter (\<lambda>x. se_account x \<in> A) rest"
    using assms(4) by (intro filter_cong) auto
  moreover have "a \<notin> A" using assms(5) by blast
  ultimately show ?thesis using assms(1,3) by (simp add: weight_of_def)
qed

lemma match_signers_exact:
  assumes "sorted_wrt (<) (map se_account iter)" "sorted_wrt (<) (map sg_account ss)" "iter \<noteq> []"
    "\<forall>e \<in> set iter. 0 \<le> se_weight e \<and> se_weight e < 2 ^ 16"
    "0 \<le> w" "w + 2 ^ 16 * int (length ss) < 2 ^ 32"
  shows "if \<forall>s \<in> set ss. sg_account s \<in> se_account ` set iter \<and> chk s = tesSUCCESS
    then match_signers chk iter ss w = Inr (tesSUCCESS, w + weight_of iter (sg_account ` set ss))
    else \<exists>t w'. match_signers chk iter ss w = Inr (t, w') \<and> t \<noteq> tesSUCCESS"
  using assms
proof (induction ss arbitrary: iter w)
  case Nil
  then show ?case by (simp add: weight_of_def)
next
  case (Cons s ss)
  let ?a = "sg_account s" and ?d = "dropWhile (\<lambda>e. se_account e < sg_account s) iter"
  show ?case
  proof (cases ?d)
    case Nil
    then have "?a \<notin> se_account ` set iter" by (fastforce simp: dropWhile_eq_Nil_conv)
    with Nil Cons.prems(3) show ?thesis by (auto simp: next_signer_dropWhile)
  next
    case (Cons e rest)
    obtain ls where ls: "iter = ls @ e # rest" "\<And>x. x \<in> set ls \<Longrightarrow> se_account x < ?a" "?a \<le> se_account e"
      "\<And>x. x \<in> set rest \<Longrightarrow> se_account e < se_account x" "sorted_wrt (<) (map se_account (e # rest))"
      using sorted_from [OF Cons.prems(1) Cons] by metis
    show ?thesis
    proof (cases "se_account e = ?a \<and> chk s = tesSUCCESS")
      case False
      have "se_account e \<noteq> ?a \<Longrightarrow> ?a \<notin> se_account ` set iter" using ls by fastforce
      with False Cons Cons.prems(3) show ?thesis by (auto simp: next_signer_dropWhile Let_def)
    next
      case True
      have gt: "\<And>b. b \<in> sg_account ` set ss \<Longrightarrow> ?a < b" using Cons.prems(2) by auto
      have w: "0 \<le> se_weight e" "se_weight e < 2 ^ 16" using Cons.prems(4) ls(1) by auto
      then have u: "u32 (w + se_weight e) = w + se_weight e" using Cons.prems(5,6) by (simp add: u32_def)
      have m: "match_signers chk iter (s # ss) w = match_signers chk (e # rest) ss (w + se_weight e)"
        using True Cons Cons.prems(3) u by (simp add: next_signer_dropWhile Let_def)
      have "b \<in> se_account ` set iter \<longleftrightarrow> b \<in> se_account ` set (e # rest)" if "b \<in> sg_account ` set ss" for b
        using gt [OF that] ls(1,2) by fastforce
      then have p: "(\<forall>x \<in> set (s # ss). sg_account x \<in> se_account ` set iter \<and> chk x = tesSUCCESS) \<longleftrightarrow>
          (\<forall>x \<in> set ss. sg_account x \<in> se_account ` set (e # rest) \<and> chk x = tesSUCCESS)"
        using True ls(1) by auto
      have e: "weight_of iter (sg_account ` set (s # ss)) = se_weight e + weight_of (e # rest) (sg_account ` set ss)"
        using weight_of_from [OF ls(1,2), of "sg_account ` set ss"] True ls(4) gt by simp
      have bd: "\<forall>x \<in> set (e # rest). 0 \<le> se_weight x \<and> se_weight x < 2 ^ 16" using Cons.prems(4) ls(1) by auto
      have "sorted_wrt (<) (map sg_account ss)" "0 \<le> w + se_weight e" "w + se_weight e + 2 ^ 16 * int (length ss) < 2 ^ 32"
        using Cons.prems(2,5,6) w by (simp_all add: algebra_simps)
      from Cons.IH [OF ls(5) this(1) list.distinct(2) bd this(2,3)] show ?thesis unfolding p m e by (simp only: add.assoc)
    qed
  qed
qed

lemma check_signers_sorted:
  "check_signers valid txn prev ss \<Longrightarrow> sorted_wrt (<) (map sg_account ss) \<and>
     (\<forall>s \<in> set ss. prev < sg_account s \<and> sg_account s \<noteq> txn \<and> valid s)"
  by (induction ss arbitrary: prev) (fastforce simp: Let_def split: if_splits)+

lemma sorted_distinct: "sorted (map se_account es) \<Longrightarrow> \<not> adjacent_find es \<Longrightarrow> sorted_wrt (<) (map se_account es)"
  by (induction es rule: adjacent_find.induct) (auto simp: less_le)

lemma sum_weights_positive:
  "sum_weights self es w = Inr w' \<Longrightarrow> \<forall>e \<in> set es. 0 < se_weight e \<and> se_account e \<noteq> self"
  "sum_weights self es w \<noteq> Inl tesSUCCESS"
  by (induction es arbitrary: w) (auto split: if_splits)

lemma deserialize_write:
  "SignerEntries_deserialize (writeSignersToSLE quorum signers sle) = (signers, tesSUCCESS)"
proof -
  have "SignerEntries_read (map (\<lambda>e. \<lparr>sg_fname = sfSignerEntry, sg_Account = Some (se_account e),
      sg_SignerWeight = Some (se_weight e), sg_SigningPubKey = None, sg_TxnSignature = None\<rparr>) signers) = (signers, tesSUCCESS)"
    by (induction signers) (simp_all add: get_or_def)
  then show ?thesis by (simp add: SignerEntries_deserialize_def writeSignersToSLE_def st_fields)
qed

text \<open>
  C7. Multi-signing is exact. Let the signer list of an account have been set by a \<^verbatim>\<open>SetSignerList\<close>
  transaction that passed its checks, and let a multi-signed transaction of that account carry valid
  signatures in the order \<^verbatim>\<open>STTx::checkMultiSign\<close> demands. Then \<^verbatim>\<open>Transactor::checkMultiSign\<close> runs without
  leaving the list, and accepts the transaction if and only if every one of its signers is on the
  list with a key its account accepts and the weights of those entries reach the quorum; no entry
  is counted twice and the 32-bit sum does not wrap.
\<close>
theorem multi_sign_exact:
  assumes op: "determineOperation stx = (tesSUCCESS, quorum, signers, op_set)"
    and ok: "validateQuorumAndSignerEntries quorum signers self = tesSUCCESS"
    and w: "\<forall>e \<in> set signers. se_weight e < 2 ^ 16"
    and sle: "peek (keylet_signers sha (getAccountID sfAccount (tx_fields tx))) m = Some (writeSignersToSLE quorum signers sle0)"
    and sig: "STTx_checkMultiSign flds verify tx"
  shows "\<exists>ter. checkMultiSign sha calc tx m = Inr ter \<and> (ter = tesSUCCESS \<longleftrightarrow>
    (\<forall>s \<in> set (getFieldSigners sfSigners (tx_fields tx)). sg_account s \<in> se_account ` set signers \<and>
       checkSigner sha calc m s = tesSUCCESS \<and> signer_valid flds verify tx s) \<and>
    quorum \<le> weight_of signers (sg_account ` set (getFieldSigners sfSigners (tx_fields tx))))"
proof -
  let ?ss = "getFieldSigners sfSigners (tx_fields tx)"
  have so: "sorted (map se_account signers)"
    using op by (auto simp: determineOperation_def Let_def split: if_splits prod.splits)
  have v: "signers \<noteq> []" "\<not> adjacent_find signers" "\<And>e. e \<in> set signers \<Longrightarrow> 0 < se_weight e"
    using ok sum_weights_positive [of self signers 0]
    by (auto simp: validateQuorumAndSignerEntries_def minMultiSigners_def split: if_splits sum.splits)
  have c: "sorted_wrt (<) (map sg_account ?ss)" "\<forall>s \<in> set ?ss. signer_valid flds verify tx s" "length ?ss \<le> 8"
    using sig check_signers_sorted [of "signer_valid flds verify tx" _ 0 ?ss]
    by (auto simp: STTx_checkMultiSign_def maxMultiSigners_def Let_def split: if_splits)
  have q: "getFieldU32 sfSignerQuorum (writeSignersToSLE quorum signers sle0) = quorum"
    by (simp add: writeSignersToSLE_def st_fields)
  have "\<forall>e \<in> set signers. 0 \<le> se_weight e \<and> se_weight e < 2 ^ 16" using v(3) w by (auto intro: less_imp_le)
  from match_signers_exact [OF sorted_distinct [OF so v(2)] c(1) v(1) this, where w = 0 and chk = "checkSigner sha calc m"] c(3)
  show ?thesis
    unfolding checkMultiSign_def sle using c(2) q by (auto simp: deserialize_write split: if_splits)
qed

definition signer_key0 :: "int \<Rightarrow> Blob" where
  "signer_key0 a = 2 # replicate 31 0 @ [word_of_int a]"

definition signer_list0 :: STTx where
  "signer_list0 = \<lparr>tx_fields = setFieldU32 sfSignerQuorum 3 (setFieldSigners sfSignerEntries
     [\<lparr>sg_fname = sfSignerEntry, sg_Account = Some 7, sg_SignerWeight = Some 2, sg_SigningPubKey = None, sg_TxnSignature = None\<rparr>,
      \<lparr>sg_fname = sfSignerEntry, sg_Account = Some 5, sg_SignerWeight = Some 1, sg_SigningPubKey = None, sg_TxnSignature = None\<rparr>]
     no_fields), tx_id = 1\<rparr>"

definition multi_signed0 :: STTx where
  "multi_signed0 = \<lparr>tx_fields = setAccountID sfAccount 9 (setFieldSigners sfSigners (map (\<lambda>a.
      \<lparr>sg_fname = sfSigner, sg_Account = Some a, sg_SignerWeight = None, sg_SigningPubKey = Some (signer_key0 a),
       sg_TxnSignature = Some [word_of_int a]\<rparr>) [5, 7]) no_fields), tx_id = 2\<rparr>"

theorem multi_sign_exact_witness:
  "let signers = [\<lparr>se_account = 5, se_weight = 1\<rparr>, \<lparr>se_account = 7, se_weight = 2\<rparr>];
       sha = (\<lambda>args. case args of hU16 s # _ \<Rightarrow> nat s | _ \<Rightarrow> 0); k = keylet_signers sha 9 in
   determineOperation signer_list0 = (tesSUCCESS, 3, signers, op_set) \<and>
   checkMultiSign sha (\<lambda>spk. uint (last spk)) multi_signed0 [kl_key k \<mapsto> make_sle k (writeSignersToSLE 3 signers no_fields)] =
     Inr tesSUCCESS"
proof -
  define signers where "signers = [\<lparr>se_account = 5, se_weight = 1\<rparr>, \<lparr>se_account = 7, se_weight = 2\<rparr>]"
  define sha where "sha = (\<lambda>args. case args of hU16 s # _ \<Rightarrow> nat s | _ \<Rightarrow> 0)"
  define k where "k = keylet_signers sha 9"
  define m where "m = [kl_key k \<mapsto> make_sle k (writeSignersToSLE 3 signers no_fields)]"
  let ?calc = "\<lambda>spk. uint (last spk)" and ?verify = "\<lambda>spk _ sig _. sig = [last spk]" and ?ss = "getFieldSigners sfSigners (tx_fields multi_signed0)"
  have op: "determineOperation signer_list0 = (tesSUCCESS, 3, signers, op_set)"
    by (simp add: determineOperation_def signer_list0_def SignerEntries_deserialize_def st_fields signers_def)
  have ok: "validateQuorumAndSignerEntries 3 signers 9 = tesSUCCESS" unfolding signers_def by code_simp
  have p: "peek (keylet_signers sha (getAccountID sfAccount (tx_fields multi_signed0))) m = Some (writeSignersToSLE 3 signers no_fields)"
    by (simp add: multi_signed0_def st_fields m_def k_def peek_def lookup_def check_def make_sle_def keylet_signers_def lt_codes)
  have key: "publicKeyType (signer_key0 a)" "last (signer_key0 a) = word_of_int a" for a
    by (simp_all add: publicKeyType_def signer_key0_def)
  have sig: "STTx_checkMultiSign (\<lambda>_. []) ?verify multi_signed0"
    by (simp add: STTx_checkMultiSign_def multi_signed0_def st_fields minMultiSigners_def maxMultiSigners_def signer_valid_def key)
  have "checkSigner sha ?calc m s = tesSUCCESS \<and> signer_valid (\<lambda>_. []) ?verify multi_signed0 s \<and> sg_account s \<in> {5, 7}" if "s \<in> set ?ss" for s
    using that key by (auto simp: multi_signed0_def st_fields checkSigner_def signer_valid_def m_def k_def peek_def lookup_def
        keylet_account_def keylet_signers_def getAccountRootIndex_def getSignerListIndex_def sha_def)
  moreover have "sg_account ` set ?ss = {5, 7}" by (simp add: multi_signed0_def st_fields)
  ultimately have "checkMultiSign sha ?calc multi_signed0 m = Inr tesSUCCESS"
    using multi_sign_exact [OF op ok _ p sig, of ?calc] by (auto simp: signers_def weight_of_def)
  with op show ?thesis by (simp add: Let_def signers_def sha_def k_def m_def)
qed

subsection \<open>What passing the checks gives\<close>

lemma s64_nonneg: "0 \<le> x \<Longrightarrow> x < 2 ^ 64 \<Longrightarrow> 0 \<le> s64 x \<Longrightarrow> s64 x = x"
proof (cases "x < 2 ^ 63")
  case False
  assume x: "0 \<le> x" "x < 2 ^ 64" "0 \<le> s64 x"
  have "(x + 2 ^ 63) mod 2 ^ 64 = (x + 2 ^ 63 - 2 ^ 64) mod 2 ^ 64" by (rule minus_mod_self2 [symmetric])
  also have "\<dots> = x + 2 ^ 63 - 2 ^ 64" using x(2) False by (intro mod_pos_pos_trivial) simp_all
  finally show ?thesis using x by (simp add: s64_def)
qed (simp add: s64_def)

lemma checks_ready:
  assumes ok: "balances_ok (balances m)" and g: "balances m (getAccountRootIndex sha (cx_genesis cx)) \<noteq> None"
    and u: "0 \<le> fee_of tx" "fee_of tx < 2 ^ 64" and p1: "preflight1 tx = Inr tesSUCCESS"
    and pc: "invoke_preclaim sha calc multiSign cx tx baseFee preclaim m = Inr (tesSUCCESS, baseFee)"
  shows "fee_ready sha cx tx m" "\<exists>due. calculateFee cx baseFee = Inr due" "preclaim m = tesSUCCESS"
    "fee_of tx \<le> mValue (the (balances m (payer sha tx)))" "checkSign sha calc multiSign tx m = Inr tesSUCCESS"
proof -
  let ?fee = "getFieldAmount sfFee (tx_fields tx)" and ?k = "keylet_account sha (getAccountID sfAccount (tx_fields tx))"
  have a: "getAccountID sfAccount (tx_fields tx) \<noteq> 0" "mIsNative ?fee" "\<not> mIsNegative ?fee"
    using p1 by (auto simp: preflight1_def Let_def preflight0_def split: if_splits)
  have q: "checkSeq sha cx tx m = tesSUCCESS" "checkFee sha cx tx baseFee m = Inr tesSUCCESS"
    and r: "checkSign sha calc multiSign tx m = Inr tesSUCCESS" "preclaim m = tesSUCCESS"
    using pc a(1) by (auto simp: invoke_preclaim_def rbind_Inr_iff split: if_splits)
  obtain sle where s: "peek ?k m = Some sle" using q(1) by (auto simp: checkSeq_def Let_def split: option.splits)
  note b = balances_peek [OF s, THEN conjunct1]
  have f: "calculateFeePaid tx = Inr (s64 (fee_of tx))" using a by (simp add: calculateFeePaid_def to_m_def fee_of_def)
  have legal: "0 \<le> s64 (fee_of tx)" "s64 (fee_of tx) \<le> SYSTEM_CURRENCY_START"
    using q(2) f by (auto simp: checkFee_def isLegalAmount_def split: if_splits)
  have v: "s64 (fee_of tx) = fee_of tx" by (rule s64_nonneg [OF u legal(1)])
  show "fee_ready sha cx tx m"
    using ok g a b u legal v by (auto simp: fee_ready_def balance_ok_def fee_of_def payer_def SYSTEM_CURRENCY_START_def cMaxNativeN_def)
  show due: "\<exists>due. calculateFee cx baseFee = Inr due"
    using q(2) f legal by (cases "calculateFee cx baseFee") (auto simp: checkFee_def isLegalAmount_def)
  have "mValue (getFieldAmount sfBalance sle) \<le> cMaxNativeN" "balance_ok (getFieldAmount sfBalance sle)"
    using balance_le_total [OF ok b] balances_okD [OF ok] b by auto
  with q(2) f legal due s v have "fee_of tx \<le> mValue (getFieldAmount sfBalance sle)"
    by (auto simp: checkFee_def isLegalAmount_def to_m_balance balance_ok_def split: if_splits)
  then show "fee_of tx \<le> mValue (the (balances m (payer sha tx)))" using b by (simp add: payer_def)
qed (use pc p1 in \<open>auto simp: invoke_preclaim_def preflight1_def preflight0_def Let_def rbind_Inr_iff split: if_splits\<close>)

subsection \<open>Accounts stay reachable\<close>

text \<open>Some key can sign for the account: the master key, a regular key or those of a signer list.\<close>

definition can_sign :: "(HashArg list \<Rightarrow> nat) \<Rightarrow> int \<Rightarrow> State \<Rightarrow> bool" where
  "can_sign sha a m \<longleftrightarrow> (\<exists>sle. peek (keylet_account sha a) m = Some sle \<and>
     (\<not> isFlag lsfDisableMaster sle \<or> isFieldPresent sfRegularKey sle \<or> peek (keylet_signers sha a) m \<noteq> None))"

definition key_inv :: "(HashArg list \<Rightarrow> nat) \<Rightarrow> STTx \<Rightarrow> State \<Rightarrow> bool" where
  "key_inv sha tx m \<longleftrightarrow> collision_free sha \<and> can_sign sha (getAccountID sfAccount (tx_fields tx)) m"

lemma account_keys:
  assumes "collision_free sha"
  shows "getAccountRootIndex sha a = getAccountRootIndex sha b \<longleftrightarrow> a = b" "getSignerListIndex sha a \<noteq> getAccountRootIndex sha b"
    "getAccountRootIndex sha a \<noteq> 0"
  using collision_freeD [OF assms] by (auto simp: getAccountRootIndex_def getSignerListIndex_def)

lemma disable_master_kept: "isFlag lsfDisableMaster (setFlag lsfPasswordSpent sle) \<longleftrightarrow> isFlag lsfDisableMaster sle"
proof -
  have "(x OR lsfPasswordSpent) AND lsfDisableMaster = x AND lsfDisableMaster" for x
    by (simp add: bit.conj_disj_distrib2 lsfPasswordSpent_def lsfDisableMaster_def)
  then show ?thesis by (simp add: isFlag_def setFlag_def st_fields)
qed

lemma account_written:
  assumes cf: "collision_free sha" and p: "peek (keylet_account sha a) m = Some sle"
  obtains m' where "update (keylet_account sha a) f m = Inr m'" "by_ops m m'"
    "\<And>b. peek (keylet_account sha b) m' = (if b = a then Some (f sle) else peek (keylet_account sha b) m)"
    "\<And>b. peek (keylet_signers sha b) m' = peek (keylet_signers sha b) m"
    "getFieldAmount sfBalance (f sle) = getFieldAmount sfBalance sle \<Longrightarrow> balances m' = balances m"
    "getFieldU32 sfSequence (f sle) = getFieldU32 sfSequence sle \<Longrightarrow> sequences m' = sequences m"
proof -
  obtain m' where u: "update (keylet_account sha a) f m = Inr m'" "peek (keylet_account sha a) m' = Some (f sle)"
    "balances m' = (balances m)(getAccountRootIndex sha a \<mapsto> getFieldAmount sfBalance (f sle))"
    "sequences m' = (sequences m)(getAccountRootIndex sha a \<mapsto> getFieldU32 sfSequence (f sle))"
    "\<And>k. k \<noteq> getAccountRootIndex sha a \<Longrightarrow> m' k = m k"
    by (rule update_account [OF p, of f]) blast
  have l: "lookup m' k = lookup m k" if "kl_key k \<noteq> getAccountRootIndex sha a" for k using u(5) [OF that] by (simp add: lookup_def)
  show ?thesis
  proof (rule that [OF u(1)])
    show "by_ops m m'" using u(1) account_keys(3) [OF cf] by (intro update_by_ops) (simp_all add: keylet_account_def)
    show "peek (keylet_account sha b) m' = (if b = a then Some (f sle) else peek (keylet_account sha b) m)" for b
      using l [of "keylet_account sha b"] u(2) account_keys(1) [OF cf] by (auto simp: peek_def keylet_account_def)
    show "peek (keylet_signers sha b) m' = peek (keylet_signers sha b) m" for b
      using l [of "keylet_signers sha b"] account_keys(2) [OF cf] by (simp add: peek_def keylet_signers_def)
  qed (use u(3,4) balances_peek [OF p] in \<open>auto simp: fun_upd_idem\<close>)
qed

text \<open>What \<^verbatim>\<open>SetRegularKey\<close> does to the account root, and to nothing else.\<close>

lemma SetRegularKey_runs:
  assumes i: "key_inv sha tx m"
  obtains ter m' where "SetRegularKey_doApply sha tx feeDue m = Inr (ter, m')" "by_ops m m'"
    "balances m' = balances m" "sequences m' = sequences m" "key_inv sha tx m'"
proof -
  let ?a = "getAccountID sfAccount (tx_fields tx)" and ?t = "tx_fields tx"
  have cf: "collision_free sha" and c: "can_sign sha ?a m" using i by (simp_all add: key_inv_def)
  obtain sle0 where p: "peek (keylet_account sha ?a) m = Some sle0" using c by (auto simp: can_sign_def)
  define sle where "sle = (if feeDue = 0 then setFlag lsfPasswordSpent sle0 else sle0)"
  have kept: "getFieldAmount sfBalance sle = getFieldAmount sfBalance sle0" "getFieldU32 sfSequence sle = getFieldU32 sfSequence sle0"
    "f_account sle = f_account sle0" "isFlag lsfDisableMaster sle \<longleftrightarrow> isFlag lsfDisableMaster sle0"
    using disable_master_kept by (simp_all add: sle_def setFlag_def st_fields)
  define stuck where "stuck \<longleftrightarrow> \<not> isFieldPresent sfRegularKey ?t \<and> isFlag lsfDisableMaster sle \<and> peek (keylet_signers sha ?a) m = None"
  define sle' where "sle' = (if isFieldPresent sfRegularKey ?t then setAccountID sfRegularKey (getAccountID sfRegularKey ?t) sle
    else if stuck then sle else makeFieldAbsent sfRegularKey sle)"
  obtain m' where m': "update (keylet_account sha ?a) (\<lambda>_. sle') m = Inr m'" "by_ops m m'"
    "\<And>b. peek (keylet_account sha b) m' = (if b = ?a then Some sle' else peek (keylet_account sha b) m)"
    "\<And>b. peek (keylet_signers sha b) m' = peek (keylet_signers sha b) m"
    "getFieldAmount sfBalance sle' = getFieldAmount sfBalance sle0 \<Longrightarrow> balances m' = balances m"
    "getFieldU32 sfSequence sle' = getFieldU32 sfSequence sle0 \<Longrightarrow> sequences m' = sequences m"
    by (rule account_written [OF cf p, of "\<lambda>_. sle'"]) blast
  show ?thesis
  proof (rule that)
    show "SetRegularKey_doApply sha tx feeDue m = Inr (if stuck then tecNO_ALTERNATIVE_KEY else tesSUCCESS, m')"
      unfolding SetRegularKey_doApply_def Let_def p option.case sle_def [symmetric] using m'(1)
      by (auto simp: sle'_def stuck_def)
    show "balances m' = balances m" using kept(1) by (intro m'(5)) (simp add: sle'_def st_fields)
    show "sequences m' = sequences m" using kept(2) by (intro m'(6)) (simp add: sle'_def st_fields)
    show "key_inv sha tx m'"
      using cf c kept p m'(3,4) by (auto simp: key_inv_def can_sign_def sle'_def stuck_def isFlag_def st_fields)
  qed (rule m'(2))
qed

interpretation regular_key: session_handler sha "key_inv sha tx" "key_inv sha tx" "SetRegularKey_doApply sha tx feeDue"
  for sha tx feeDue
proof
  show "key_inv sha tx m \<Longrightarrow> key_inv sha tx m" for m .
next
  fix m a sle f m'
  assume i: "key_inv sha tx m" and p: "peek (keylet_account sha a) m = Some sle" and f: "fee_change f"
    and u: "update (keylet_account sha a) f m = Inr m'"
  have cf: "collision_free sha" using i by (simp add: key_inv_def)
  obtain m1 where "update (keylet_account sha a) f m = Inr m1"
    "\<And>b. peek (keylet_account sha b) m1 = (if b = a then Some (f sle) else peek (keylet_account sha b) m)"
    "\<And>b. peek (keylet_signers sha b) m1 = peek (keylet_signers sha b) m"
    by (rule account_written [OF cf p, of f]) blast
  then show "key_inv sha tx m'"
    using i u f p by (auto simp: key_inv_def can_sign_def fee_change_def isFlag_def isFieldPresent_def)
next
  fix m assume i: "key_inv sha tx m"
  show "\<exists>ter m'. SetRegularKey_doApply sha tx feeDue m = Inr (ter, m') \<and> balances m' = balances m \<and>
      sequences m' = sequences m \<and> (ter = tesSUCCESS \<longrightarrow> key_inv sha tx m')"
    by (rule SetRegularKey_runs [OF i, of feeDue]) blast
  show "getAccountRootIndex sha a \<noteq> 0" for a using i account_keys(3) by (simp add: key_inv_def)
  fix ter m' assume "SetRegularKey_doApply sha tx feeDue m = Inr (ter, m')"
  then show "by_ops m m'" using SetRegularKey_runs [OF i, of feeDue] by (metis Inr_inject Pair_inject)
qed

lemma SetRegularKey_effect:
  assumes "SetRegularKey_doApply sha tx feeDue m = Inr (tesSUCCESS, m')"
  shows "\<exists>sle. peek (keylet_account sha (getAccountID sfAccount (tx_fields tx))) m' = Some sle \<and>
    f_account sle sfRegularKey = f_account (tx_fields tx) sfRegularKey"
proof -
  let ?k = "keylet_account sha (getAccountID sfAccount (tx_fields tx))"
  obtain sle where p: "peek ?k m = Some sle" using assms by (auto simp: SetRegularKey_doApply_def Let_def split: option.splits)
  have w: "peek ?k m1 = Some (f sle)" if "update ?k f m = Inr m1" for f m1
    by (rule update_account [OF p, of f]) (use that in simp)
  show ?thesis
    using assms w unfolding SetRegularKey_doApply_def Let_def p
    by (fastforce simp: rbind_Inr_iff st_fields split: if_splits)
qed

lemma transact_success:
  assumes "transact sha cx tx pre baseFee items rem doApply m = Inr (tesSUCCESS, applied, m', d)"
  shows "\<exists>m1. doApply m1 = Inr (tesSUCCESS, m')"
proof -
  have "tx_apply sha cx tx baseFee doApply m = Inr (tesSUCCESS, m')"
    using assms by (auto simp: transact_def rbind_Inr_iff Let_def isTecClaim_def split: if_splits prod.splits)
  then show ?thesis by (auto simp: tx_apply_def rbind_Inr_iff Let_def split: if_splits)
qed


lemma balances_upd: "balances (m(k \<mapsto> make_sle kl obj)) =
    (balances m)(k := if kl_type kl = ltACCOUNT_ROOT then Some (getFieldAmount sfBalance obj) else None)"
  by (auto simp: balances_def make_sle_def fun_eq_iff)

definition context0 :: TxContext where
  "context0 = \<lparr>cx_open = False, cx_seq = 5, cx_fees = \<lparr>fees_base = 10, fees_units = 10\<rparr>, cx_txExists = (\<lambda>_. False),
     cx_track = LoadFeeTrack_new, tapNO_CHECK_SIGN = False, tapRETRY = False, tapUNLIMITED = False, cx_sigBad = False, cx_genesis = 2\<rparr>"

lemma context0_fee: "calculateFee context0 10 = Inr 10"
  unfolding calculateFee_def context0_def by code_simp

definition change_key0 :: STTx where
  "change_key0 = \<lparr>tx_fields = setAccountID sfAccount 1 (setAccountID sfRegularKey 6 (setFieldVL sfSigningPubKey (signer_key0 5)
     (setFieldU32 sfSequence 1 (setFieldAmount sfFee (drops_amount 10) no_fields)))), tx_id = 1\<rparr>"

definition root0 :: STObject where
  "root0 = setFieldU32 sfFlags lsfDisableMaster (setFieldU32 sfSequence 1
     (setAccountID sfRegularKey 5 (setFieldAmount sfBalance (drops_amount 1000) no_fields)))"

definition accounts0 :: State where
  "accounts0 = [getAccountRootIndex sha0 2 \<mapsto> make_sle (keylet_account sha0 2) (setFieldAmount sfBalance (drops_amount 500) no_fields),
     getAccountRootIndex sha0 1 \<mapsto> make_sle (keylet_account sha0 1) root0]"

lemma change_key0_checks:
  "SetRegularKey_preflight context0 change_key0 = Inr tesSUCCESS"
  "peek (keylet_account sha0 1) accounts0 = Some root0"
  "invoke_preclaim sha0 (\<lambda>spk. uint (last spk)) False context0 change_key0
     (SetRegularKey_calculateBaseFee sha0 (\<lambda>spk. uint (last spk)) context0 change_key0 accounts0) (\<lambda>_. tesSUCCESS) accounts0 = Inr (tesSUCCESS, 10)"
proof -
  have t: "getAccountID sfAccount (tx_fields change_key0) = 1" "getFieldVL sfSigningPubKey (tx_fields change_key0) = signer_key0 5"
    "getFieldAmount sfFee (tx_fields change_key0) = drops_amount 10" "getFlags (tx_fields change_key0) = 0" "tx_id change_key0 = 1"
    "getFieldU32 sfSequence (tx_fields change_key0) = 1" "\<not> isFieldPresent sfAccountTxnID (tx_fields change_key0)"
    "\<not> isFieldPresent sfLastLedgerSequence (tx_fields change_key0)"
    "\<not> isFieldPresent sfPayees (tx_fields change_key0)" "\<not> isFieldPresent sfSigners (tx_fields change_key0)"
    by (simp_all add: change_key0_def st_fields)
  have key: "publicKeyType (signer_key0 5)" "last (signer_key0 5) = 5" by (simp_all add: publicKeyType_def signer_key0_def)
  have d: "to_m (drops_amount d) = Inr d" if "0 \<le> d" "d \<le> 1000" for d
    using that by (simp add: to_m_def drops_amount_def s64_def)
  show "SetRegularKey_preflight context0 change_key0 = Inr tesSUCCESS"
    using d [of 10] key by (simp add: SetRegularKey_preflight_def preflight1_def preflight0_def preflight2_def t context0_def
        drops_amount_def isLegalAmount_def SYSTEM_CURRENCY_START_def)
  show p: "peek (keylet_account sha0 1) accounts0 = Some root0"
    unfolding peek_account by (simp add: accounts0_def make_sle_def keylet_account_def)
  have r: "isFieldPresent sfRegularKey root0" "getAccountID sfRegularKey root0 = 5" "getFieldU32 sfSequence root0 = 1"
    "getFieldAmount sfBalance root0 = drops_amount 1000"
    by (simp_all add: root0_def st_fields)
  have b: "SetRegularKey_calculateBaseFee sha0 (\<lambda>spk. uint (last spk)) context0 change_key0 accounts0 = 10"
    by (simp add: SetRegularKey_calculateBaseFee_def t key calculateBaseFee_def context0_def u64_def)
  show "invoke_preclaim sha0 (\<lambda>spk. uint (last spk)) False context0 change_key0
     (SetRegularKey_calculateBaseFee sha0 (\<lambda>spk. uint (last spk)) context0 change_key0 accounts0) (\<lambda>_. tesSUCCESS) accounts0 = Inr (tesSUCCESS, 10)"
    unfolding b using d [of 10] d [of 1000] context0_fee
    by (simp add: invoke_preclaim_def t checkSeq_def p r checkFee_def calculateFeePaid_def isLegalAmount_def SYSTEM_CURRENCY_START_def
        checkSign_def checkSingleSign_def key)
qed

end
