(* ===== verification/Enumeration.thy ===== *)
theory Enumeration
  imports Main
begin

text \<open>
  Enumerable collections, as the ledger keeps them for the tokens of an asset, the tokens of
  an owner and the assets of an account: a counter per collection, an entry per index that
  names the member there, and in every member its collection and index. A member is added
  behind the last index and removed by moving the last member to its place. The locale
  \<open>enumerable\<close> is what users of such collections rely on; \<open>slots\<close> provides it.
\<close>

record ('c, 'x) Enum =
  e_count :: "'c \<Rightarrow> int"
  e_at :: "'c \<Rightarrow> int \<Rightarrow> 'x option"
  e_pos :: "'x \<Rightarrow> ('c \<times> int) option"

definition enum_ok :: "('c, 'x) Enum \<Rightarrow> bool" where
  "enum_ok e \<longleftrightarrow> (\<forall>c i x. e_at e c i = Some x \<longleftrightarrow> e_pos e x = Some (c, i)) \<and>
     (\<forall>c i. e_at e c i \<noteq> None \<longleftrightarrow> 0 \<le> i \<and> i < e_count e c) \<and> (\<forall>c. 0 \<le> e_count e c)"

definition enum_push :: "'c \<Rightarrow> 'x \<Rightarrow> ('c, 'x) Enum \<Rightarrow> ('c, 'x) Enum" where
  "enum_push c x e =
     \<lparr>e_count = (e_count e)(c := e_count e c + 1),
      e_at = (e_at e)(c := (e_at e c)(e_count e c \<mapsto> x)),
      e_pos = (e_pos e)(x \<mapsto> (c, e_count e c))\<rparr>"

text \<open>Removal of the member at index \<open>i\<close>, with \<open>y\<close> the last member.\<close>

definition enum_remove :: "'c \<Rightarrow> int \<Rightarrow> 'x \<Rightarrow> ('c, 'x) Enum \<Rightarrow> ('c, 'x) Enum" where
  "enum_remove c i x e =
     (let n = e_count e c - 1; y = the (e_at e c n) in
      \<lparr>e_count = (e_count e)(c := n),
       e_at = (e_at e)(c := if i = n then (e_at e c)(n := None) else (e_at e c)(n := None, i \<mapsto> y)),
       e_pos = (if i = n then (e_pos e)(x := None) else (e_pos e)(x := None, y \<mapsto> (c, i)))\<rparr>)"

definition elems :: "('c, 'x) Enum \<Rightarrow> 'c \<Rightarrow> 'x list" where
  "elems e c = map (\<lambda>i. the (e_at e c (int i))) [0..<nat (e_count e c)]"

text \<open>What removal means for the list of members.\<close>

definition swap_remove :: "nat \<Rightarrow> 'x list \<Rightarrow> 'x list" where
  "swap_remove i xs = butlast (xs[i := last xs])"

locale enumerable =
  fixes invar :: "'e \<Rightarrow> bool" and list_of :: "'e \<Rightarrow> 'c \<Rightarrow> 'x list"
    and place :: "'e \<Rightarrow> 'x \<Rightarrow> ('c \<times> int) option"
    and push :: "'c \<Rightarrow> 'x \<Rightarrow> 'e \<Rightarrow> 'e" and remove :: "'c \<Rightarrow> int \<Rightarrow> 'x \<Rightarrow> 'e \<Rightarrow> 'e"
  assumes place: "invar e \<Longrightarrow> place e x = Some (c, i) \<longleftrightarrow>
      0 \<le> i \<and> nat i < length (list_of e c) \<and> list_of e c ! nat i = x"
    and push_ok: "invar e \<Longrightarrow> place e x = None \<Longrightarrow> invar (push c x e)"
    and push_list: "invar e \<Longrightarrow> place e x = None \<Longrightarrow>
      list_of (push c x e) = (list_of e)(c := list_of e c @ [x])"
    and remove_ok: "invar e \<Longrightarrow> place e x = Some (c, i) \<Longrightarrow> invar (remove c i x e)"
    and remove_list: "invar e \<Longrightarrow> place e x = Some (c, i) \<Longrightarrow>
      list_of (remove c i x e) = (list_of e)(c := swap_remove (nat i) (list_of e c))"
begin

lemma distinct_list: "invar e \<Longrightarrow> distinct (list_of e c)"
proof -
  assume e: "invar e"
  have "i = j" if "i < length (list_of e c)" "j < length (list_of e c)" "list_of e c ! i = list_of e c ! j" for i j
  proof -
    have "place e (list_of e c ! i) = Some (c, int i)" using place [OF e] that by simp
    moreover have "place e (list_of e c ! i) = Some (c, int j)" using place [OF e] that by simp
    ultimately show ?thesis by simp
  qed
  then show ?thesis by (auto simp: distinct_conv_nth)
qed

lemma member_iff: "invar e \<Longrightarrow> x \<in> set (list_of e c) \<longleftrightarrow> (\<exists>i. place e x = Some (c, i))"
proof
  assume e: "invar e" and "x \<in> set (list_of e c)"
  then obtain j where "j < length (list_of e c)" "list_of e c ! j = x" by (auto simp: in_set_conv_nth)
  then have "place e x = Some (c, int j)" using place [OF e] by simp
  then show "\<exists>i. place e x = Some (c, i)" by blast
next
  assume e: "invar e" and "\<exists>i. place e x = Some (c, i)"
  then show "x \<in> set (list_of e c)" using place [OF e] by (metis nth_mem)
qed

text \<open>A member belongs to one collection only.\<close>

lemma disjoint_lists: "invar e \<Longrightarrow> c \<noteq> d \<Longrightarrow> set (list_of e c) \<inter> set (list_of e d) = {}"
  by (auto simp: member_iff)

lemma length_card: "invar e \<Longrightarrow> length (list_of e c) = card {x. \<exists>i. place e x = Some (c, i)}"
proof -
  assume e: "invar e"
  then have "{x. \<exists>i. place e x = Some (c, i)} = set (list_of e c)" by (auto simp: member_iff)
  then show ?thesis by (simp add: distinct_card distinct_list [OF e])
qed

end

subsection \<open>The collections of the ledger\<close>

lemma enum_okD:
  assumes "enum_ok e"
  shows "e_at e c i = Some x \<longleftrightarrow> e_pos e x = Some (c, i)" "e_at e c i \<noteq> None \<longleftrightarrow> 0 \<le> i \<and> i < e_count e c"
    "0 \<le> e_count e c"
  using assms unfolding enum_ok_def by blast+

lemma enum_at_None: "enum_ok e \<Longrightarrow> e_at e c i = None \<longleftrightarrow> \<not> (0 \<le> i \<and> i < e_count e c)"
  using enum_okD(2) [of e c i] by blast

text \<open>A member and the last member of its collection.\<close>

lemma enum_last:
  assumes ok: "enum_ok e" and x: "e_pos e x = Some (c, i)"
  obtains y where "e_at e c i = Some x" "0 \<le> i" "i < e_count e c" "e_at e c (e_count e c - 1) = Some y"
    "e_pos e y = Some (c, e_count e c - 1)" "y = x \<longleftrightarrow> i = e_count e c - 1"
proof -
  let ?n = "e_count e c - 1"
  have i: "e_at e c i = Some x" using enum_okD(1) [OF ok] x by blast
  then have n: "0 \<le> i" "i < e_count e c" using enum_okD(2) [OF ok, of c i] by simp_all
  then obtain y where y: "e_at e c ?n = Some y" using enum_okD(2) [OF ok, of c ?n] by force
  then have "e_pos e y = Some (c, ?n)" using enum_okD(1) [OF ok] by blast
  moreover from this have "y = x \<longleftrightarrow> i = ?n" using x i y by auto
  ultimately show ?thesis using that i n y by blast
qed

lemma length_elems: "length (elems e c) = nat (e_count e c)"
  by (simp add: elems_def)

lemma nth_elems: "0 \<le> i \<Longrightarrow> i < e_count e c \<Longrightarrow> elems e c ! nat i = the (e_at e c i)"
  by (simp add: elems_def)

lemma enum_push_ok:
  assumes ok: "enum_ok e" and x: "e_pos e x = None"
  shows "enum_ok (enum_push c x e)"
proof -
  note d = enum_okD [OF ok]
  have n: "e_at e c' i \<noteq> Some x" for c' i using d(1) [of c' i x] x by simp
  have l: "e_pos e y \<noteq> Some (c, e_count e c)" for y using d(1) [of c "e_count e c" y] d(2) [of c "e_count e c"] by auto
  show ?thesis
    unfolding enum_ok_def enum_push_def
  proof (intro conjI allI, goal_cases)
    case (1 c' i y)
    then show ?case using d(1) [of c' i y] n [of c' i] l [of y] by auto
  next
    case (2 c' i)
    then show ?case using d(2) [of c' i] d(3) [of c] by auto
  next
    case (3 c')
    then show ?case using d(3) [of c'] by auto
  qed
qed

lemma enum_push_list:
  assumes ok: "enum_ok e"
  shows "elems (enum_push c x e) = (elems e)(c := elems e c @ [x])"
proof
  fix d
  have "nat (e_count e c + 1) = Suc (nat (e_count e c))" using enum_okD(3) [OF ok, of c] by simp
  then show "elems (enum_push c x e) d = ((elems e)(c := elems e c @ [x])) d"
    using enum_okD(3) [OF ok, of c] by (auto simp: elems_def enum_push_def)
qed

lemma enum_remove_ok:
  assumes ok: "enum_ok e" and x: "e_pos e x = Some (c, i)"
  shows "enum_ok (enum_remove c i x e)"
proof -
  note d = enum_okD [OF ok]
  define n where "n = e_count e c - 1"
  have i: "e_at e c i = Some x" "0 \<le> i" "i \<le> n" using d(1) [of c i x] d(2) [of c i] x by (auto simp: n_def)
  obtain y where y: "e_at e c n = Some y" using d(2) [of c n] i by (auto simp: n_def)
  have py: "e_pos e y = Some (c, n)" using d(1) y by simp
  have u: "e_pos e z = Some (c, n) \<longleftrightarrow> z = y" "e_pos e z = Some (c, i) \<longleftrightarrow> z = x" for z
    using d(1) [of c n z] y d(1) [of c i z] i(1) by auto
  have xy: "x = y \<longleftrightarrow> i = n" using x py u [of x] by auto
  have e: "enum_remove c i x e =
      \<lparr>e_count = (e_count e)(c := n),
       e_at = (e_at e)(c := if i = n then (e_at e c)(n := None) else (e_at e c)(n := None, i \<mapsto> y)),
       e_pos = (if i = n then (e_pos e)(x := None) else (e_pos e)(x := None, y \<mapsto> (c, i)))\<rparr>"
    unfolding enum_remove_def Let_def n_def [symmetric] y option.sel ..
  show ?thesis
    unfolding enum_ok_def e
  proof (intro conjI allI, goal_cases)
    case (1 c' j z)
    then show ?case using d(1) [of c' j z] u [of z] x py xy by auto
  next
    case (2 c' j)
    then show ?case using d(2) [of c' j] i by (auto simp: n_def)
  next
    case (3 c')
    then show ?case using d(3) [of c'] i by (auto simp: n_def)
  qed
qed

lemma enum_remove_list:
  assumes ok: "enum_ok e" and x: "e_pos e x = Some (c, i)"
  shows "elems (enum_remove c i x e) = (elems e)(c := swap_remove (nat i) (elems e c))"
proof
  fix d
  note k = enum_okD [OF ok]
  have i: "0 \<le> i" "i < e_count e c" using k(1) [of c i x] k(2) [of c i] x by auto
  define n where "n = nat (e_count e c - 1)"
  have n: "nat (e_count e c) = Suc n" "int n = e_count e c - 1" using i by (simp_all add: n_def)
  have l: "last (elems e c) = the (e_at e c (int n))" by (simp add: elems_def n(1))
  have "elems (enum_remove c i x e) c = swap_remove (nat i) (elems e c)"
  proof (rule nth_equalityI)
    show "length (elems (enum_remove c i x e) c) = length (swap_remove (nat i) (elems e c))"
      by (simp add: swap_remove_def length_elems enum_remove_def Let_def n_def nat_diff_distrib)
  next
    fix j assume "j < length (elems (enum_remove c i x e) c)"
    then have j: "j < n" by (simp add: length_elems enum_remove_def Let_def n_def)
    have "swap_remove (nat i) (elems e c) ! j = (if nat i = j then last (elems e c) else elems e c ! j)"
      using j by (simp add: swap_remove_def nth_butlast length_elems n(1) nth_list_update)
    moreover have "elems e c ! j = the (e_at e c (int j))" using nth_elems [of "int j" e c] j n by simp
    moreover have "elems (enum_remove c i x e) c ! j = the (e_at (enum_remove c i x e) c (int j))"
      using nth_elems [of "int j" "enum_remove c i x e" c] j n by (simp add: enum_remove_def Let_def)
    ultimately show "elems (enum_remove c i x e) c ! j = swap_remove (nat i) (elems e c) ! j"
      using j i l n by (auto simp: enum_remove_def Let_def)
  qed
  then show "elems (enum_remove c i x e) d = ((elems e)(c := swap_remove (nat i) (elems e c))) d"
    by (auto simp: elems_def enum_remove_def Let_def)
qed

interpretation slots: enumerable enum_ok elems e_pos enum_push enum_remove
proof
  fix e :: "('c, 'x) Enum" and x c i
  assume ok: "enum_ok e"
  note d = enum_okD [OF ok]
  show "e_pos e x = Some (c, i) \<longleftrightarrow> 0 \<le> i \<and> nat i < length (elems e c) \<and> elems e c ! nat i = x"
  proof
    assume "e_pos e x = Some (c, i)"
    then have "e_at e c i = Some x" using d(1) by simp
    moreover have "0 \<le> i" "i < e_count e c" using d(2) [of c i] calculation by auto
    ultimately show "0 \<le> i \<and> nat i < length (elems e c) \<and> elems e c ! nat i = x"
      using nth_elems [of i e c] by (simp add: length_elems)
  next
    assume a: "0 \<le> i \<and> nat i < length (elems e c) \<and> elems e c ! nat i = x"
    then have i: "0 \<le> i" "i < e_count e c" by (simp_all add: length_elems)
    then obtain y where "e_at e c i = Some y" using d(2) [of c i] by auto
    then show "e_pos e x = Some (c, i)" using a nth_elems [OF i] d(1) [of c i y] by simp
  qed
qed (simp_all add: enum_push_ok enum_push_list enum_remove_ok enum_remove_list)

end
