(* ===== verification/NFAsset.thy ===== *)
theory NFAsset
  imports Transactor Enumeration
begin

unbundle bit_operations_syntax

text \<open>
  \<^verbatim>\<open>app/tx/impl/NFAsset.cpp\<close>: creating, approving, setting and destroying assets, and the two
  functions that enter an account into the owners of an asset and remove it again. The assets
  of an account are enumerated: the account root counts them, an index entry per number names
  the asset, and the owner entry of the asset knows its number.
\<close>

definition MAX_ASSET_ID_LENGTH :: nat where "MAX_ASSET_ID_LENGTH = 15"
definition MAX_ASSET_NAME_LENGTH :: nat where "MAX_ASSET_NAME_LENGTH = 31"

definition tfTransferToken :: int where "tfTransferToken = 1"
definition tfDestroyToken :: int where "tfDestroyToken = 2"
definition tfUpdateToken :: int where "tfUpdateToken = 4"
definition tfToggleTransfer :: int where "tfToggleTransfer = 8"
definition tfRevokeToken :: int where "tfRevokeToken = 16"
definition tfUniversal :: int where "tfUniversal = 0x80000000"
definition tfAssetCapMask :: int where
  "tfAssetCapMask = u32 (NOT (tfUniversal OR tfTransferToken OR tfDestroyToken OR tfUpdateToken OR
     tfToggleTransfer OR tfRevokeToken))"
definition asfAllowTransferToken :: int where "asfAllowTransferToken = 1"

abbreviation tx_account :: "STTx \<Rightarrow> int" where
  "tx_account tx \<equiv> getAccountID sfAccount (tx_fields tx)"

subsection \<open>Owners\<close>

definition addAssetOwner :: "(HashArg list \<Rightarrow> nat) \<Rightarrow> int \<Rightarrow> nat \<Rightarrow> State \<Rightarrow> State result" where
  "addAssetOwner sha owner assetid m =
     (case peek (keylet_account sha owner) m of
        None \<Rightarrow> Inl null_deref
      | Some sleOwner \<Rightarrow>
          let assetNum = getFieldU64 sfAssetNumber sleOwner; k = nfasset_index sha owner assetNum in
          rbind (update (keylet_account sha owner) (setFieldU64 sfAssetNumber (u64 (assetNum + 1))) m) (\<lambda>m.
          rbind (if peek k m = None then insert_sle k no_fields m else Inr m) (\<lambda>m.
          rbind (update k (setFieldH256 sfAssetID assetid) m) (\<lambda>m.
            insert_sle (nfasset_owner sha assetid owner)
              (setFieldU64 sfAssetIndex assetNum (setFieldU64 sfTokenNumber 0 no_fields)) m))))"

text \<open>The owner entry is given by its keylet and, as it is erased first, by its fields.\<close>

definition removeAssetOwner ::
    "(HashArg list \<Rightarrow> nat) \<Rightarrow> int \<Rightarrow> Keylet \<Rightarrow> STObject \<Rightarrow> State \<Rightarrow> State result" where
  "removeAssetOwner sha owner kOwner sleAssetOwner m =
     rbind (erase kOwner m) (\<lambda>m.
     case peek (keylet_account sha owner) m of
       None \<Rightarrow> Inl null_deref
     | Some sleOwner \<Rightarrow>
         let num = getFieldU64 sfAssetNumber sleOwner; assetNum = (if num > 0 then num - 1 else num) in
         rbind (if num > 0 then update (keylet_account sha owner) (setFieldU64 sfAssetNumber assetNum) m
                else Inr m) (\<lambda>m.
         if \<not> isFieldPresent sfAssetIndex sleAssetOwner then Inr m
         else
           let assetIndex = getFieldU64 sfAssetIndex sleAssetOwner in
           if peek (nfasset_index sha owner assetIndex) m = None then Inr m
           else if assetNum \<noteq> assetIndex then
             (case peek (nfasset_index sha owner assetNum) m of
                None \<Rightarrow> Inr m
              | Some sleAssetLastIndex \<Rightarrow>
                  let lastAssetID = getFieldH256 sfAssetID sleAssetLastIndex in
                  rbind (erase (nfasset_index sha owner assetNum) m) (\<lambda>m.
                  rbind (update (nfasset_index sha owner assetIndex) (setFieldH256 sfAssetID lastAssetID) m) (\<lambda>m.
                  if peek (nfasset_owner sha lastAssetID owner) m = None then Inr m
                  else update (nfasset_owner sha lastAssetID owner) (setFieldU64 sfAssetIndex assetIndex) m)))
           else erase (nfasset_index sha owner assetIndex) m))"

subsection \<open>Transactors\<close>

definition CreateAsset_preflight :: "TxContext \<Rightarrow> STTx \<Rightarrow> TER result" where
  "CreateAsset_preflight cx tx =
     rbind (preflight1 tx) (\<lambda>ret.
     if \<not> isTesSuccess ret then Inr ret
     else if length (getFieldVL sfIdent (tx_fields tx)) > MAX_ASSET_ID_LENGTH then Inr temBAD_ASSET
     else if isFieldPresent sfName (tx_fields tx) \<and> length (getFieldVL sfName (tx_fields tx)) > MAX_ASSET_NAME_LENGTH
     then Inr temBAD_ASSET
     else if isFieldPresent sfFlags (tx_fields tx) \<and> getFieldU32 sfFlags (tx_fields tx) AND tfAssetCapMask \<noteq> 0
     then Inr temBAD_ASSET
     else Inr (preflight2 cx))"

definition CreateAsset_doApply :: "(HashArg list \<Rightarrow> nat) \<Rightarrow> STTx \<Rightarrow> State \<Rightarrow> (TER \<times> State) result" where
  "CreateAsset_doApply sha tx m =
     (let t = tx_fields tx; account = tx_account tx; ident = getFieldVL sfIdent t;
          k = nfasset_id sha account ident; assetid = kl_key k in
      if exists k m then Inr (tefASSET_EXIST, m)
      else
        let sle = setFieldH256 sfTransactionHash (tx_id tx) (setFieldU64 sfTokenNumber 0
              (setFieldH256 sfAssetID assetid (setFieldVL sfIdent ident (setAccountID sfIssuer account no_fields))));
            sle = (if isFieldPresent sfName t then setFieldVL sfName (getFieldVL sfName t) sle else sle);
            sle = (if isFieldPresent sfMemos t then setFieldArray sfMemos (getFieldArray sfMemos t) sle else sle);
            sle = setFieldU32 sfFlags (if isFieldPresent sfFlags t then getFieldU32 sfFlags t else 0) sle in
        rbind (insert_sle k sle m) (\<lambda>m.
        rbind (addAssetOwner sha account assetid m) (\<lambda>m. Inr (tesSUCCESS, m))))"

definition ApproveAsset_preflight :: "TxContext \<Rightarrow> STTx \<Rightarrow> TER result" where
  "ApproveAsset_preflight cx tx =
     rbind (preflight1 tx) (\<lambda>ret. if \<not> isTesSuccess ret then Inr ret else Inr (preflight2 cx))"

definition ApproveAsset_preclaim :: "(HashArg list \<Rightarrow> nat) \<Rightarrow> STTx \<Rightarrow> State \<Rightarrow> TER" where
  "ApproveAsset_preclaim sha tx m =
     (let t = tx_fields tx; dest = getAccountID sfDestination t in
      if \<not> exists (nfasset_key (getFieldH256 sfAssetID t)) m then tefNO_ASSET
      else if \<not> exists (keylet_account sha dest) m then tecNO_DST
      else if dest = tx_account tx then temDST_IS_SRC
      else tesSUCCESS)"

definition assetAuthKey :: "(HashArg list \<Rightarrow> nat) \<Rightarrow> STTx \<Rightarrow> Keylet" where
  "assetAuthKey sha tx =
     nfasset_auth sha (getFieldH256 sfAssetID (tx_fields tx)) (tx_account tx)
       (getAccountID sfDestination (tx_fields tx))"

definition ApproveAsset_doApply :: "(HashArg list \<Rightarrow> nat) \<Rightarrow> STTx \<Rightarrow> State \<Rightarrow> (TER \<times> State) result" where
  "ApproveAsset_doApply sha tx m =
     rbind (if peek (assetAuthKey sha tx) m = None then insert_sle (assetAuthKey sha tx) no_fields m else Inr m)
       (\<lambda>m. Inr (tesSUCCESS, m))"

definition CancelApproveAsset_doApply :: "(HashArg list \<Rightarrow> nat) \<Rightarrow> STTx \<Rightarrow> State \<Rightarrow> (TER \<times> State) result" where
  "CancelApproveAsset_doApply sha tx m =
     rbind (if peek (assetAuthKey sha tx) m \<noteq> None then erase (assetAuthKey sha tx) m else Inr m)
       (\<lambda>m. Inr (tesSUCCESS, m))"

definition DestroyAsset_preflight :: "TxContext \<Rightarrow> STTx \<Rightarrow> TER result" where
  "DestroyAsset_preflight cx tx =
     rbind (preflight1 tx) (\<lambda>ret. if \<not> isTesSuccess ret then Inr ret else Inr (preflight2 cx))"

definition DestroyAsset_preclaim :: "STTx \<Rightarrow> State \<Rightarrow> TER" where
  "DestroyAsset_preclaim tx m =
     (case peek (nfasset_key (getFieldH256 sfAssetID (tx_fields tx))) m of
        None \<Rightarrow> tefNO_ASSET
      | Some sleAsset \<Rightarrow> if getAccountID sfIssuer sleAsset \<noteq> tx_account tx then tecNO_PERMISSION else tesSUCCESS)"

definition DestroyAsset_doApply :: "(HashArg list \<Rightarrow> nat) \<Rightarrow> STTx \<Rightarrow> State \<Rightarrow> (TER \<times> State) result" where
  "DestroyAsset_doApply sha tx m =
     (let assetid = getFieldH256 sfAssetID (tx_fields tx); account = tx_account tx;
          kOwner = nfasset_owner sha assetid account in
      case peek (nfasset_key assetid) m of
        None \<Rightarrow> Inl null_deref
      | Some sleAsset \<Rightarrow>
          if getFieldU64 sfTokenNumber sleAsset > 0 then Inr (tefDESTROY_ASSET, m)
          else
            rbind (case peek kOwner m of
                     None \<Rightarrow> Inr m
                   | Some sleAssetOwner \<Rightarrow> removeAssetOwner sha account kOwner sleAssetOwner m) (\<lambda>m.
            rbind (erase (nfasset_key assetid) m) (\<lambda>m. Inr (tesSUCCESS, m))))"

text \<open>The flags after \<^verbatim>\<open>SetAsset\<close>, or \<open>None\<close> if the change is not permitted.\<close>

definition SetAsset_flags :: "STObject \<Rightarrow> int \<Rightarrow> int option" where
  "SetAsset_flags t flags =
     (if isFieldPresent sfSetFlag t then
        if getFieldU32 sfSetFlag t = asfAllowTransferToken \<and> flags AND tfTransferToken = 0 then
          if flags AND tfToggleTransfer = 0 then None else Some (flags OR tfTransferToken)
        else Some flags
      else if isFieldPresent sfClearFlag t then
        if getFieldU32 sfClearFlag t = asfAllowTransferToken \<and> flags AND tfTransferToken = 1 then
          if flags AND tfToggleTransfer = 0 then None else Some (flags AND NOT tfTransferToken)
        else Some flags
      else Some flags)"

definition SetAsset_doApply :: "STTx \<Rightarrow> State \<Rightarrow> (TER \<times> State) result" where
  "SetAsset_doApply tx m =
     (let k = nfasset_key (getFieldH256 sfAssetID (tx_fields tx)) in
      case peek k m of
        None \<Rightarrow> Inl null_deref
      | Some sleAsset \<Rightarrow>
          case SetAsset_flags (tx_fields tx) (getFieldU32 sfFlags sleAsset) of
            None \<Rightarrow> Inr (tecNO_PERMISSION, m)
          | Some flags \<Rightarrow>
              rbind (if flags \<noteq> getFieldU32 sfFlags sleAsset
                     then update k (setFieldU32 sfFlags flags) m else Inr m) (\<lambda>m. Inr (tesSUCCESS, m)))"

end
