(* ===== verification/NFToken.thy ===== *)
theory NFToken
  imports NFAsset
begin

unbundle bit_operations_syntax

text \<open>
  \<^verbatim>\<open>app/tx/impl/NFToken.cpp\<close>, \<^verbatim>\<open>app/tx/impl/NFToken.h\<close>: creating, destroying, revoking,
  transferring, approving and setting tokens. Every token is in two enumerations, that of its
  asset and that of its owner within the asset.
\<close>

definition MAX_TOKEN_ID_LENGTH :: nat where "MAX_TOKEN_ID_LENGTH = 66"
definition MAX_TOKEN_INFO_ENUM :: nat where "MAX_TOKEN_INFO_ENUM = 16"
definition MAX_TOKEN_INFO_SIZE :: nat where "MAX_TOKEN_INFO_SIZE = 1024"

subsection \<open>Creation\<close>

definition CreateToken_preflight :: "TxContext \<Rightarrow> STTx \<Rightarrow> TER result" where
  "CreateToken_preflight cx tx =
     rbind (preflight1 tx) (\<lambda>ret.
     if \<not> isTesSuccess ret then Inr ret
     else if length (getFieldVL sfIdent (tx_fields tx)) > MAX_TOKEN_ID_LENGTH then Inr temBAD_TOKEN
     else Inr (preflight2 cx))"

definition CreateToken_preclaim :: "(HashArg list \<Rightarrow> nat) \<Rightarrow> STTx \<Rightarrow> State \<Rightarrow> TER" where
  "CreateToken_preclaim sha tx m =
     (if \<not> exists (keylet_account sha (getAccountID sfOwner (tx_fields tx))) m then tefNO_OWNER else tesSUCCESS)"

text \<open>Counting one more token for an owner; the result is the index of the new token.\<close>

definition countOwnerToken :: "(HashArg list \<Rightarrow> nat) \<Rightarrow> nat \<Rightarrow> int \<Rightarrow> State \<Rightarrow> (int \<times> State) result" where
  "countOwnerToken sha assetid owner m =
     (let k = nfasset_owner sha assetid owner in
      rbind (case peek k m of
               None \<Rightarrow> rbind (addAssetOwner sha owner assetid m) (\<lambda>m. Inr (0, m))
             | Some sleAssetOwner \<Rightarrow> Inr (getFieldU64 sfTokenNumber sleAssetOwner, m)) (\<lambda>(ownerTokenNum, m).
      rbind (update k (setFieldU64 sfTokenNumber (u64 (ownerTokenNum + 1))) m) (\<lambda>m. Inr (ownerTokenNum, m))))"

text \<open>Entering a token into an index entry, which is created if it does not exist.\<close>

definition enterIndex :: "Keylet \<Rightarrow> nat \<Rightarrow> State \<Rightarrow> State result" where
  "enterIndex k tokenid m =
     rbind (if peek k m = None then insert_sle k no_fields m else Inr m) (update k (setFieldH256 sfTokenID tokenid))"

definition CreateToken_sle :: "STTx \<Rightarrow> nat \<Rightarrow> int \<Rightarrow> int \<Rightarrow> STObject" where
  "CreateToken_sle tx tokenid tokenNum ownerTokenNum =
     (let t = tx_fields tx;
          sle = setFieldH256 sfTransactionHash (tx_id tx) (setFieldU64 sfOwnerTokenIndex ownerTokenNum
            (setFieldU64 sfTokenIndex tokenNum (setAccountID sfOwner (getAccountID sfOwner t)
            (setFieldH256 sfTokenID tokenid (setFieldVL sfIdent (getFieldVL sfIdent t)
            (setFieldH256 sfAssetID (getFieldH256 sfAssetID t) no_fields))))));
          sle = (if isFieldPresent sfMemos t then setFieldArray sfMemos (getFieldArray sfMemos t) sle else sle)
      in if isFieldPresent sfImprint t then setFieldVL sfImprint (getFieldVL sfImprint t) sle else sle)"

definition CreateToken_doApply :: "(HashArg list \<Rightarrow> nat) \<Rightarrow> STTx \<Rightarrow> State \<Rightarrow> (TER \<times> State) result" where
  "CreateToken_doApply sha tx m =
     (let t = tx_fields tx; assetid = getFieldH256 sfAssetID t; owner = getAccountID sfOwner t;
          k = nftoken_id sha assetid (getFieldVL sfIdent t) in
      case peek (nfasset_key assetid) m of
        None \<Rightarrow> Inr (tefNO_ASSET, m)
      | Some sleAsset \<Rightarrow>
          if exists k m then Inr (tefTOKEN_EXIST, m)
          else if getAccountID sfIssuer sleAsset \<noteq> tx_account tx then Inr (tecNO_PERMISSION, m)
          else
            let tokenNum = getFieldU64 sfTokenNumber sleAsset in
            rbind (update (nfasset_key assetid) (setFieldU64 sfTokenNumber (u64 (tokenNum + 1))) m) (\<lambda>m.
            rbind (countOwnerToken sha assetid owner m) (\<lambda>(ownerTokenNum, m).
            rbind (insert_sle k (CreateToken_sle tx (kl_key k) tokenNum ownerTokenNum) m) (\<lambda>m.
            rbind (enterIndex (nftoken_index sha assetid tokenNum) (kl_key k) m) (\<lambda>m.
            rbind (enterIndex (nftoken_owner_index sha assetid owner ownerTokenNum) (kl_key k) m) (\<lambda>m.
              Inr (tesSUCCESS, m)))))))"

subsection \<open>Destruction and transfer\<close>

definition tokenKey :: "(HashArg list \<Rightarrow> nat) \<Rightarrow> STTx \<Rightarrow> Keylet" where
  "tokenKey sha tx =
     (let t = tx_fields tx in
      if isFieldPresent sfTokenID t then nftoken_key (getFieldH256 sfTokenID t)
      else nftoken_id sha (getFieldH256 sfAssetID t) (getFieldVL sfIdent t))"

definition DestroyToken_preflight :: "TxContext \<Rightarrow> STTx \<Rightarrow> TER result" where
  "DestroyToken_preflight cx tx =
     rbind (preflight1 tx) (\<lambda>ret.
     if \<not> isTesSuccess ret then Inr ret
     else
       let t = tx_fields tx in
       if isFieldPresent sfTokenID t \<or> (isFieldPresent sfAssetID t \<and> isFieldPresent sfIdent t)
       then Inr (preflight2 cx)
       else Inr temMALFORMED)"

text \<open>The overrides of \<^verbatim>\<open>checkPermission\<close>.\<close>

definition DestroyToken_checkPermission :: "STTx \<Rightarrow> STObject \<Rightarrow> STObject \<Rightarrow> bool" where
  "DestroyToken_checkPermission tx sleToken sleAsset \<longleftrightarrow>
     getAccountID sfOwner sleToken = tx_account tx \<and> getFieldU32 sfFlags sleAsset AND tfDestroyToken \<noteq> 0"

definition RevokeToken_checkPermission :: "STTx \<Rightarrow> STObject \<Rightarrow> STObject \<Rightarrow> bool" where
  "RevokeToken_checkPermission tx sleToken sleAsset \<longleftrightarrow>
     getAccountID sfIssuer sleAsset = tx_account tx \<and> getFieldU32 sfFlags sleAsset AND tfRevokeToken \<noteq> 0"

text \<open>The account may act for the owner: it is the owner, approved for the token or for all tokens.\<close>

definition SetToken_checkPermission :: "(HashArg list \<Rightarrow> nat) \<Rightarrow> STTx \<Rightarrow> State \<Rightarrow> STObject \<Rightarrow> bool" where
  "SetToken_checkPermission sha tx m sleToken \<longleftrightarrow>
     (let owner = getAccountID sfOwner sleToken; account = tx_account tx in
      owner = account \<or>
      (isFieldPresent sfApproved sleToken \<and> getAccountID sfApproved sleToken = account) \<or>
      peek (nfasset_auth sha (getFieldH256 sfAssetID sleToken) owner account) m \<noteq> None)"

definition TransferToken_checkPermission ::
    "(HashArg list \<Rightarrow> nat) \<Rightarrow> STTx \<Rightarrow> State \<Rightarrow> STObject \<Rightarrow> STObject \<Rightarrow> bool" where
  "TransferToken_checkPermission sha tx m sleToken sleAsset \<longleftrightarrow>
     SetToken_checkPermission sha tx m sleToken \<and> getFieldU32 sfFlags sleAsset AND tfTransferToken \<noteq> 0"

definition ApproveToken_checkPermission :: "STTx \<Rightarrow> STObject \<Rightarrow> bool" where
  "ApproveToken_checkPermission tx sleToken \<longleftrightarrow> getAccountID sfOwner sleToken = tx_account tx"

text \<open>
  The last token of a list and its index entry, or nothing if one of them is missing
  (\<^verbatim>\<open>tefINTERNAL\<close>).
\<close>

definition lastToken :: "Keylet \<Rightarrow> State \<Rightarrow> nat option" where
  "lastToken kLast m =
     (case peek kLast m of
        None \<Rightarrow> None
      | Some sleLastIndex \<Rightarrow>
          if peek (nftoken_key (getFieldH256 sfTokenID sleLastIndex)) m = None then None
          else Some (getFieldH256 sfTokenID sleLastIndex))"

text \<open>One token less for an owner.\<close>

definition discountOwnerToken ::
    "(HashArg list \<Rightarrow> nat) \<Rightarrow> nat \<Rightarrow> int \<Rightarrow> int \<Rightarrow> STObject \<Rightarrow> int \<Rightarrow> State \<Rightarrow> State result" where
  "discountOwnerToken sha assetid issuer owner sleAssetOwner ownerTokenNum m =
     (if ownerTokenNum \<noteq> 0 \<or> owner = issuer
      then update (nfasset_owner sha assetid owner) (setFieldU64 sfTokenNumber ownerTokenNum) m
      else removeAssetOwner sha owner (nfasset_owner sha assetid owner) sleAssetOwner m)"

text \<open>Moving the last token of a list to the place of a removed one.\<close>

definition fillIndex :: "Keylet \<Rightarrow> SField \<Rightarrow> int \<Rightarrow> int \<Rightarrow> nat \<Rightarrow> State \<Rightarrow> State result" where
  "fillIndex kIndex fld index lst lastTokenID m =
     (if index \<noteq> lst then
        rbind (update kIndex (setFieldH256 sfTokenID lastTokenID) m)
          (update (nftoken_key lastTokenID) (setFieldU64 fld index))
      else Inr m)"

definition DestroyToken_doApply ::
    "(HashArg list \<Rightarrow> nat) \<Rightarrow> (STObject \<Rightarrow> STObject \<Rightarrow> bool) \<Rightarrow> STTx \<Rightarrow> State \<Rightarrow> (TER \<times> State) result" where
  "DestroyToken_doApply sha checkPermission tx m =
     (let k = tokenKey sha tx in
      case peek k m of
        None \<Rightarrow> Inr (tefNO_TOKEN, m)
      | Some sleToken \<Rightarrow>
      let assetid = getFieldH256 sfAssetID sleToken; owner = getAccountID sfOwner sleToken in
      case peek (nfasset_key assetid) m of
        None \<Rightarrow> Inr (tefINTERNAL, m)
      | Some sleAsset \<Rightarrow>
      if \<not> checkPermission sleToken sleAsset then Inr (tecNO_PERMISSION, m)
      else case peek (nfasset_owner sha assetid owner) m of
        None \<Rightarrow> Inr (tefINTERNAL, m)
      | Some sleAssetOwner \<Rightarrow>
      let tokenIndex = getFieldU64 sfTokenIndex sleToken; ownerTokenIndex = getFieldU64 sfOwnerTokenIndex sleToken;
          kIndex = nftoken_index sha assetid tokenIndex;
          kOwnerIndex = nftoken_owner_index sha assetid owner ownerTokenIndex;
          tokenNum = u64 (getFieldU64 sfTokenNumber sleAsset - 1);
          kLast = nftoken_index sha assetid tokenNum;
          ownerTokenNum = u64 (getFieldU64 sfTokenNumber sleAssetOwner - 1);
          kOwnerLast = nftoken_owner_index sha assetid owner ownerTokenNum in
      if peek kIndex m = None \<or> peek kOwnerIndex m = None then Inr (tefINTERNAL, m)
      else case (lastToken kLast m, lastToken kOwnerLast m) of
        (Some lastTokenID, Some lastOwnerTokenID) \<Rightarrow>
          rbind (update (nfasset_key assetid) (setFieldU64 sfTokenNumber tokenNum) m) (\<lambda>m.
          rbind (erase k m) (\<lambda>m.
          rbind (discountOwnerToken sha assetid (getAccountID sfIssuer sleAsset) owner sleAssetOwner ownerTokenNum m) (\<lambda>m.
          rbind (erase kLast m) (\<lambda>m.
          rbind (erase kOwnerLast m) (\<lambda>m.
          rbind (fillIndex kIndex sfTokenIndex tokenIndex tokenNum lastTokenID m) (\<lambda>m.
          rbind (fillIndex kOwnerIndex sfOwnerTokenIndex ownerTokenIndex ownerTokenNum lastOwnerTokenID m) (\<lambda>m.
            Inr (tesSUCCESS, m))))))))
      | _ \<Rightarrow> Inr (tefINTERNAL, m))"

definition TransferToken_preclaim :: "(HashArg list \<Rightarrow> nat) \<Rightarrow> STTx \<Rightarrow> State \<Rightarrow> TER" where
  "TransferToken_preclaim sha tx m =
     (if \<not> exists (keylet_account sha (getAccountID sfDestination (tx_fields tx))) m then tecNO_DST else tesSUCCESS)"

definition TransferToken_sle :: "int \<Rightarrow> int \<Rightarrow> STObject \<Rightarrow> STObject" where
  "TransferToken_sle dest ownerTokenNum sleToken =
     (let sle = setFieldU64 sfOwnerTokenIndex ownerTokenNum (setAccountID sfOwner dest sleToken) in
      if isFieldPresent sfApproved sle then makeFieldAbsent sfApproved sle else sle)"

definition TransferToken_doApply :: "(HashArg list \<Rightarrow> nat) \<Rightarrow> STTx \<Rightarrow> State \<Rightarrow> (TER \<times> State) result" where
  "TransferToken_doApply sha tx m =
     (let k = tokenKey sha tx in
      case peek k m of
        None \<Rightarrow> Inr (tefNO_TOKEN, m)
      | Some sleToken \<Rightarrow>
      let assetid = getFieldH256 sfAssetID sleToken; owner = getAccountID sfOwner sleToken;
          dest = getAccountID sfDestination (tx_fields tx) in
      case peek (nfasset_key assetid) m of
        None \<Rightarrow> Inr (tefINTERNAL, m)
      | Some sleAsset \<Rightarrow>
      if \<not> TransferToken_checkPermission sha tx m sleToken sleAsset then Inr (tecNO_PERMISSION, m)
      else if dest = owner then Inr (tefDST_IS_OWNER, m)
      else case peek (nfasset_owner sha assetid owner) m of
        None \<Rightarrow> Inr (tefINTERNAL, m)
      | Some sleAssetOwner \<Rightarrow>
      let ownerTokenIndex = getFieldU64 sfOwnerTokenIndex sleToken;
          kOwnerIndex = nftoken_owner_index sha assetid owner ownerTokenIndex;
          ownerTokenNum = u64 (getFieldU64 sfTokenNumber sleAssetOwner - 1);
          kOwnerLast = nftoken_owner_index sha assetid owner ownerTokenNum in
      if peek kOwnerIndex m = None then Inr (tefINTERNAL, m)
      else case lastToken kOwnerLast m of
        None \<Rightarrow> Inr (tefINTERNAL, m)
      | Some lastOwnerTokenID \<Rightarrow>
          rbind (discountOwnerToken sha assetid (getAccountID sfIssuer sleAsset) owner sleAssetOwner ownerTokenNum m) (\<lambda>m.
          rbind (erase kOwnerLast m) (\<lambda>m.
          rbind (fillIndex kOwnerIndex sfOwnerTokenIndex ownerTokenIndex ownerTokenNum lastOwnerTokenID m) (\<lambda>m.
          rbind (countOwnerToken sha assetid dest m) (\<lambda>(destTokenNum, m).
          rbind (enterIndex (nftoken_owner_index sha assetid dest destTokenNum) (kl_key k) m) (\<lambda>m.
          rbind (update k (TransferToken_sle dest destTokenNum) m) (\<lambda>m. Inr (tesSUCCESS, m))))))))"

subsection \<open>Approval and settings\<close>

definition ApproveToken_doApply :: "(HashArg list \<Rightarrow> nat) \<Rightarrow> STTx \<Rightarrow> State \<Rightarrow> (TER \<times> State) result" where
  "ApproveToken_doApply sha tx m =
     (let k = tokenKey sha tx; dest = getAccountID sfDestination (tx_fields tx) in
      case peek k m of
        None \<Rightarrow> Inr (tefNO_TOKEN, m)
      | Some sleToken \<Rightarrow>
          if \<not> ApproveToken_checkPermission tx sleToken then Inr (tecNO_PERMISSION, m)
          else if dest = getAccountID sfOwner sleToken then Inr (temDST_IS_SRC, m)
          else
            rbind (if \<not> isFieldPresent sfApproved sleToken \<or> dest \<noteq> getAccountID sfApproved sleToken
                   then update k (setAccountID sfApproved dest) m else Inr m) (\<lambda>m. Inr (tesSUCCESS, m)))"

definition CancelApproveToken_doApply :: "(HashArg list \<Rightarrow> nat) \<Rightarrow> STTx \<Rightarrow> State \<Rightarrow> (TER \<times> State) result" where
  "CancelApproveToken_doApply sha tx m =
     (let k = tokenKey sha tx in
      case peek k m of
        None \<Rightarrow> Inr (tefNO_TOKEN, m)
      | Some sleToken \<Rightarrow>
          if \<not> ApproveToken_checkPermission tx sleToken then Inr (tecNO_PERMISSION, m)
          else
            rbind (if isFieldPresent sfApproved sleToken then update k (makeFieldAbsent sfApproved) m else Inr m)
              (\<lambda>m. Inr (tesSUCCESS, m)))"

fun updateMemos :: "Memo list \<Rightarrow> Memo \<Rightarrow> bool \<times> Memo list" where
  "updateMemos [] memo = (True, [memo])"
| "updateMemos (info # infos) memo =
     (if get_or [] (MemoType info) \<noteq> get_or [] (MemoType memo)
      then (case updateMemos infos memo of (changed, infos') \<Rightarrow> (changed, info # infos'))
      else if get_or [] (MemoData memo) \<noteq> [] then
        if get_or [] (MemoData memo) = get_or [] (MemoData info) then (False, info # infos)
        else (True, memo # infos)
      else (True, infos))"

fun updateAllMemos :: "Memo list \<Rightarrow> Memo list \<Rightarrow> bool \<times> Memo list" where
  "updateAllMemos infos [] = (False, infos)"
| "updateAllMemos infos (memo # memos) =
     (case updateMemos infos memo of (c, infos') \<Rightarrow>
        case updateAllMemos infos' memos of (c', infos'') \<Rightarrow> (c \<or> c', infos''))"

text \<open>The serialized form of an array of memos: \<^verbatim>\<open>STArray::add\<close>, \<^verbatim>\<open>STObject::add\<close>, \<^verbatim>\<open>STBlob::add\<close>.\<close>

definition memo_field :: "int \<Rightarrow> Blob option \<Rightarrow> Blob \<Rightarrow> Blob result" where
  "memo_field n v s =
     (case v of
        None \<Rightarrow> Inr s
      | Some b \<Rightarrow> rbind (addVL b (snd (addFieldID 7 n s))) (\<lambda>(_, s). Inr s))"

fun memos_add :: "Memo list \<Rightarrow> Blob \<Rightarrow> Blob result" where
  "memos_add [] s = Inr s"
| "memos_add (memo # memos) s =
     rbind (memo_field 12 (MemoType memo) (snd (addFieldID 14 10 s))) (\<lambda>s.
     rbind (memo_field 13 (MemoData memo) s) (\<lambda>s.
     rbind (memo_field 14 (MemoFormat memo) s) (\<lambda>s.
       memos_add memos (snd (addFieldID 14 1 s)))))"

text \<open>The memos of a token after \<^verbatim>\<open>SetToken\<close>, with whether they changed; \<open>None\<close> if they are too large.\<close>

definition SetToken_memos :: "STObject \<Rightarrow> STObject \<Rightarrow> (bool \<times> STObject) option result" where
  "SetToken_memos t sleToken =
     (if isFieldPresent sfMemos t then
        let (changed, infos) = updateAllMemos (getFieldArray sfMemos sleToken) (getFieldArray sfMemos t);
            sle = setFieldArray sfMemos infos sleToken in
        if \<not> changed then Inr (Some (False, sle))
        else if length infos > MAX_TOKEN_INFO_ENUM then Inr None
        else if length infos = 0 then Inr (Some (True, makeFieldAbsent sfMemos sle))
        else rbind (memos_add infos []) (\<lambda>s.
          if length s > MAX_TOKEN_INFO_SIZE then Inr None else Inr (Some (True, sle)))
      else Inr (Some (False, sleToken)))"

definition SetToken_doApply :: "(HashArg list \<Rightarrow> nat) \<Rightarrow> STTx \<Rightarrow> State \<Rightarrow> (TER \<times> State) result" where
  "SetToken_doApply sha tx m =
     (let k = tokenKey sha tx; t = tx_fields tx in
      case peek k m of
        None \<Rightarrow> Inr (tefNO_TOKEN, m)
      | Some sleToken \<Rightarrow>
          if \<not> SetToken_checkPermission sha tx m sleToken then Inr (tecNO_PERMISSION, m)
          else rbind (SetToken_memos t sleToken) (\<lambda>r.
            case r of
              None \<Rightarrow> Inr (tecINTERNAL, m)
            | Some (changed, sle) \<Rightarrow>
                if isFieldPresent sfImprint t then
                  if isFieldPresent sfImprint sle then Inr (tecNO_PERMISSION, m)
                  else rbind (update k (\<lambda>_. setFieldVL sfImprint (getFieldVL sfImprint t) sle) m)
                         (\<lambda>m. Inr (tesSUCCESS, m))
                else
                  rbind (if changed then update k (\<lambda>_. sle) m else Inr m) (\<lambda>m. Inr (tesSUCCESS, m))))"

subsection \<open>Dispatch\<close>

text \<open>\<^verbatim>\<open>app/tx/impl/applySteps.cpp\<close>, the transaction types of assets and tokens.\<close>

datatype NFType =
    ttASSET_CREATE | ttTOKEN_CREATE | ttTOKEN_DESTROY | ttTOKEN_REVOKE | ttTOKEN_TRANSFER | ttTOKEN_APPROVE
  | ttTOKEN_APPROVE_CANCEL | ttASSET_APPROVE | ttASSET_APPROVE_CANCEL | ttASSET_DESTROY | ttASSET_SET | ttTOKEN_SET

fun nf_preflight :: "NFType \<Rightarrow> TxContext \<Rightarrow> STTx \<Rightarrow> TER result" where
  "nf_preflight ttASSET_CREATE = CreateAsset_preflight"
| "nf_preflight ttTOKEN_CREATE = CreateToken_preflight"
| "nf_preflight ttASSET_APPROVE = ApproveAsset_preflight"
| "nf_preflight ttASSET_APPROVE_CANCEL = ApproveAsset_preflight"
| "nf_preflight ttASSET_DESTROY = DestroyAsset_preflight"
| "nf_preflight ttASSET_SET = DestroyAsset_preflight"
| "nf_preflight _ = DestroyToken_preflight"

fun nf_preclaim :: "NFType \<Rightarrow> (HashArg list \<Rightarrow> nat) \<Rightarrow> STTx \<Rightarrow> State \<Rightarrow> TER" where
  "nf_preclaim ttTOKEN_CREATE sha tx m = CreateToken_preclaim sha tx m"
| "nf_preclaim ttTOKEN_TRANSFER sha tx m = TransferToken_preclaim sha tx m"
| "nf_preclaim ttTOKEN_APPROVE sha tx m = TransferToken_preclaim sha tx m"
| "nf_preclaim ttASSET_APPROVE sha tx m = ApproveAsset_preclaim sha tx m"
| "nf_preclaim ttASSET_APPROVE_CANCEL sha tx m = ApproveAsset_preclaim sha tx m"
| "nf_preclaim ttASSET_DESTROY sha tx m = DestroyAsset_preclaim tx m"
| "nf_preclaim ttASSET_SET sha tx m = DestroyAsset_preclaim tx m"
| "nf_preclaim _ sha tx m = tesSUCCESS"

fun nf_doApply :: "NFType \<Rightarrow> (HashArg list \<Rightarrow> nat) \<Rightarrow> STTx \<Rightarrow> State \<Rightarrow> (TER \<times> State) result" where
  "nf_doApply ttASSET_CREATE sha tx = CreateAsset_doApply sha tx"
| "nf_doApply ttTOKEN_CREATE sha tx = CreateToken_doApply sha tx"
| "nf_doApply ttTOKEN_DESTROY sha tx = DestroyToken_doApply sha (DestroyToken_checkPermission tx) tx"
| "nf_doApply ttTOKEN_REVOKE sha tx = DestroyToken_doApply sha (RevokeToken_checkPermission tx) tx"
| "nf_doApply ttTOKEN_TRANSFER sha tx = TransferToken_doApply sha tx"
| "nf_doApply ttTOKEN_APPROVE sha tx = ApproveToken_doApply sha tx"
| "nf_doApply ttTOKEN_APPROVE_CANCEL sha tx = CancelApproveToken_doApply sha tx"
| "nf_doApply ttASSET_APPROVE sha tx = ApproveAsset_doApply sha tx"
| "nf_doApply ttASSET_APPROVE_CANCEL sha tx = CancelApproveAsset_doApply sha tx"
| "nf_doApply ttASSET_DESTROY sha tx = DestroyAsset_doApply sha tx"
| "nf_doApply ttASSET_SET sha tx = SetAsset_doApply tx"
| "nf_doApply ttTOKEN_SET sha tx = SetToken_doApply sha tx"

end
