(* ===== verification/NFView.thy ===== *)
theory NFView
  imports NFToken
begin

text \<open>
  The state of a transactor as the transactors on assets and tokens see it: \<open>view\<close> gives the entry
  for every account, asset, token, approval, owner and index by its identifying values. \<open>reps\<close>
  relates a state to its view, to the operations of the session that led to it and to the
  balances, and \<open>does\<close> is total correctness of a computation that may throw; the rules for
  \<^verbatim>\<open>update\<close>, \<^verbatim>\<open>erase\<close> and \<^verbatim>\<open>insert\<close> execute a transactor symbolically.
\<close>

subsection \<open>Entries by identifying values\<close>

datatype NFEntry =
    nAccount int | nAsset nat | nToken nat | nAuth nat int int | nOwner nat int | nIndex nat int
  | nOwnerIndex nat int int | nAssetIndex int int

fun nf_keylet :: "(HashArg list \<Rightarrow> nat) \<Rightarrow> NFEntry \<Rightarrow> Keylet" where
  "nf_keylet sha (nAccount w) = keylet_account sha w"
| "nf_keylet sha (nAsset a) = nfasset_key a"
| "nf_keylet sha (nToken t) = nftoken_key t"
| "nf_keylet sha (nAuth a w d) = nfasset_auth sha a w d"
| "nf_keylet sha (nOwner a w) = nfasset_owner sha a w"
| "nf_keylet sha (nIndex a i) = nftoken_index sha a i"
| "nf_keylet sha (nOwnerIndex a w i) = nftoken_owner_index sha a w i"
| "nf_keylet sha (nAssetIndex w i) = nfasset_index sha w i"

lemma nf_keylet_id:
  "nfasset_id sha w b = nf_keylet sha (nAsset (getNFAssetIndex sha w b))"
  "nftoken_id sha a b = nf_keylet sha (nToken (getNFTokenIndex sha a b))"
  by (simp_all add: nfasset_id_def nftoken_id_def nfasset_key_def nftoken_key_def)

lemma nf_keylet_key: "nfasset_key a = nf_keylet sha (nAsset a)" "nftoken_key t = nf_keylet sha (nToken t)"
  by simp_all

lemmas nf_keylets = nf_keylet_id nf_keylet.simps(1,4-8) [symmetric]

lemmas nf_keylet_defs = keylet_account_def nfasset_key_def nftoken_key_def nfasset_auth_def nfasset_owner_def
  nftoken_index_def nftoken_owner_index_def nfasset_index_def getAccountRootIndex_def getNFTokenOwnerAuthIndex_def
  getNFTokenAccountIndex_def getNFTokenIndexIndex_def getNFTokenOwnerIndexIndex_def getNFAssetIndexIndex_def

text \<open>The type of the entries in the name spaces concerned.\<close>

fun space_type :: "LedgerNameSpace \<Rightarrow> int option" where
  "space_type spaceAccount = Some ltACCOUNT_ROOT"
| "space_type spaceNFAsset = Some ltNFASSET"
| "space_type spaceNFToken = Some ltNFTOKEN"
| "space_type spaceNFTAuth = Some ltNFTAUTH"
| "space_type spaceNFTAccount = Some ltNFT_ACCOUNT"
| "space_type spaceNFTIndex = Some ltNFT_INDEX"
| "space_type spaceNFTOwnerIndex = Some ltNFT_OWNER_INDEX"
| "space_type spaceNFAssetIndex = Some ltNFASSET_INDEX"
| "space_type _ = None"

definition nf_wf :: "(HashArg list \<Rightarrow> nat) \<Rightarrow> State \<Rightarrow> bool" where
  "nf_wf sha m \<longleftrightarrow> m 0 = None \<and>
     (\<forall>s args e ty. m (sha (hSpace s # args)) = Some e \<longrightarrow> space_type s = Some ty \<longrightarrow> sle_type e = ty)"

text \<open>Keys of entries that a transactor may create.\<close>

definition in_space :: "(HashArg list \<Rightarrow> nat) \<Rightarrow> NFEntry \<Rightarrow> bool" where
  "in_space sha x \<longleftrightarrow> (\<exists>s args. kl_key (nf_keylet sha x) = sha (hSpace s # args) \<and>
     space_type s = Some (kl_type (nf_keylet sha x)))"

lemma in_spaceI: "kl_key (nf_keylet sha x) = sha (hSpace s # args) \<Longrightarrow>
    space_type s = Some (kl_type (nf_keylet sha x)) \<Longrightarrow> in_space sha x"
  unfolding in_space_def by blast

lemma in_space [simp]:
  "in_space sha (nAccount w)" "in_space sha (nAuth a w d)" "in_space sha (nOwner a w)" "in_space sha (nIndex a i)"
  "in_space sha (nOwnerIndex a w i)" "in_space sha (nAssetIndex w i)"
  "in_space sha (nAsset (getNFAssetIndex sha w b))" "in_space sha (nToken (getNFTokenIndex sha a b))"
  by (simp add: in_spaceI [of sha _ spaceAccount "[hU160 w]"] nf_keylet_defs,
      simp add: in_spaceI [of sha _ spaceNFTAuth "[hU256 a, hU160 w, hU160 d]"] nf_keylet_defs,
      simp add: in_spaceI [of sha _ spaceNFTAccount "[hU256 a, hU160 w]"] nf_keylet_defs,
      simp add: in_spaceI [of sha _ spaceNFTIndex "[hU256 a, hU64 i]"] nf_keylet_defs,
      simp add: in_spaceI [of sha _ spaceNFTOwnerIndex "[hU256 a, hU160 w, hU64 i]"] nf_keylet_defs,
      simp add: in_spaceI [of sha _ spaceNFAssetIndex "[hU160 w, hU64 i]"] nf_keylet_defs,
      simp add: in_spaceI [of sha _ spaceNFAsset "[hU160 w, hBlob b]"] nf_keylet_defs getNFAssetIndex_def,
      simp add: in_spaceI [of sha _ spaceNFToken "[hU256 a, hBlob b]"] nf_keylet_defs getNFTokenIndex_def)

lemma nf_keylet_inj:
  assumes "collision_free sha"
    "kl_key (nf_keylet sha x) = kl_key (nf_keylet sha y)" "kl_type (nf_keylet sha x) = kl_type (nf_keylet sha y)"
  shows "x = y"
  using assms(2,3)
  by (cases x; cases y) (simp_all add: nf_keylet_defs lt_codes collision_freeD [OF assms(1)])

lemma code_eq: "code s = code t \<longleftrightarrow> s = t"
  by (cases s; cases t) simp_all

definition view :: "(HashArg list \<Rightarrow> nat) \<Rightarrow> State \<Rightarrow> NFEntry \<Rightarrow> STObject option" where
  "view sha m x = peek (nf_keylet sha x) m"

lemma option_eqI: "(\<And>z. a = Some z \<longleftrightarrow> b = Some z) \<Longrightarrow> a = b"
  by (metis option.exhaust)

lemma view_iff: "view sha m x = Some obj \<longleftrightarrow> (\<exists>e. m (kl_key (nf_keylet sha x)) = Some e \<and>
    sle_type e = kl_type (nf_keylet sha x) \<and> sle_obj e = obj)"
  unfolding view_def peek_def lookup_def check_def
  by (cases x) (auto simp: nf_keylet_defs lt_codes split: option.splits)

text \<open>
  The state reached from \<open>m0\<close> shows \<open>V\<close>, is reached by operations of a session and has the same
  balances and sequence numbers.
\<close>

definition reps :: "(HashArg list \<Rightarrow> nat) \<Rightarrow> State \<Rightarrow> State \<Rightarrow> (NFEntry \<Rightarrow> STObject option) \<Rightarrow> bool" where
  "reps sha m0 m V \<longleftrightarrow> collision_free sha \<and> nf_wf sha m \<and> view sha m = V \<and> by_ops m0 m \<and>
     balances m = balances m0 \<and> sequences m = sequences m0"

lemma reps_peek: "reps sha m0 m V \<Longrightarrow> peek (nf_keylet sha x) m = V x"
  by (auto simp: reps_def view_def)

lemma reps_exists: "reps sha m0 m V \<Longrightarrow> exists (nf_keylet sha x) m \<longleftrightarrow> V x \<noteq> None"
  by (auto simp: reps_def view_def exists_def peek_def)

lemma view_upd:
  assumes c: "collision_free sha" and e: "sle_type e = kl_type (nf_keylet sha x)"
    and m: "case m (kl_key (nf_keylet sha x)) of None \<Rightarrow> True | Some e' \<Rightarrow> sle_type e' = sle_type e"
  shows "view sha (m(kl_key (nf_keylet sha x) \<mapsto> e)) = (view sha m)(x \<mapsto> sle_obj e)"
    "view sha (m(kl_key (nf_keylet sha x) := None)) = (view sha m)(x := None)"
proof -
  have k: "kl_key (nf_keylet sha y) = kl_key (nf_keylet sha x) \<and> kl_type (nf_keylet sha y) = kl_type (nf_keylet sha x)
      \<longleftrightarrow> y = x" for y
    using nf_keylet_inj [OF c] by blast
  have y: "view sha (m(kl_key (nf_keylet sha x) := v)) y = view sha m y"
    if "y \<noteq> x" "\<And>e'. v = Some e' \<Longrightarrow> sle_type e' = sle_type e" for y v
  proof (cases "kl_key (nf_keylet sha y) = kl_key (nf_keylet sha x)")
    case True
    then have t: "kl_type (nf_keylet sha y) \<noteq> sle_type e" using k [of y] that(1) e by auto
    have "view sha (m(kl_key (nf_keylet sha x) := v)) y \<noteq> Some z" for z
      unfolding view_iff using True t that(2) by auto
    moreover have "view sha m y \<noteq> Some z" for z unfolding view_iff using True t m by auto
    ultimately show ?thesis by (simp add: option_eqI)
  qed (simp add: option_eqI view_iff)
  have x: "view sha (m(kl_key (nf_keylet sha x) \<mapsto> e)) x = Some (sle_obj e)" unfolding view_iff using e by simp
  have n: "view sha (m(kl_key (nf_keylet sha x) := None)) x \<noteq> Some z" for z unfolding view_iff by simp
  show "view sha (m(kl_key (nf_keylet sha x) \<mapsto> e)) = (view sha m)(x \<mapsto> sle_obj e)"
    using x y [where v = "Some e"] by (auto simp: fun_eq_iff)
  show "view sha (m(kl_key (nf_keylet sha x) := None)) = (view sha m)(x := None)"
    using n y [where v = None] by (auto simp: fun_eq_iff)
qed

lemma nf_wf_upd:
  assumes "collision_free sha" "nf_wf sha m" "sle_type e = kl_type (nf_keylet sha x)" "kl_key (nf_keylet sha x) \<noteq> 0"
    "in_space sha x \<or> view sha m x \<noteq> None"
  shows "nf_wf sha (m(kl_key (nf_keylet sha x) \<mapsto> e))"
proof -
  have "sle_type e = ty" if k: "sha (hSpace s # args) = kl_key (nf_keylet sha x)" and s: "space_type s = Some ty" for s args ty
    using assms(5)
  proof
    assume "in_space sha x"
    then show ?thesis using k s assms(3) unfolding in_space_def by (auto simp: collision_freeD [OF assms(1)] code_eq)
  next
    assume "view sha m x \<noteq> None"
    then obtain obj where "view sha m x = Some obj" by blast
    then obtain e' where "m (sha (hSpace s # args)) = Some e'" "sle_type e' = sle_type e"
      unfolding view_iff using k assms(3) by auto
    then show ?thesis using assms(2) s unfolding nf_wf_def by metis
  qed
  then show ?thesis using assms(2,4) unfolding nf_wf_def by auto
qed

lemma nf_wf_del: "nf_wf sha m \<Longrightarrow> nf_wf sha (m(k := None))"
  unfolding nf_wf_def by simp

lemma key_nonzero: "nf_wf sha m \<Longrightarrow> view sha m x = Some obj \<Longrightarrow> kl_key (nf_keylet sha x) \<noteq> 0"
  unfolding nf_wf_def view_iff by (metis option.distinct(1))

subsection \<open>Symbolic execution\<close>

definition does :: "'a result \<Rightarrow> ('a \<Rightarrow> bool) \<Rightarrow> bool" where
  "does r Q \<longleftrightarrow> (\<exists>x. r = Inr x \<and> Q x)"

lemma does_Inr [simp]: "does (Inr x) Q \<longleftrightarrow> Q x"
  by (simp add: does_def)

lemma does_bind: "does r R \<Longrightarrow> (\<And>x. R x \<Longrightarrow> does (f x) Q) \<Longrightarrow> does (rbind r f) Q"
  unfolding does_def by (auto simp: rbind_simps)

lemma does_mono: "does r R \<Longrightarrow> (\<And>x. R x \<Longrightarrow> Q x) \<Longrightarrow> does r Q"
  unfolding does_def by blast

lemma does_tail: "does (rbind r Inr) Q \<Longrightarrow> does r Q"
  unfolding does_def by (auto simp: rbind_Inr_iff)

text \<open>Writes to an account root that leave its balance and sequence number alone.\<close>

definition keeps_funds :: "NFEntry \<Rightarrow> (STObject \<Rightarrow> STObject) \<Rightarrow> bool" where
  "keeps_funds x f \<longleftrightarrow> (\<forall>w. x = nAccount w \<longrightarrow> (\<forall>obj. f_amount (f obj) = f_amount obj \<and> f_u32 (f obj) = f_u32 obj))"

lemma keeps_funds [simp]:
  "keeps_funds (nAccount w) (setFieldU64 fld v)" "keeps_funds (nAsset a) f" "keeps_funds (nToken t) f"
  "keeps_funds (nOwner a w) f" "keeps_funds (nIndex a i) f" "keeps_funds (nOwnerIndex a w i) f"
  "keeps_funds (nAssetIndex w i) f" "keeps_funds (nAuth a w d) f"
  by (simp_all add: keeps_funds_def st_fields)

lemma funds_upd:
  assumes "m (kl_key (nf_keylet sha x)) = Some e" "sle_type e = kl_type (nf_keylet sha x)" "keeps_funds x f"
  shows "balances (m(kl_key (nf_keylet sha x) \<mapsto> e\<lparr>sle_obj := f (sle_obj e)\<rparr>)) = balances m"
    "sequences (m(kl_key (nf_keylet sha x) \<mapsto> e\<lparr>sle_obj := f (sle_obj e)\<rparr>)) = sequences m"
proof -
  have "sle_type e = ltACCOUNT_ROOT \<Longrightarrow> \<exists>w. x = nAccount w" using assms(2)
    by (cases x) (simp_all add: nf_keylet_defs lt_codes)
  then have "sle_type e = ltACCOUNT_ROOT \<Longrightarrow>
      f_amount (f (sle_obj e)) = f_amount (sle_obj e) \<and> f_u32 (f (sle_obj e)) = f_u32 (sle_obj e)"
    using assms(3) unfolding keeps_funds_def by blast
  then show "balances (m(kl_key (nf_keylet sha x) \<mapsto> e\<lparr>sle_obj := f (sle_obj e)\<rparr>)) = balances m"
    "sequences (m(kl_key (nf_keylet sha x) \<mapsto> e\<lparr>sle_obj := f (sle_obj e)\<rparr>)) = sequences m"
    using assms(1) by (auto simp: fun_eq_iff balances_def sequences_def getFieldAmount_def getFieldU32_def)
qed

lemma funds_other:
  assumes "kl_type (nf_keylet sha x) \<noteq> ltACCOUNT_ROOT" "\<And>e. v = Some e \<Longrightarrow> sle_type e = kl_type (nf_keylet sha x)"
    "\<And>e. m (kl_key (nf_keylet sha x)) = Some e \<Longrightarrow> sle_type e = kl_type (nf_keylet sha x)"
  shows "balances (m(kl_key (nf_keylet sha x) := v)) = balances m"
    "sequences (m(kl_key (nf_keylet sha x) := v)) = sequences m"
  using assms by (auto simp: fun_eq_iff balances_def sequences_def split: option.splits)

lemma does_update:
  assumes r: "reps sha m0 m V" and x: "V x \<noteq> None" and f: "keeps_funds x f"
    and g: "\<And>m'. reps sha m0 m' (V(x \<mapsto> f (the (V x)))) \<Longrightarrow> does (g m') Q"
  shows "does (rbind (update (nf_keylet sha x) f m) g) Q"
proof -
  have c: "collision_free sha" "nf_wf sha m" "view sha m = V" using r by (simp_all add: reps_def)
  obtain obj where o: "view sha m x = Some obj" using x c(3) by auto
  then obtain e where e: "m (kl_key (nf_keylet sha x)) = Some e" "sle_type e = kl_type (nf_keylet sha x)" "sle_obj e = obj"
    by (auto simp: view_iff)
  let ?m = "m(kl_key (nf_keylet sha x) \<mapsto> e\<lparr>sle_obj := f (sle_obj e)\<rparr>)"
  have u: "update (nf_keylet sha x) f m = Inr ?m" using e by (simp add: update_def)
  have "view sha ?m = V(x \<mapsto> f (the (V x)))"
    using view_upd(1) [OF c(1), of "e\<lparr>sle_obj := f (sle_obj e)\<rparr>" x m] e o c(3) by auto
  moreover have "by_ops m0 ?m"
    using r update_by_ops [OF key_nonzero [OF c(2) o] u] by (auto simp: reps_def intro: by_ops_trans)
  moreover have "nf_wf sha ?m"
    using nf_wf_upd [OF c(1,2), of "e\<lparr>sle_obj := f (sle_obj e)\<rparr>" x] e o key_nonzero [OF c(2) o] by auto
  ultimately have "reps sha m0 ?m (V(x \<mapsto> f (the (V x))))"
    using r funds_upd [of m sha x e f, OF e(1,2) f] by (simp add: reps_def)
  then show ?thesis using g u by (simp add: rbind_simps)
qed

lemma does_erase:
  assumes r: "reps sha m0 m V" and x: "V x \<noteq> None" and a: "kl_type (nf_keylet sha x) \<noteq> ltACCOUNT_ROOT"
    and g: "\<And>m'. reps sha m0 m' (V(x := None)) \<Longrightarrow> does (g m') Q"
  shows "does (rbind (erase (nf_keylet sha x) m) g) Q"
proof -
  have c: "collision_free sha" "nf_wf sha m" "view sha m = V" using r by (simp_all add: reps_def)
  obtain obj where o: "view sha m x = Some obj" using x c(3) by auto
  then obtain e where e: "m (kl_key (nf_keylet sha x)) = Some e" "sle_type e = kl_type (nf_keylet sha x)" "sle_obj e = obj"
    by (auto simp: view_iff)
  let ?m = "m(kl_key (nf_keylet sha x) := None)"
  have u: "erase (nf_keylet sha x) m = Inr ?m" using e by (simp add: erase_def)
  have "view sha ?m = V(x := None)" using view_upd(2) [OF c(1), of e x m] e c(3) by simp
  moreover have "by_ops m0 ?m"
    using r erase_by_ops [OF key_nonzero [OF c(2) o] u] by (auto simp: reps_def intro: by_ops_trans)
  ultimately have "reps sha m0 ?m (V(x := None))"
    using r funds_other [OF a, of None m] e nf_wf_del [OF c(2)] by (simp add: reps_def)
  then show ?thesis using g u by (simp add: rbind_simps)
qed

lemma does_insert:
  assumes r: "reps sha m0 m V" and x: "V x = None" "in_space sha x"
    and a: "kl_type (nf_keylet sha x) \<noteq> ltACCOUNT_ROOT"
    and g: "\<And>m'. reps sha m0 m' (V(x \<mapsto> obj)) \<Longrightarrow> does (g m') Q"
  shows "does (rbind (insert_sle (nf_keylet sha x) obj m) g) Q"
proof -
  have c: "collision_free sha" "nf_wf sha m" "view sha m = V" using r by (simp_all add: reps_def)
  have n: "m (kl_key (nf_keylet sha x)) = None"
  proof (rule ccontr)
    assume "m (kl_key (nf_keylet sha x)) \<noteq> None"
    then obtain e where e: "m (kl_key (nf_keylet sha x)) = Some e" by blast
    then have "sle_type e = kl_type (nf_keylet sha x)" using c(2) x(2) unfolding nf_wf_def in_space_def by metis
    then have "view sha m x = Some (sle_obj e)" using e by (simp add: view_iff)
    then show False using x c(3) by simp
  qed
  let ?m = "m(kl_key (nf_keylet sha x) \<mapsto> make_sle (nf_keylet sha x) obj)"
  have u: "insert_sle (nf_keylet sha x) obj m = Inr ?m" using n by (simp add: insert_sle_def)
  have k: "kl_key (nf_keylet sha x) \<noteq> 0" using x(2) collision_freeD(2) [OF c(1)] unfolding in_space_def by auto
  have t: "sle_type (make_sle (nf_keylet sha x) obj) = kl_type (nf_keylet sha x)" by (simp add: make_sle_def)
  have "view sha ?m = V(x \<mapsto> obj)" using view_upd(1) [OF c(1) t, of m] n c(3) by (simp add: make_sle_def)
  moreover have "by_ops m0 ?m" using r insert_by_ops [OF u] by (auto simp: reps_def intro: by_ops_trans)
  moreover have "nf_wf sha ?m" using nf_wf_upd [OF c(1,2) t k] x(2) by simp
  ultimately have "reps sha m0 ?m (V(x \<mapsto> obj))"
    using r funds_other [OF a, of "Some (make_sle (nf_keylet sha x) obj)" m] n t by (simp add: reps_def)
  then show ?thesis using g u by (simp add: rbind_simps)
qed

lemma does_ensure:
  assumes "reps sha m0 m V" "V x = None" "in_space sha x" "kl_type (nf_keylet sha x) \<noteq> ltACCOUNT_ROOT"
    "\<And>m'. reps sha m0 m' (V(x \<mapsto> obj)) \<Longrightarrow> does (g m') Q"
  shows "does (rbind (if peek (nf_keylet sha x) m = None then insert_sle (nf_keylet sha x) obj m else Inr m) g) Q"
  using does_insert [OF assms] assms(2) by (simp add: reps_peek [OF assms(1)])

lemma not_account [simp]:
  "kl_type (nf_keylet sha x) \<noteq> ltACCOUNT_ROOT \<longleftrightarrow> (\<forall>w. x \<noteq> nAccount w)"
  by (cases x) (simp_all add: nf_keylet_defs lt_codes)

end
