(* ===== verification/NFSpec.thy ===== *)
theory NFSpec
  imports Enumeration
begin

text \<open>
  What the transactions on assets and tokens are meant to do, without ledger entries: three
  enumerations (the tokens of an asset, the tokens of an owner within an asset, the assets of an
  account) and the issuer of every asset. The operations here are the specification that the
  transactors of \<open>NFAsset\<close> and \<open>NFToken\<close> implement (theory \<open>NFLedger\<close>), and \<open>nf_ok\<close> is its
  invariant: the owners of an asset are its issuer and the holders of its tokens.
\<close>

record Registry =
  tokens_of :: "(nat, nat) Enum"
  owned :: "(nat \<times> int, nat) Enum"
  assets_of :: "(int, nat \<times> int) Enum"
  issuer_of :: "nat \<rightharpoonup> int"

definition is_owner :: "Registry \<Rightarrow> nat \<Rightarrow> int \<Rightarrow> bool" where
  "is_owner L a w \<longleftrightarrow> e_pos (assets_of L) (a, w) \<noteq> None"

definition nf_ok :: "Registry \<Rightarrow> bool" where
  "nf_ok L \<longleftrightarrow> enum_ok (tokens_of L) \<and> enum_ok (owned L) \<and> enum_ok (assets_of L) \<and>
     (\<forall>a w. is_owner L a w \<longleftrightarrow> issuer_of L a = Some w \<or> 0 < e_count (owned L) (a, w))"

subsection \<open>Operations\<close>

definition add_owner :: "nat \<Rightarrow> int \<Rightarrow> Registry \<Rightarrow> Registry" where
  "add_owner a w L =
     (if is_owner L a w then L else L\<lparr>assets_of := enum_push w (a, w) (assets_of L)\<rparr>)"

definition drop_owner :: "nat \<Rightarrow> int \<Rightarrow> Registry \<Rightarrow> Registry" where
  "drop_owner a w L =
     L\<lparr>assets_of := enum_remove w (snd (the (e_pos (assets_of L) (a, w)))) (a, w) (assets_of L)\<rparr>"

definition give_token :: "nat \<Rightarrow> int \<Rightarrow> nat \<Rightarrow> Registry \<Rightarrow> Registry" where
  "give_token a w t L = (add_owner a w L)\<lparr>owned := enum_push (a, w) t (owned L)\<rparr>"

text \<open>Taking a token from its holder, who leaves the owners with the last token unless issuer.\<close>

definition take_token :: "nat \<Rightarrow> int \<Rightarrow> nat \<Rightarrow> Registry \<Rightarrow> Registry" where
  "take_token a w t L =
     (let L' = L\<lparr>owned := enum_remove (a, w) (snd (the (e_pos (owned L) t))) t (owned L)\<rparr> in
      if e_count (owned L) (a, w) \<noteq> 1 \<or> issuer_of L a = Some w then L' else drop_owner a w L')"

definition create_asset :: "nat \<Rightarrow> int \<Rightarrow> Registry \<Rightarrow> Registry" where
  "create_asset a w L = (add_owner a w L)\<lparr>issuer_of := (issuer_of L)(a \<mapsto> w)\<rparr>"

definition destroy_asset :: "nat \<Rightarrow> int \<Rightarrow> Registry \<Rightarrow> Registry" where
  "destroy_asset a w L = (drop_owner a w L)\<lparr>issuer_of := (issuer_of L)(a := None)\<rparr>"

definition create_token :: "nat \<Rightarrow> int \<Rightarrow> nat \<Rightarrow> Registry \<Rightarrow> Registry" where
  "create_token a w t L = (give_token a w t L)\<lparr>tokens_of := enum_push a t (tokens_of L)\<rparr>"

definition destroy_token :: "nat \<Rightarrow> int \<Rightarrow> nat \<Rightarrow> Registry \<Rightarrow> Registry" where
  "destroy_token a w t L =
     (take_token a w t L)\<lparr>tokens_of := enum_remove a (snd (the (e_pos (tokens_of L) t))) t (tokens_of L)\<rparr>"

definition transfer_token :: "nat \<Rightarrow> int \<Rightarrow> nat \<Rightarrow> int \<Rightarrow> Registry \<Rightarrow> Registry" where
  "transfer_token a w t dest L = give_token a dest t (take_token a w t L)"

subsection \<open>The invariant\<close>

lemma nf_okD:
  assumes "nf_ok L"
  shows "enum_ok (tokens_of L)" "enum_ok (owned L)" "enum_ok (assets_of L)"
    "is_owner L a w \<longleftrightarrow> issuer_of L a = Some w \<or> 0 < e_count (owned L) (a, w)"
  using assms unfolding nf_ok_def by blast+

lemma enum_remove_pos:
  assumes "enum_ok e" "e_pos e x = Some (c, i)"
  shows "map_option fst (e_pos (enum_remove c i x e) z) = (if z = x then None else map_option fst (e_pos e z))"
proof -
  obtain y where "e_at e c (e_count e c - 1) = Some y" "e_pos e y = Some (c, e_count e c - 1)"
    "y = x \<longleftrightarrow> i = e_count e c - 1" using enum_last [OF assms] .
  then show ?thesis using assms(2) by (auto simp: enum_remove_def Let_def)
qed

lemma is_owner_push: "is_owner (L\<lparr>assets_of := enum_push w (a, w) e\<rparr>) b v \<longleftrightarrow>
    (b = a \<and> v = w) \<or> e_pos e (b, v) \<noteq> None"
  by (auto simp: is_owner_def enum_push_def)

lemma add_owner_ok:
  "enum_ok (assets_of L) \<Longrightarrow> enum_ok (assets_of (add_owner a w L))"
  "is_owner (add_owner a w L) b v \<longleftrightarrow> (b = a \<and> v = w) \<or> is_owner L b v"
proof -
  show "enum_ok (assets_of L) \<Longrightarrow> enum_ok (assets_of (add_owner a w L))"
    by (simp add: add_owner_def is_owner_def enum_push_ok del: not_None_eq)
  show "is_owner (add_owner a w L) b v \<longleftrightarrow> (b = a \<and> v = w) \<or> is_owner L b v"
    unfolding add_owner_def using is_owner_push [where L = L and e = "assets_of L"] by (auto simp: is_owner_def)
qed

lemma drop_owner_ok:
  assumes "enum_ok (assets_of L)" "e_pos (assets_of L) (a, w) = Some (w, i)"
  shows "enum_ok (assets_of (drop_owner a w L))"
    "is_owner (drop_owner a w L) b v \<longleftrightarrow> (b, v) \<noteq> (a, w) \<and> is_owner L b v"
proof -
  show "enum_ok (assets_of (drop_owner a w L))" using enum_remove_ok [OF assms] assms(2) by (simp add: drop_owner_def)
  have "map_option fst (e_pos (enum_remove w i (a, w) (assets_of L)) (b, v)) =
      (if (b, v) = (a, w) then None else map_option fst (e_pos (assets_of L) (b, v)))"
    by (rule enum_remove_pos [OF assms])
  then have "map_option fst (e_pos (enum_remove w i (a, w) (assets_of L)) (b, v)) = None \<longleftrightarrow>
      (b, v) = (a, w) \<or> e_pos (assets_of L) (b, v) = None" by (simp only: map_option_is_None split: if_split) blast
  then show "is_owner (drop_owner a w L) b v \<longleftrightarrow> (b, v) \<noteq> (a, w) \<and> is_owner L b v"
    using assms(2) by (simp add: drop_owner_def is_owner_def)
qed

lemma owner_selectors [simp]:
  "tokens_of (add_owner a w L) = tokens_of L" "owned (add_owner a w L) = owned L"
  "issuer_of (add_owner a w L) = issuer_of L" "tokens_of (drop_owner a w L) = tokens_of L"
  "owned (drop_owner a w L) = owned L" "issuer_of (drop_owner a w L) = issuer_of L"
  "is_owner (L\<lparr>owned := e\<rparr>) b v = is_owner L b v" "is_owner (L\<lparr>issuer_of := f\<rparr>) b v = is_owner L b v"
  "is_owner (L\<lparr>tokens_of := g\<rparr>) b v = is_owner L b v"
  by (simp_all add: add_owner_def drop_owner_def is_owner_def)

lemma count_push: "enum_ok e \<Longrightarrow> 0 < e_count (enum_push c x e) d \<longleftrightarrow> d = c \<or> 0 < e_count e d"
  using enum_okD(3) [of e c] by (auto simp: enum_push_def)

lemma count_remove: "e_count (enum_remove c i x e) d = (if d = c then e_count e c - 1 else e_count e d)"
  by (simp add: enum_remove_def Let_def)

lemma give_token_ok: "nf_ok L \<Longrightarrow> e_pos (owned L) t = None \<Longrightarrow> nf_ok (give_token a w t L)"
  unfolding nf_ok_def give_token_def
  by (simp add: add_owner_ok enum_push_ok count_push) blast

text \<open>Where a token is in its two enumerations, and that an owner's assets are listed under the owner.\<close>

definition nf_linked :: "Registry \<Rightarrow> bool" where
  "nf_linked L \<longleftrightarrow> (\<forall>t. map_option (fst \<circ> fst) (e_pos (owned L) t) = map_option fst (e_pos (tokens_of L) t)) \<and>
     (\<forall>a w c i. e_pos (assets_of L) (a, w) = Some (c, i) \<longrightarrow> c = w) \<and>
     (\<forall>a. issuer_of L a = None \<longrightarrow> e_count (tokens_of L) a = 0)"

lemma owner_place: "nf_linked L \<Longrightarrow> is_owner L a w \<Longrightarrow> \<exists>i. e_pos (assets_of L) (a, w) = Some (w, i)"
  unfolding nf_linked_def is_owner_def by fastforce

lemma take_token_ok:
  assumes ok: "nf_ok L" "nf_linked L" and t: "e_pos (owned L) t = Some ((a, w), j)"
  shows "nf_ok (take_token a w t L)" "e_pos (owned (take_token a w t L)) t = None"
proof -
  note d = nf_okD [OF ok(1)]
  let ?e = "enum_remove (a, w) j t (owned L)"
  have e: "enum_ok ?e" by (rule enum_remove_ok [OF d(2) t])
  have "e_at (owned L) (a, w) j = Some t" using enum_okD(1) [OF d(2)] t by blast
  then have n: "0 < e_count (owned L) (a, w)" using enum_okD(2) [OF d(2), of "(a, w)" j] by simp
  then have "is_owner L a w" using d(4) by blast
  then obtain i where i: "e_pos (assets_of (L\<lparr>owned := ?e\<rparr>)) (a, w) = Some (w, i)"
    using owner_place [OF ok(2)] by auto
  have a: "enum_ok (assets_of (L\<lparr>owned := ?e\<rparr>))" using d(3) by simp
  note dr = drop_owner_ok [OF a i]
  show "nf_ok (take_token a w t L)"
  proof (cases "e_count (owned L) (a, w) \<noteq> 1 \<or> issuer_of L a = Some w")
    case True
    then show ?thesis using d n t e unfolding nf_ok_def take_token_def by (auto simp: count_remove)
  next
    case False
    then show ?thesis using d n t e dr unfolding nf_ok_def take_token_def by (auto simp: count_remove)
  qed
  have "map_option fst (e_pos ?e t) = None" by (simp add: enum_remove_pos [OF d(2) t])
  then show "e_pos (owned (take_token a w t L)) t = None" using t by (simp add: take_token_def Let_def)
qed

lemma tokens_only: "nf_ok L \<Longrightarrow> enum_ok e \<Longrightarrow> nf_ok (L\<lparr>tokens_of := e\<rparr>)"
  by (simp add: nf_ok_def)

lemma create_token_ok:
  "nf_ok L \<Longrightarrow> e_pos (owned L) t = None \<Longrightarrow> e_pos (tokens_of L) t = None \<Longrightarrow> nf_ok (create_token a w t L)"
  unfolding create_token_def by (intro tokens_only give_token_ok enum_push_ok) (simp_all add: nf_ok_def)

lemma destroy_token_ok:
  assumes "nf_ok L" "nf_linked L" "e_pos (owned L) t = Some ((a, w), j)" "e_pos (tokens_of L) t = Some (a, i)"
  shows "nf_ok (destroy_token a w t L)"
  unfolding destroy_token_def
  using take_token_ok(1) [OF assms(1-3)] enum_remove_ok [OF nf_okD(1) [OF assms(1)] assms(4)] assms(4)
  by (intro tokens_only) simp_all

lemma transfer_token_ok:
  assumes "nf_ok L" "nf_linked L" "e_pos (owned L) t = Some ((a, w), j)"
  shows "nf_ok (transfer_token a w t dest L)"
  unfolding transfer_token_def using take_token_ok [OF assms] by (intro give_token_ok)

text \<open>Nobody holds tokens of an asset that has none.\<close>

lemma no_holders:
  assumes ok: "nf_ok L" "nf_linked L" and z: "e_count (tokens_of L) a = 0"
  shows "e_count (owned L) (a, w) = 0"
proof (rule ccontr)
  note d = nf_okD [OF ok(1)]
  assume "e_count (owned L) (a, w) \<noteq> 0"
  then have "0 < e_count (owned L) (a, w)" using enum_okD(3) [OF d(2), of "(a, w)"] by simp
  then obtain t where "e_at (owned L) (a, w) 0 = Some t" using enum_okD(2) [OF d(2), of "(a, w)" 0] by auto
  then have "e_pos (owned L) t = Some ((a, w), 0)" using enum_okD(1) [OF d(2)] by blast
  then have "map_option fst (e_pos (tokens_of L) t) = Some a" using ok(2) unfolding nf_linked_def by (metis comp_apply fst_conv option.simps(9))
  then obtain i where "e_pos (tokens_of L) t = Some (a, i)" by auto
  then have "e_at (tokens_of L) a i = Some t" using enum_okD(1) [OF d(1)] by blast
  then show False using enum_okD(2) [OF d(1), of a i] z by auto
qed

lemma create_asset_ok:
  assumes "nf_ok L" "nf_linked L" "issuer_of L a = None"
  shows "nf_ok (create_asset a w L)" "\<not> is_owner L a v"
proof -
  have z: "e_count (owned L) (a, u) = 0" for u using assms no_holders [OF assms(1,2)] by (simp add: nf_linked_def)
  show "\<not> is_owner L a v" using nf_okD(4) [OF assms(1)] z assms(3) by simp
  show "nf_ok (create_asset a w L)"
    using assms z unfolding nf_ok_def create_asset_def by (simp add: add_owner_ok) auto
qed

lemma destroy_asset_ok:
  assumes "nf_ok L" "nf_linked L" "issuer_of L a = Some w" "e_count (tokens_of L) a = 0"
  shows "nf_ok (destroy_asset a w L)"
proof -
  note d = nf_okD [OF assms(1)]
  have z: "e_count (owned L) (a, u) = 0" for u using no_holders [OF assms(1,2,4)] .
  have "is_owner L a w" using d(4) assms(3) by simp
  then obtain i where "e_pos (assets_of L) (a, w) = Some (w, i)" using owner_place [OF assms(2)] by blast
  note dr = drop_owner_ok [OF d(3) this]
  show ?thesis using d dr z assms(3) unfolding nf_ok_def destroy_asset_def by auto
qed

end
