(* ===== verification/NFLedger.thy ===== *)
theory NFLedger
  imports NFView NFSpec
begin

text \<open>
  The transactors on assets and tokens implement the specification of \<open>NFSpec\<close>: \<open>registry\<close> reads
  the enumerations off a view, and for every transactor there is a lemma that it returns, never
  finds the ledger inconsistent (\<^verbatim>\<open>tefINTERNAL\<close>), and on success leaves the specified registry.
\<close>

subsection \<open>The enumerations of a view\<close>

definition u64_of :: "SField \<Rightarrow> STObject option \<Rightarrow> int" where
  "u64_of f v = (case v of None \<Rightarrow> 0 | Some obj \<Rightarrow> getFieldU64 f obj)"

definition registry :: "(NFEntry \<Rightarrow> STObject option) \<Rightarrow> Registry" where
  "registry V =
     \<lparr>tokens_of =
        \<lparr>e_count = \<lambda>a. u64_of sfTokenNumber (V (nAsset a)),
         e_at = \<lambda>a i. map_option (getFieldH256 sfTokenID) (V (nIndex a i)),
         e_pos = \<lambda>t. map_option (\<lambda>obj. (getFieldH256 sfAssetID obj, getFieldU64 sfTokenIndex obj)) (V (nToken t))\<rparr>,
      owned =
        \<lparr>e_count = \<lambda>(a, w). u64_of sfTokenNumber (V (nOwner a w)),
         e_at = \<lambda>(a, w) i. map_option (getFieldH256 sfTokenID) (V (nOwnerIndex a w i)),
         e_pos = \<lambda>t. map_option (\<lambda>obj. ((getFieldH256 sfAssetID obj, getAccountID sfOwner obj),
                                       getFieldU64 sfOwnerTokenIndex obj)) (V (nToken t))\<rparr>,
      assets_of =
        \<lparr>e_count = \<lambda>w. u64_of sfAssetNumber (V (nAccount w)),
         e_at = \<lambda>w i. map_option (\<lambda>obj. (getFieldH256 sfAssetID obj, w)) (V (nAssetIndex w i)),
         e_pos = \<lambda>(a, w). map_option (\<lambda>obj. (w, getFieldU64 sfAssetIndex obj)) (V (nOwner a w))\<rparr>,
      issuer_of = \<lambda>a. map_option (getAccountID sfIssuer) (V (nAsset a))\<rparr>"

text \<open>Owner entries have an index, and the memos of tokens can be serialized.\<close>

definition short_memos :: "Memo list \<Rightarrow> bool" where
  "short_memos ms \<longleftrightarrow> (\<forall>memo \<in> set ms. \<forall>b. b \<in> set_option (MemoType memo) \<union> set_option (MemoData memo) \<union>
     set_option (MemoFormat memo) \<longrightarrow> length b \<le> 918744)"

definition nf_typed :: "(NFEntry \<Rightarrow> STObject option) \<Rightarrow> bool" where
  "nf_typed V \<longleftrightarrow> (\<forall>a w obj. V (nOwner a w) = Some obj \<longrightarrow> isFieldPresent sfAssetIndex obj) \<and>
     (\<forall>t obj. V (nToken t) = Some obj \<longrightarrow> short_memos (getFieldArray sfMemos obj))"

text \<open>No counter has reached its maximum.\<close>

definition nf_room :: "Registry \<Rightarrow> bool" where
  "nf_room L \<longleftrightarrow> (\<forall>a. e_count (tokens_of L) a < 2 ^ 64 - 1) \<and> (\<forall>c. e_count (owned L) c < 2 ^ 64 - 1) \<and>
     (\<forall>w. e_count (assets_of L) w < 2 ^ 64 - 1)"

lemma u64_of_simps [simp]: "u64_of f None = 0" "u64_of f (Some obj) = getFieldU64 f obj"
  by (simp_all add: u64_of_def)

lemma registry_linked: "nf_linked (registry V)"
proof -
  have "map_option (fst \<circ> fst) (e_pos (owned (registry V)) t) = map_option fst (e_pos (tokens_of (registry V)) t)" for t
    by (cases "V (nToken t)") (simp_all add: registry_def)
  moreover have "e_pos (assets_of (registry V)) (a, w) = Some (c, i) \<Longrightarrow> c = w" for a w c i by (auto simp: registry_def)
  moreover have "issuer_of (registry V) a = None \<Longrightarrow> e_count (tokens_of (registry V)) a = 0" for a
    by (auto simp: registry_def)
  ultimately show ?thesis unfolding nf_linked_def by blast
qed

text \<open>Lookups in a view of a consistent registry.\<close>

lemma registry_owner: "is_owner (registry V) a w \<longleftrightarrow> V (nOwner a w) \<noteq> None"
  by (simp add: is_owner_def registry_def)

lemma registry_index:
  assumes "nf_ok (registry V)"
  shows "V (nIndex a i) = None \<longleftrightarrow> \<not> (0 \<le> i \<and> i < u64_of sfTokenNumber (V (nAsset a)))"
    "V (nOwnerIndex a w i) = None \<longleftrightarrow> \<not> (0 \<le> i \<and> i < u64_of sfTokenNumber (V (nOwner a w)))"
    "V (nAssetIndex w i) = None \<longleftrightarrow> \<not> (0 \<le> i \<and> i < u64_of sfAssetNumber (V (nAccount w)))"
  using enum_at_None [OF nf_okD(1) [OF assms], of a i] enum_at_None [OF nf_okD(2) [OF assms], of "(a, w)" i]
    enum_at_None [OF nf_okD(3) [OF assms], of w i]
  by (simp_all add: registry_def)


subsection \<open>Owners\<close>

declare nf_keylet.simps [simp del]

text \<open>Views that differ only in what the assets of accounts concern.\<close>

definition side :: "(NFEntry \<Rightarrow> STObject option) \<Rightarrow> (NFEntry \<Rightarrow> STObject option) \<Rightarrow> bool" where
  "side V V' \<longleftrightarrow> (\<forall>a. V' (nAsset a) = V (nAsset a)) \<and> (\<forall>t. V' (nToken t) = V (nToken t)) \<and>
     (\<forall>a i. V' (nIndex a i) = V (nIndex a i)) \<and> (\<forall>a w i. V' (nOwnerIndex a w i) = V (nOwnerIndex a w i)) \<and>
     (\<forall>w. V' (nAccount w) = None \<longleftrightarrow> V (nAccount w) = None)"

lemma sideD:
  assumes "side V V'"
  shows "V' (nAsset a) = V (nAsset a)" "V' (nToken t) = V (nToken t)" "V' (nIndex a i) = V (nIndex a i)"
    "V' (nOwnerIndex a w i) = V (nOwnerIndex a w i)" "V' (nAccount w) = None \<longleftrightarrow> V (nAccount w) = None"
  using assms unfolding side_def by blast+

text \<open>Getters after setters.\<close>

lemma get_set [simp]:
  "getFieldU32 f (setFieldU32 g v obj) = (if f = g then v else getFieldU32 f obj)"
  "getFieldU32 f (setFieldU64 g v obj) = getFieldU32 f obj"
  "getFieldU32 f (setFieldH256 g h obj) = getFieldU32 f obj"
  "getFieldU32 f (setAccountID g v obj) = getFieldU32 f obj"
  "getFieldU32 f (setFieldVL g b obj) = getFieldU32 f obj"
  "getFieldU32 f (setFieldArray g ms obj) = getFieldU32 f obj"
  "getFieldU32 f no_fields = 0"
  "getFieldU32 f (makeFieldAbsent g obj) = (if f = g \<and> fieldType g = STI_UINT32 then 0 else getFieldU32 f obj)"
  "getFieldU64 f (setFieldU32 g v obj) = getFieldU64 f obj"
  "getFieldU64 f (setFieldU64 g v obj) = (if f = g then v else getFieldU64 f obj)"
  "getFieldU64 f (setFieldH256 g h obj) = getFieldU64 f obj"
  "getFieldU64 f (setAccountID g v obj) = getFieldU64 f obj"
  "getFieldU64 f (setFieldVL g b obj) = getFieldU64 f obj"
  "getFieldU64 f (setFieldArray g ms obj) = getFieldU64 f obj"
  "getFieldU64 f no_fields = 0"
  "getFieldU64 f (makeFieldAbsent g obj) = (if f = g \<and> fieldType g = STI_UINT64 then 0 else getFieldU64 f obj)"
  "getFieldH256 f (setFieldU32 g v obj) = getFieldH256 f obj"
  "getFieldH256 f (setFieldU64 g v obj) = getFieldH256 f obj"
  "getFieldH256 f (setFieldH256 g h obj) = (if f = g then h else getFieldH256 f obj)"
  "getFieldH256 f (setAccountID g v obj) = getFieldH256 f obj"
  "getFieldH256 f (setFieldVL g b obj) = getFieldH256 f obj"
  "getFieldH256 f (setFieldArray g ms obj) = getFieldH256 f obj"
  "getFieldH256 f no_fields = 0"
  "getFieldH256 f (makeFieldAbsent g obj) = (if f = g \<and> fieldType g = STI_HASH256 then 0 else getFieldH256 f obj)"
  "getAccountID f (setFieldU32 g v obj) = getAccountID f obj"
  "getAccountID f (setFieldU64 g v obj) = getAccountID f obj"
  "getAccountID f (setFieldH256 g h obj) = getAccountID f obj"
  "getAccountID f (setAccountID g v obj) = (if f = g then v else getAccountID f obj)"
  "getAccountID f (setFieldVL g b obj) = getAccountID f obj"
  "getAccountID f (setFieldArray g ms obj) = getAccountID f obj"
  "getAccountID f no_fields = 0"
  "getAccountID f (makeFieldAbsent g obj) = (if f = g \<and> fieldType g = STI_ACCOUNT then 0 else getAccountID f obj)"
  "getFieldArray f (setFieldU32 g v obj) = getFieldArray f obj"
  "getFieldArray f (setFieldU64 g v obj) = getFieldArray f obj"
  "getFieldArray f (setFieldH256 g h obj) = getFieldArray f obj"
  "getFieldArray f (setAccountID g v obj) = getFieldArray f obj"
  "getFieldArray f (setFieldVL g b obj) = getFieldArray f obj"
  "getFieldArray f (setFieldArray g ms obj) = (if f = g then ms else getFieldArray f obj)"
  "getFieldArray f no_fields = []"
  "getFieldArray f (makeFieldAbsent g obj) = (if f = g \<and> fieldType g = STI_ARRAY \<and> \<not> signerArray g then [] else getFieldArray f obj)"
  "isFieldPresent sfAssetIndex (setFieldU64 g v obj) \<longleftrightarrow> g = sfAssetIndex \<or> isFieldPresent sfAssetIndex obj"
  by (auto simp: st_fields split: SerializedTypeID.splits)

lemma u64_small: "0 \<le> x \<Longrightarrow> x < 2 ^ 64 \<Longrightarrow> u64 x = x"
  by (simp add: u64_def)

lemma addAssetOwner_does:
  assumes r: "reps sha m0 m V" and ok: "enum_ok (assets_of (registry V))" and t: "nf_typed V"
    and w: "V (nAccount w) \<noteq> None" "V (nOwner a w) = None" and n: "u64_of sfAssetNumber (V (nAccount w)) < 2 ^ 64 - 1"
  shows "does (addAssetOwner sha w a m) (\<lambda>m'. \<exists>V'. reps sha m0 m' V' \<and> side V V' \<and> nf_typed V' \<and>
    V' (nOwner a w) \<noteq> None \<and> registry V' = (registry V)\<lparr>assets_of := enum_push w (a, w) (assets_of (registry V))\<rparr>)"
proof -
  obtain acct where acct: "V (nAccount w) = Some acct" using w(1) by blast
  let ?n = "getFieldU64 sfAssetNumber acct"
  have nn: "0 \<le> ?n" using enum_okD(3) [OF ok, of w] acct by (simp add: registry_def)
  have i: "V (nAssetIndex w ?n) = None"
    using enum_at_None [OF ok, of w ?n] acct by (simp add: registry_def)
  let ?o = "setFieldU64 sfAssetIndex ?n (setFieldU64 sfTokenNumber 0 no_fields)"
  let ?V = "V(nAccount w \<mapsto> setFieldU64 sfAssetNumber (?n + 1) acct, nAssetIndex w ?n \<mapsto> setFieldH256 sfAssetID a no_fields,
    nOwner a w \<mapsto> ?o)"
  have u: "u64 (?n + 1) = ?n + 1" using nn n acct by (intro u64_small) simp_all
  have V: "side V ?V" "nf_typed ?V" using t w acct by (auto simp: side_def nf_typed_def)
  have reg: "registry ?V = (registry V)\<lparr>assets_of := enum_push w (a, w) (assets_of (registry V))\<rparr>"
    using w acct by (simp add: registry_def enum_push_def) (auto simp: fun_eq_iff)
  show ?thesis
    unfolding addAssetOwner_def nf_keylets reps_peek [OF r] acct option.case Let_def u
    by (rule does_update [OF r], simp add: acct, simp, rule does_ensure, assumption, simp add: i, simp, simp,
        rule does_update, assumption, simp, simp, rule does_tail, rule does_insert, assumption, simp add: w, simp, simp)
      (use V reg acct in \<open>auto intro!: exI [of _ ?V]\<close>)
qed


text \<open>What remains of a view after counting a token for an owner, or one less.\<close>

definition counted ::
    "(NFEntry \<Rightarrow> STObject option) \<Rightarrow> (NFEntry \<Rightarrow> STObject option) \<Rightarrow> nat \<Rightarrow> int \<Rightarrow> int \<Rightarrow> (int, nat \<times> int) Enum \<Rightarrow> bool" where
  "counted V V' a w n as \<longleftrightarrow> side V V' \<and> nf_typed V' \<and> assets_of (registry V') = as \<and>
     e_count (owned (registry V')) = (e_count (owned (registry V)))((a, w) := n)"

lemma counted_upd:
  assumes "V (nOwner a w) \<noteq> None" "nf_typed V"
  shows "counted V (V(nOwner a w \<mapsto> setFieldU64 sfTokenNumber n (the (V (nOwner a w))))) a w n (assets_of (registry V))"
  using assms by (simp add: counted_def side_def nf_typed_def registry_def) (auto simp: fun_eq_iff)

lemma counted_trans:
  assumes "side V V1" "e_count (owned (registry V1)) = (e_count (owned (registry V)))((a, w) := k)" "counted V1 V' a w n as"
  shows "counted V V' a w n as"
  using assms by (simp add: counted_def side_def)

lemma countOwnerToken_does:
  assumes r: "reps sha m0 m V" and ok: "enum_ok (assets_of (registry V))" and t: "nf_typed V"
    and w: "V (nAccount w) \<noteq> None" and n: "u64_of sfAssetNumber (V (nAccount w)) < 2 ^ 64 - 1"
    and c: "0 \<le> e_count (owned (registry V)) (a, w)" "e_count (owned (registry V)) (a, w) < 2 ^ 64 - 1"
  shows "does (countOwnerToken sha a w m) (\<lambda>(k, m'). k = e_count (owned (registry V)) (a, w) \<and> (\<exists>V'. reps sha m0 m' V' \<and>
    counted V V' a w (k + 1) (assets_of (add_owner a w (registry V)))))"
proof (cases "V (nOwner a w)")
  case None
  let ?L = "(registry V)\<lparr>assets_of := enum_push w (a, w) (assets_of (registry V))\<rparr>"
  have z: "e_count (owned (registry V)) (a, w) = 0" using None by (simp add: registry_def)
  have L: "assets_of (add_owner a w (registry V)) = assets_of ?L"
    using None by (simp add: add_owner_def registry_owner)
  have u: "u64 (0 + 1) = 1" by (simp add: u64_def)
  show ?thesis
    unfolding countOwnerToken_def nf_keylets Let_def reps_peek [OF r] None option.case z L
  proof (rule does_bind, rule does_bind, rule addAssetOwner_does [OF r ok t w None n])
    fix m1
    assume "\<exists>V'. reps sha m0 m1 V' \<and> side V V' \<and> nf_typed V' \<and> V' (nOwner a w) \<noteq> None \<and> registry V' = ?L"
    then show "does (Inr (0 :: int, m1)) (\<lambda>(k, m1). k = 0 \<and> (\<exists>V1. reps sha m0 m1 V1 \<and> side V V1 \<and> nf_typed V1 \<and>
        V1 (nOwner a w) \<noteq> None \<and> registry V1 = ?L))" by simp
  next
    fix x :: "int \<times> State"
    assume "case x of (k, m1) \<Rightarrow> k = 0 \<and> (\<exists>V1. reps sha m0 m1 V1 \<and> side V V1 \<and> nf_typed V1 \<and>
        V1 (nOwner a w) \<noteq> None \<and> registry V1 = ?L)"
    then obtain m1 V1 where x: "x = (0, m1)" and r1: "reps sha m0 m1 V1" and s1: "side V V1" "nf_typed V1"
      "V1 (nOwner a w) \<noteq> None" "registry V1 = ?L" by auto
    have "counted V (V1(nOwner a w \<mapsto> setFieldU64 sfTokenNumber 1 (the (V1 (nOwner a w))))) a w 1 (assets_of ?L)"
      using counted_trans [OF s1(1) _ counted_upd [OF s1(3,2), of 1], of 0] s1(4) z by (simp add: fun_upd_idem)
    then show "does (case x of (ownerTokenNum, m) \<Rightarrow> rbind (update (nf_keylet sha (nOwner a w))
        (setFieldU64 sfTokenNumber (u64 (ownerTokenNum + 1))) m) (\<lambda>m. Inr (ownerTokenNum, m)))
      (\<lambda>(k, m'). k = 0 \<and> (\<exists>V'. reps sha m0 m' V' \<and> counted V V' a w (k + 1) (assets_of ?L)))"
      unfolding x prod.case u by (intro does_update [OF r1]) (use s1(3) in auto)
  qed
next
  case (Some obj)
  let ?n = "getFieldU64 sfTokenNumber obj"
  have L: "add_owner a w (registry V) = registry V" using Some by (simp add: add_owner_def registry_owner)
  have k: "e_count (owned (registry V)) (a, w) = ?n" using Some by (simp add: registry_def)
  have u: "u64 (?n + 1) = ?n + 1" using c k by (intro u64_small) simp_all
  have "counted V (V(nOwner a w \<mapsto> setFieldU64 sfTokenNumber (?n + 1) (the (V (nOwner a w))))) a w (?n + 1) (assets_of (registry V))"
    using counted_upd [OF _ t, of a w "?n + 1"] Some by simp
  then show ?thesis
    unfolding countOwnerToken_def nf_keylets Let_def reps_peek [OF r] Some option.case k L rbind_simps prod.case u
    by (intro does_update [OF r]) (use Some in auto)
qed


text \<open>An owner entry and the last asset of the owner, in a consistent enumeration.\<close>

lemma owner_entry:
  assumes ok: "enum_ok (assets_of (registry V))" and o: "V (nOwner a w) = Some obj"
  obtains acct lst where "V (nAccount w) = Some acct"
    "0 \<le> getFieldU64 sfAssetIndex obj" "getFieldU64 sfAssetIndex obj < getFieldU64 sfAssetNumber acct"
    "V (nAssetIndex w (getFieldU64 sfAssetIndex obj)) \<noteq> None"
    "V (nAssetIndex w (getFieldU64 sfAssetNumber acct - 1)) = Some lst"
    "V (nOwner (getFieldH256 sfAssetID lst) w) \<noteq> None"
    "getFieldH256 sfAssetID lst = a \<longleftrightarrow> getFieldU64 sfAssetIndex obj = getFieldU64 sfAssetNumber acct - 1"
proof -
  let ?e = "assets_of (registry V)" and ?i = "getFieldU64 sfAssetIndex obj"
  have "e_pos ?e (a, w) = Some (w, ?i)" using o by (simp add: registry_def)
  then have i: "e_at ?e w ?i = Some (a, w)" using enum_okD(1) [OF ok] by blast
  then have c: "0 \<le> ?i" "?i < e_count ?e w" using enum_okD(2) [OF ok, of w ?i] by simp_all
  then obtain acct where acct: "V (nAccount w) = Some acct" by (cases "V (nAccount w)") (auto simp: registry_def)
  let ?n = "getFieldU64 sfAssetNumber acct - 1"
  have n: "e_count ?e w = ?n + 1" using acct by (simp add: registry_def)
  then obtain y where y: "e_at ?e w ?n = Some y" using enum_okD(2) [OF ok, of w ?n] c by auto
  then obtain lst where l: "V (nAssetIndex w ?n) = Some lst" "y = (getFieldH256 sfAssetID lst, w)"
    by (auto simp: registry_def)
  have p: "e_pos ?e (getFieldH256 sfAssetID lst, w) = Some (w, ?n)" using enum_okD(1) [OF ok] y l(2) by blast
  show ?thesis
  proof (rule that [OF acct c(1) _ _ l(1)])
    show "getFieldH256 sfAssetID lst = a \<longleftrightarrow> ?i = ?n" using p y i l(2) o by (auto simp: registry_def)
  qed (use c(2) n i p in \<open>auto simp: registry_def\<close>)
qed

lemma removeAssetOwner_does:
  assumes r: "reps sha m0 m V" and ok: "enum_ok (assets_of (registry V))" and t: "nf_typed V"
    and o: "V (nOwner a w) = Some obj"
  shows "does (removeAssetOwner sha w (nf_keylet sha (nOwner a w)) obj m) (\<lambda>m'. \<exists>V'. reps sha m0 m' V' \<and>
    counted V V' a w 0 (assets_of (drop_owner a w (registry V))))"
proof -
  obtain acct lst where acct: "V (nAccount w) = Some acct"
    and i: "0 \<le> getFieldU64 sfAssetIndex obj" "getFieldU64 sfAssetIndex obj < getFieldU64 sfAssetNumber acct"
      "V (nAssetIndex w (getFieldU64 sfAssetIndex obj)) \<noteq> None"
    and l: "V (nAssetIndex w (getFieldU64 sfAssetNumber acct - 1)) = Some lst"
      "V (nOwner (getFieldH256 sfAssetID lst) w) \<noteq> None"
      "getFieldH256 sfAssetID lst = a \<longleftrightarrow> getFieldU64 sfAssetIndex obj = getFieldU64 sfAssetNumber acct - 1"
    using owner_entry [OF ok o] .
  let ?i = "getFieldU64 sfAssetIndex obj" and ?n = "getFieldU64 sfAssetNumber acct - 1" and ?b = "getFieldH256 sfAssetID lst"
  let ?V1 = "V(nOwner a w := None, nAccount w \<mapsto> setFieldU64 sfAssetNumber ?n acct)"
  let ?V2 = "?V1(nAssetIndex w ?n := None)"
  let ?V3 = "?V2(nAssetIndex w ?i \<mapsto> setFieldH256 sfAssetID ?b (the (V (nAssetIndex w ?i))),
    nOwner ?b w \<mapsto> setFieldU64 sfAssetIndex ?i (the (V (nOwner ?b w))))"
  have p: "isFieldPresent sfAssetIndex obj" using t o by (auto simp: nf_typed_def)
  have d: "assets_of (drop_owner a w (registry V)) = enum_remove w ?i (a, w) (assets_of (registry V))"
    using o by (simp add: drop_owner_def registry_def)
  have last: "the (e_at (assets_of (registry V)) w ?n) = (?b, w)" using l(1) by (simp add: registry_def)
  have cnt: "e_count (assets_of (registry V)) w - 1 = ?n" using acct by (simp add: registry_def)
  have V2: "counted V ?V2 a w 0 (assets_of (drop_owner a w (registry V)))" if "?i = ?n"
    unfolding d enum_remove_def Let_def cnt last using t acct that
    by (simp add: counted_def side_def nf_typed_def registry_def) (auto simp: fun_eq_iff)
  have V3: "counted V ?V3 a w 0 (assets_of (drop_owner a w (registry V)))" if "?i \<noteq> ?n"
    unfolding d enum_remove_def Let_def cnt last using t acct that l(2,3)
    by (simp add: counted_def side_def nf_typed_def registry_def) (auto simp: fun_eq_iff)
  have pos: "0 < getFieldU64 sfAssetNumber acct" using i by linarith
  obtain ii where ii: "V (nAssetIndex w ?i) = Some ii" using i(3) by blast
  show ?thesis
    unfolding removeAssetOwner_def nf_keylets
  proof (rule does_erase [OF r], simp add: o, simp, goal_cases)
    case (1 m1)
    have p1: "peek (nf_keylet sha (nAccount w)) m1 = Some acct" using reps_peek [OF 1] acct by simp
    show ?case unfolding p1 option.case Let_def if_P [OF pos]
    proof (rule does_update [OF 1], simp add: acct, simp, goal_cases)
      case (1 m2)
      then have r2: "reps sha m0 m2 ?V1" using acct by simp
      show ?case
      proof (cases "?i = ?n")
        case True
        have "does (erase (nf_keylet sha (nAssetIndex w ?n)) m2) (\<lambda>m'. reps sha m0 m' ?V2)"
          by (rule does_tail, rule does_erase [OF r2]) (simp_all add: l)
        with V2 [OF True] show ?thesis using True l(1) p by (simp add: reps_peek [OF r2] does_def) blast
      next
        case False
        have "does (rbind (erase (nf_keylet sha (nAssetIndex w ?n)) m2) (\<lambda>m.
            rbind (update (nf_keylet sha (nAssetIndex w ?i)) (setFieldH256 sfAssetID ?b) m) (\<lambda>m.
            if peek (nf_keylet sha (nOwner ?b w)) m = None then Inr m
            else update (nf_keylet sha (nOwner ?b w)) (setFieldU64 sfAssetIndex ?i) m))) (\<lambda>m'. reps sha m0 m' ?V3)"
        proof (rule does_erase [OF r2], simp add: l, simp, rule does_update, assumption, simp add: i False, simp, goal_cases)
          case (1 m3 m4)
          have n: "peek (nf_keylet sha (nOwner ?b w)) m4 \<noteq> None" using reps_peek [OF 1(2)] l(2,3) False by simp
          show ?case unfolding if_not_P [OF n]
            by (rule does_tail, rule does_update [OF 1(2)]) (use l(2,3) False in \<open>simp_all add: fun_upd_apply [of _ _ _ "nOwner a w"]\<close>)
        qed
        with V3 [OF False] show ?thesis using False ii p l(1) by (simp add: reps_peek [OF r2] does_def) blast
      qed
    qed
  qed
qed

lemma discountOwnerToken_does:
  assumes r: "reps sha m0 m V" and ok: "enum_ok (assets_of (registry V))" and t: "nf_typed V"
    and o: "V (nOwner a w) = Some obj"
  shows "does (discountOwnerToken sha a issuer w obj n m) (\<lambda>m'. \<exists>V'. reps sha m0 m' V' \<and> counted V V' a w n
    (if n \<noteq> 0 \<or> w = issuer then assets_of (registry V) else assets_of (drop_owner a w (registry V))))"
proof (cases "n \<noteq> 0 \<or> w = issuer")
  case True
  then show ?thesis
    unfolding discountOwnerToken_def nf_keylets if_P [OF True]
    by (intro does_tail [of "update _ _ _"] does_update [OF r])
      (use o counted_upd [OF _ t, of a w n] in auto)
next
  case False
  then show ?thesis
    unfolding discountOwnerToken_def nf_keylets if_not_P [OF False] using removeAssetOwner_does [OF r ok t o] by simp
qed


subsection \<open>Assets\<close>

text \<open>
  The outcome of a transactor: it never finds the ledger inconsistent, changes nothing unless it
  succeeds, and on success the registry is the specified one.
\<close>

definition handled :: "(HashArg list \<Rightarrow> nat) \<Rightarrow> State \<Rightarrow> Registry \<Rightarrow> TER \<times> State \<Rightarrow> bool" where
  "handled sha m L = (\<lambda>(ter, m'). ter \<noteq> tefINTERNAL \<and> (ter \<noteq> tesSUCCESS \<longrightarrow> m' = m) \<and>
     (\<exists>V'. reps sha m m' V' \<and> (ter = tesSUCCESS \<longrightarrow> nf_typed V' \<and> registry V' = L)))"

lemma handled_fail: "reps sha m m V \<Longrightarrow> ter \<noteq> tefINTERNAL \<Longrightarrow> ter \<noteq> tesSUCCESS \<Longrightarrow> handled sha m L (ter, m)"
  by (auto simp: handled_def)

lemma handled_success: "reps sha m m' V' \<Longrightarrow> nf_typed V' \<Longrightarrow> registry V' = L \<Longrightarrow> handled sha m L (tesSUCCESS, m')"
  by (auto simp: handled_def)

lemma key_of_id [simp]: "kl_key (nf_keylet sha (nAsset a)) = a" "kl_key (nf_keylet sha (nToken t)) = t"
  by (simp_all add: nf_keylet.simps nfasset_key_def nftoken_key_def)

text \<open>What a transactor starts from.\<close>

definition nf_start :: "(HashArg list \<Rightarrow> nat) \<Rightarrow> State \<Rightarrow> (NFEntry \<Rightarrow> STObject option) \<Rightarrow> bool" where
  "nf_start sha m V \<longleftrightarrow> reps sha m m V \<and> nf_typed V \<and> nf_ok (registry V) \<and> nf_room (registry V)"

lemma nf_startD:
  assumes "nf_start sha m V"
  shows "reps sha m m V" "nf_typed V" "nf_ok (registry V)" "nf_room (registry V)"
  using assms by (simp_all add: nf_start_def)

lemma nf_roomD:
  assumes "nf_room (registry V)"
  shows "u64_of sfTokenNumber (V (nAsset a)) < 2 ^ 64 - 1" "u64_of sfTokenNumber (V (nOwner a w)) < 2 ^ 64 - 1"
    "u64_of sfAssetNumber (V (nAccount w)) < 2 ^ 64 - 1" "e_count (owned (registry V)) (a, w) < 2 ^ 64 - 1"
  using assms by (auto simp: nf_room_def registry_def)

lemma CreateAsset_does:
  assumes s: "nf_start sha m V" and w: "V (nAccount (tx_account tx)) \<noteq> None"
  shows "does (CreateAsset_doApply sha tx m) (handled sha m
    (create_asset (getNFAssetIndex sha (tx_account tx) (getFieldVL sfIdent (tx_fields tx))) (tx_account tx) (registry V)))"
proof -
  note d = nf_startD [OF s]
  let ?w = "tx_account tx" and ?a = "getNFAssetIndex sha (tx_account tx) (getFieldVL sfIdent (tx_fields tx))"
  show ?thesis
  proof (cases "V (nAsset ?a)")
    case None
    have i: "issuer_of (registry V) ?a = None" using None by (simp add: registry_def)
    have no: "\<not> is_owner (registry V) ?a ?w" by (rule create_asset_ok(2) [OF d(3) registry_linked i])
    have own: "V (nOwner ?a ?w) = None" using no by (simp add: registry_owner)
    have reg: "registry (V(nAsset ?a \<mapsto> sle)) = (registry V)\<lparr>issuer_of := (issuer_of (registry V))(?a \<mapsto> ?w)\<rparr>"
      "nf_typed (V(nAsset ?a \<mapsto> sle))" if "getFieldU64 sfTokenNumber sle = 0" "getAccountID sfIssuer sle = ?w" for sle
      using None that d(2) by (auto simp: registry_def fun_eq_iff nf_typed_def)
    have step: "does (rbind (insert_sle (nf_keylet sha (nAsset ?a)) sle m) (\<lambda>m.
        rbind (addAssetOwner sha ?w ?a m) (\<lambda>m. Inr (tesSUCCESS, m)))) (handled sha m (create_asset ?a ?w (registry V)))"
      if sle: "getFieldU64 sfTokenNumber sle = 0" "getAccountID sfIssuer sle = ?w" for sle
    proof (rule does_insert [OF d(1)], simp add: None, simp, simp, rule does_bind, rule addAssetOwner_does, assumption, goal_cases)
      case (6 m1 m2)
      then obtain V' where V': "reps sha m m2 V'" "nf_typed V'"
        "registry V' = (registry (V(nAsset ?a \<mapsto> sle)))\<lparr>assets_of := enum_push ?w (?a, ?w) (assets_of (registry (V(nAsset ?a \<mapsto> sle))))\<rparr>"
        by blast
      then have "registry V' = create_asset ?a ?w (registry V)"
        using no by (simp add: reg [OF sle] create_asset_def add_owner_def)
      then show ?case using V' by (auto intro: handled_success)
    qed (use nf_okD(3) [OF d(3)] nf_roomD(3) [OF d(4)] own w reg [OF sle] in simp_all)
    show ?thesis
      unfolding CreateAsset_doApply_def Let_def nf_keylets reps_exists [OF d(1)] key_of_id
      by (simp only: None simp_thms if_False, rule step) simp_all
  next
    case (Some obj)
    then show ?thesis
      unfolding CreateAsset_doApply_def Let_def nf_keylets reps_exists [OF d(1)] by (simp add: handled_fail [OF d(1)])
  qed
qed


lemma registry_counted:
  assumes "counted V V' a w n as"
  shows "registry V' = (registry V)\<lparr>owned := (owned (registry V))\<lparr>e_count := (e_count (owned (registry V)))((a, w) := n)\<rparr>,
    assets_of := as\<rparr>"
proof -
  have c: "side V V'" "assets_of (registry V') = as" "e_count (owned (registry V')) = (e_count (owned (registry V)))((a, w) := n)"
    using assms by (simp_all add: counted_def)
  show ?thesis
  proof (rule Registry.equality)
    show "owned (registry V') = owned ((registry V)\<lparr>owned := (owned (registry V))\<lparr>e_count := (e_count (owned (registry V)))((a, w) := n)\<rparr>,
        assets_of := as\<rparr>)"
      by (rule Enum.equality) (use c in \<open>simp_all add: registry_def sideD [OF c(1)]\<close>)
  qed (use c in \<open>simp_all add: registry_def sideD [OF c(1)]\<close>)
qed

lemma countedD: "counted V V' a w n as \<Longrightarrow> side V V' \<and> nf_typed V'"
  by (simp add: counted_def)

lemma fun_upd_self: "f x = y \<Longrightarrow> f(x := y) = f"
  by auto

lemma DestroyAsset_does:
  assumes s: "nf_start sha m V" and a: "V (nAsset (getFieldH256 sfAssetID (tx_fields tx))) = Some obj"
    and w: "getAccountID sfIssuer obj = tx_account tx"
  shows "does (DestroyAsset_doApply sha tx m) (\<lambda>(ter, m'). (ter = tesSUCCESS \<longrightarrow> getFieldU64 sfTokenNumber obj = 0) \<and>
    handled sha m (destroy_asset (getFieldH256 sfAssetID (tx_fields tx)) (tx_account tx) (registry V)) (ter, m'))"
proof (cases "getFieldU64 sfTokenNumber obj > 0")
  case True
  note d = nf_startD [OF s]
  show ?thesis
    unfolding DestroyAsset_doApply_def Let_def nf_keylets nf_keylet_key [where sha = sha] reps_peek [OF d(1)] a option.case if_P [OF True]
    by (simp add: handled_fail [OF d(1)])
next
  case False
  note d = nf_startD [OF s]
  let ?w = "tx_account tx" and ?a = "getFieldH256 sfAssetID (tx_fields tx)"
  have z: "getFieldU64 sfTokenNumber obj = 0"
    using False enum_okD(3) [OF nf_okD(1) [OF d(3)], of ?a] a by (simp add: registry_def)
  have iss: "issuer_of (registry V) ?a = Some ?w" "e_count (tokens_of (registry V)) ?a = 0"
    using a w z by (simp_all add: registry_def)
  have c0: "e_count (owned (registry V)) (?a, ?w) = 0" by (rule no_holders [OF d(3) registry_linked iss(2)])
  have "is_owner (registry V) ?a ?w" using nf_okD(4) [OF d(3)] iss(1) by simp
  then obtain so where so: "V (nOwner ?a ?w) = Some so" by (auto simp: registry_owner)
  show ?thesis
    unfolding DestroyAsset_doApply_def Let_def nf_keylets nf_keylet_key [where sha = sha] reps_peek [OF d(1)] a option.case if_not_P [OF False] so
  proof (rule does_bind, rule removeAssetOwner_does [OF d(1) nf_okD(3) [OF d(3)] d(2) so], goal_cases)
    case (1 m1)
    then obtain V1 where r1: "reps sha m m1 V1" and c: "counted V V1 ?a ?w 0 (assets_of (drop_owner ?a ?w (registry V)))" by blast
    have "nf_typed (V1(nAsset ?a := None))" using countedD [OF c] by (auto simp: nf_typed_def)
    moreover have "registry (V1(nAsset ?a := None)) = (registry V1)\<lparr>issuer_of := (issuer_of (registry V1))(?a := None)\<rparr>"
      using sideD(1) [OF conjunct1 [OF countedD [OF c]], of ?a] a z by (simp add: registry_def) (auto simp: fun_eq_iff)
    then have "registry (V1(nAsset ?a := None)) = destroy_asset ?a ?w (registry V)"
      by (simp add: registry_counted [OF c] fun_upd_self [of "e_count _", OF c0] destroy_asset_def drop_owner_def)
    ultimately show ?case
      by (intro does_erase [OF r1]) (use sideD(1) [OF conjunct1 [OF countedD [OF c]], of ?a] a z in \<open>auto intro: handled_success\<close>)
  qed
qed

text \<open>Changes of an asset or token that the registry does not depend on.\<close>

lemma registry_asset: "V (nAsset a) = Some obj \<Longrightarrow> f_u64 obj' = f_u64 obj \<Longrightarrow> f_account obj' = f_account obj \<Longrightarrow>
    registry (V(nAsset a \<mapsto> obj')) = registry V"
  by (simp add: registry_def getFieldU64_def getAccountID_def fun_eq_iff)

lemma registry_token: "V (nToken t) = Some obj \<Longrightarrow> f_u64 obj' = f_u64 obj \<Longrightarrow> f_h256 obj' = f_h256 obj \<Longrightarrow>
    getAccountID sfOwner obj' = getAccountID sfOwner obj \<Longrightarrow> registry (V(nToken t \<mapsto> obj')) = registry V"
  by (simp add: registry_def getFieldU64_def getFieldH256_def fun_eq_iff)

lemma registry_auth: "registry (V(nAuth a w d := v)) = registry V"
  by (simp add: registry_def)


lemma ApproveAsset_does:
  assumes s: "nf_start sha m V"
  shows "does (ApproveAsset_doApply sha tx m) (handled sha m (registry V))"
    "does (CancelApproveAsset_doApply sha tx m) (handled sha m (registry V))"
proof -
  note d = nf_startD [OF s]
  let ?x = "nAuth (getFieldH256 sfAssetID (tx_fields tx)) (tx_account tx) (getAccountID sfDestination (tx_fields tx))"
  have t: "nf_typed (V(?x := v))" for v using d(2) by (simp add: nf_typed_def)
  have fin: "handled sha m (registry V) (tesSUCCESS, m1)" if "reps sha m m1 (V(?x := v))" for m1 v
    using handled_success [OF that t] by (simp add: registry_auth)
  have same: "handled sha m (registry V) (tesSUCCESS, m)" using handled_success [OF d(1,2)] by simp
  show "does (ApproveAsset_doApply sha tx m) (handled sha m (registry V))"
    unfolding ApproveAsset_doApply_def assetAuthKey_def nf_keylets reps_peek [OF d(1)]
    by (cases "V ?x") (simp_all add: same, rule does_insert [OF d(1)], simp_all add: fin)
  show "does (CancelApproveAsset_doApply sha tx m) (handled sha m (registry V))"
    unfolding CancelApproveAsset_doApply_def assetAuthKey_def nf_keylets reps_peek [OF d(1)]
    by (cases "V ?x") (simp_all add: same, rule does_erase [OF d(1)], simp_all add: fin)
qed

text \<open>Writing to an asset or token without a change of the registry.\<close>

lemma neutral_asset:
  assumes s: "nf_start sha m V" and a: "V (nAsset a) = Some obj"
    and f: "\<And>obj. f_u64 (f obj) = f_u64 obj" "\<And>obj. f_account (f obj) = f_account obj"
  shows "does (rbind (update (nf_keylet sha (nAsset a)) f m) (\<lambda>m. Inr (tesSUCCESS, m))) (handled sha m (registry V))"
proof -
  note d = nf_startD [OF s]
  have "nf_typed (V(nAsset a \<mapsto> f obj))" using d(2) by (simp add: nf_typed_def)
  then show ?thesis
    by (intro does_update [OF d(1)]) (use a registry_asset [where V = V and a = a and obj' = "f obj", OF a f] in \<open>auto intro: handled_success\<close>)
qed

lemma neutral_token:
  assumes s: "nf_start sha m V" and t: "V (nToken t) = Some obj"
    and f: "f_u64 (f obj) = f_u64 obj" "f_h256 (f obj) = f_h256 obj" "getAccountID sfOwner (f obj) = getAccountID sfOwner obj"
      "short_memos (getFieldArray sfMemos (f obj))"
  shows "does (rbind (update (nf_keylet sha (nToken t)) f m) (\<lambda>m. Inr (tesSUCCESS, m))) (handled sha m (registry V))"
proof -
  note d = nf_startD [OF s]
  have "nf_typed (V(nToken t \<mapsto> f obj))" using d(2) f(4) by (auto simp: nf_typed_def)
  then show ?thesis
    by (intro does_update [OF d(1)]) (use t registry_token [where V = V and t = t and obj' = "f obj", OF t f(1-3)] in \<open>auto intro: handled_success\<close>)
qed

lemma SetAsset_does:
  assumes s: "nf_start sha m V" and a: "V (nAsset (getFieldH256 sfAssetID (tx_fields tx))) = Some obj"
  shows "does (SetAsset_doApply tx m) (handled sha m (registry V))"
proof -
  note d = nf_startD [OF s]
  have same: "handled sha m (registry V) (tesSUCCESS, m)" using handled_success [OF d(1,2)] by simp
  show ?thesis
    unfolding SetAsset_doApply_def Let_def nf_keylet_key [where sha = sha] reps_peek [OF d(1)] a option.case
    using neutral_asset [OF s a, of "setFieldU32 sfFlags _"]
    by (cases "SetAsset_flags (tx_fields tx) (getFieldU32 sfFlags obj)")
      (simp_all add: handled_fail [OF d(1)] same setFieldU32_def)
qed

subsection \<open>Tokens\<close>

lemma tokenKey: obtains t where "tokenKey sha tx = nf_keylet sha (nToken t)"
  unfolding tokenKey_def Let_def nf_keylets nf_keylet_key [where sha = sha] by (cases "isFieldPresent sfTokenID (tx_fields tx)") auto

lemma ApproveToken_does:
  assumes s: "nf_start sha m V"
  shows "does (ApproveToken_doApply sha tx m) (handled sha m (registry V))"
    "does (CancelApproveToken_doApply sha tx m) (handled sha m (registry V))"
proof -
  note d = nf_startD [OF s]
  obtain t where t: "tokenKey sha tx = nf_keylet sha (nToken t)" by (rule tokenKey)
  have same: "handled sha m (registry V) (tesSUCCESS, m)" using handled_success [OF d(1,2)] by simp
  have set: "does (rbind (update (nf_keylet sha (nToken t)) (setAccountID sfApproved a) m) (\<lambda>m. Inr (tesSUCCESS, m)))
      (handled sha m (registry V))"
    "does (rbind (update (nf_keylet sha (nToken t)) (makeFieldAbsent sfApproved) m) (\<lambda>m. Inr (tesSUCCESS, m)))
      (handled sha m (registry V))" if "V (nToken t) = Some obj" for a obj
    by (rule neutral_token [OF s that]; use that d(2) in \<open>simp add: nf_typed_def st_fields\<close>)+
  show "does (ApproveToken_doApply sha tx m) (handled sha m (registry V))"
    "does (CancelApproveToken_doApply sha tx m) (handled sha m (registry V))"
    unfolding ApproveToken_doApply_def CancelApproveToken_doApply_def Let_def t reps_peek [OF d(1)]
    by (cases "V (nToken t)"; simp add: handled_fail [OF d(1)] same set)+
qed


lemma short_memos_Nil [simp]: "short_memos []"
  by (simp add: short_memos_def)

lemma short_memos_Cons: "short_memos (memo # ms) \<longleftrightarrow> short_memos [memo] \<and> short_memos ms"
  by (auto simp: short_memos_def)

lemma short_updateMemos: "short_memos ms \<Longrightarrow> short_memos [memo] \<Longrightarrow> short_memos (snd (updateMemos ms memo))"
proof (induction ms memo rule: updateMemos.induct)
  case (2 info infos memo)
  then show ?case
    using short_memos_Cons [of info infos] short_memos_Cons [of memo infos] short_memos_Cons [of info "snd (updateMemos infos memo)"]
    by (cases "updateMemos infos memo") simp
qed simp

lemma short_updateAllMemos: "short_memos ms \<Longrightarrow> short_memos new \<Longrightarrow> short_memos (snd (updateAllMemos ms new))"
proof (induction ms new rule: updateAllMemos.induct)
  case (2 ms memo new)
  have new: "short_memos [memo]" "short_memos new" using 2(3) short_memos_Cons [of memo new] by blast+
  obtain c ms1 where u: "updateMemos ms memo = (c, ms1)" by fastforce
  obtain c' ms2 where v: "updateAllMemos ms1 new = (c', ms2)" by fastforce
  have "short_memos ms1" using short_updateMemos [OF 2(2) new(1)] u by simp
  with 2(1) [OF u [symmetric]] new(2) v u show ?case by simp
qed simp

lemma memo_field_does: "(\<And>b. v = Some b \<Longrightarrow> length b \<le> 918744) \<Longrightarrow> \<exists>s'. memo_field n v s = Inr s'"
  by (cases v) (simp_all add: memo_field_def addVL_prefix)

lemma memos_add_does: "short_memos ms \<Longrightarrow> \<exists>s'. memos_add ms s = Inr s'"
proof (induction ms s rule: memos_add.induct)
  case (2 memo memos s)
  have h: "short_memos [memo]" "short_memos memos" using 2(2) short_memos_Cons [of memo memos] by blast+
  have f: "\<exists>s'. memo_field n v s = Inr s'" if "v \<in> {MemoType memo, MemoData memo, MemoFormat memo}" for n v s
    by (rule memo_field_does) (use h(1) that in \<open>auto simp: short_memos_def\<close>)
  obtain s1 where s1: "memo_field 12 (MemoType memo) (snd (addFieldID 14 10 s)) = Inr s1" using f by blast
  obtain s2 where s2: "memo_field 13 (MemoData memo) s1 = Inr s2" using f by blast
  obtain s3 where s3: "memo_field 14 (MemoFormat memo) s2 = Inr s3" using f by blast
  from 2(1) [OF h(2)] show ?case by (simp add: s1 s2 s3)
qed simp

lemma SetToken_memos_does:
  assumes "short_memos (getFieldArray sfMemos t)" "short_memos (getFieldArray sfMemos obj)"
  shows "does (SetToken_memos t obj) (\<lambda>r. \<forall>changed sle. r = Some (changed, sle) \<longrightarrow> f_u64 sle = f_u64 obj \<and>
    f_h256 sle = f_h256 obj \<and> getAccountID sfOwner sle = getAccountID sfOwner obj \<and> short_memos (getFieldArray sfMemos sle))"
proof -
  obtain c infos where u: "updateAllMemos (getFieldArray sfMemos obj) (getFieldArray sfMemos t) = (c, infos)" by fastforce
  have i: "short_memos infos" using short_updateAllMemos [OF assms(2,1)] u by simp
  obtain s where s: "memos_add infos [] = Inr s" using memos_add_does [OF i] by blast
  show ?thesis
    unfolding SetToken_memos_def Let_def u prod.case using i assms(2)
    by (simp add: s) (simp add: st_fields)
qed

lemma SetToken_does:
  assumes s: "nf_start sha m V" and ms: "short_memos (getFieldArray sfMemos (tx_fields tx))"
  shows "does (SetToken_doApply sha tx m) (handled sha m (registry V))"
proof -
  note d = nf_startD [OF s]
  obtain t where t: "tokenKey sha tx = nf_keylet sha (nToken t)" by (rule tokenKey)
  have same: "handled sha m (registry V) (tesSUCCESS, m)" using handled_success [OF d(1,2)] by simp
  show ?thesis
  proof (cases "V (nToken t)")
    case None
    then show ?thesis unfolding SetToken_doApply_def Let_def t reps_peek [OF d(1)] by (simp add: handled_fail [OF d(1)])
  next
    case (Some obj)
    have o: "short_memos (getFieldArray sfMemos obj)" using Some d(2) by (auto simp: nf_typed_def)
    from SetToken_memos_does [OF ms o] obtain r where r: "SetToken_memos (tx_fields tx) obj = Inr r"
      and k: "\<And>changed sle. r = Some (changed, sle) \<Longrightarrow> f_u64 sle = f_u64 obj \<and>
        f_h256 sle = f_h256 obj \<and> getAccountID sfOwner sle = getAccountID sfOwner obj \<and> short_memos (getFieldArray sfMemos sle)"
      unfolding does_def by blast
    show ?thesis
    proof (cases r)
      case None
      then show ?thesis unfolding SetToken_doApply_def Let_def t reps_peek [OF d(1)] using Some
        by (simp add: r handled_fail [OF d(1)])
    next
      case R: (Some p)
      obtain changed sle where p: "p = (changed, sle)" by fastforce
      note K = k [OF R [unfolded p]]
      have "does (rbind (update (nf_keylet sha (nToken t)) (\<lambda>_. sle) m) (\<lambda>m. Inr (tesSUCCESS, m))) (handled sha m (registry V))"
        by (rule neutral_token [OF s Some]) (use K in simp_all)
      moreover have "does (rbind (update (nf_keylet sha (nToken t)) (\<lambda>_. setFieldVL sfImprint b sle) m)
          (\<lambda>m. Inr (tesSUCCESS, m))) (handled sha m (registry V))" for b
        by (rule neutral_token [OF s Some]) (use K in \<open>simp_all add: setFieldVL_def getAccountID_def getFieldArray_def\<close>)
      ultimately show ?thesis unfolding SetToken_doApply_def Let_def t reps_peek [OF d(1)] using Some R p
        by (simp add: r handled_fail [OF d(1)] same)
    qed
  qed
qed


lemma rbind_assoc: "rbind (rbind r f) g = rbind r (\<lambda>x. rbind (f x) g)"
  by (cases r) simp_all

lemma does_enterIndex:
  assumes r: "reps sha m0 m V" and x: "V x = None" "in_space sha x" "kl_type (nf_keylet sha x) \<noteq> ltACCOUNT_ROOT"
    and g: "\<And>m'. reps sha m0 m' (V(x \<mapsto> setFieldH256 sfTokenID t no_fields)) \<Longrightarrow> does (g m') Q"
  shows "does (rbind (enterIndex (nf_keylet sha x) t m) g) Q"
  unfolding enterIndex_def rbind_assoc
proof (rule does_ensure [OF r x], rule does_update, assumption, goal_cases)
  case (2 m1)
  then show ?case using x(3) by (cases x) simp_all
next
  case (3 m1 m2)
  then show ?case using g by simp
qed simp

text \<open>How single changes of a view change the registry.\<close>

lemma registry_upd:
  "registry (V(nAsset a := v)) = (registry V)\<lparr>
     tokens_of := (tokens_of (registry V))\<lparr>e_count := (e_count (tokens_of (registry V)))(a := u64_of sfTokenNumber v)\<rparr>,
     issuer_of := (issuer_of (registry V))(a := map_option (getAccountID sfIssuer) v)\<rparr>"
  "registry (V(nIndex a i := v)) = (registry V)\<lparr>
     tokens_of := (tokens_of (registry V))\<lparr>e_at := (e_at (tokens_of (registry V)))(a := (e_at (tokens_of (registry V)) a)
       (i := map_option (getFieldH256 sfTokenID) v))\<rparr>\<rparr>"
  "registry (V(nOwnerIndex a w i := v)) = (registry V)\<lparr>
     owned := (owned (registry V))\<lparr>e_at := (e_at (owned (registry V)))((a, w) := (e_at (owned (registry V)) (a, w))
       (i := map_option (getFieldH256 sfTokenID) v))\<rparr>\<rparr>"
  "registry (V(nToken t := v)) = (registry V)\<lparr>
     tokens_of := (tokens_of (registry V))\<lparr>e_pos := (e_pos (tokens_of (registry V)))
       (t := map_option (\<lambda>obj. (getFieldH256 sfAssetID obj, getFieldU64 sfTokenIndex obj)) v)\<rparr>,
     owned := (owned (registry V))\<lparr>e_pos := (e_pos (owned (registry V)))
       (t := map_option (\<lambda>obj. ((getFieldH256 sfAssetID obj, getAccountID sfOwner obj), getFieldU64 sfOwnerTokenIndex obj)) v)\<rparr>\<rparr>"
  by (auto simp: registry_def fun_eq_iff)

lemma CreateToken_sle_fields:
  "getFieldH256 sfAssetID (CreateToken_sle tx t n k) = getFieldH256 sfAssetID (tx_fields tx)"
  "getAccountID sfOwner (CreateToken_sle tx t n k) = getAccountID sfOwner (tx_fields tx)"
  "getFieldU64 sfTokenIndex (CreateToken_sle tx t n k) = n" "getFieldU64 sfOwnerTokenIndex (CreateToken_sle tx t n k) = k"
  "short_memos (getFieldArray sfMemos (tx_fields tx)) \<Longrightarrow> short_memos (getFieldArray sfMemos (CreateToken_sle tx t n k))"
  by (simp_all add: CreateToken_sle_def Let_def)

text \<open>The view after the last write of \<^verbatim>\<open>CreateToken::doApply\<close>.\<close>

lemma created:
  assumes r: "reps sha m m' (V2(nToken t \<mapsto> CreateToken_sle tx t n k, nIndex a n \<mapsto> setFieldH256 sfTokenID t no_fields,
      nOwnerIndex a w k \<mapsto> setFieldH256 sfTokenID t no_fields))"
    and c: "counted (V(nAsset a \<mapsto> setFieldU64 sfTokenNumber (n + 1) sa)) V2 a w (k + 1)
      (assets_of (add_owner a w (registry (V(nAsset a \<mapsto> setFieldU64 sfTokenNumber (n + 1) sa)))))"
    and a: "V (nAsset a) = Some sa" and n: "e_count (tokens_of (registry V)) a = n" and ms: "short_memos (getFieldArray sfMemos (tx_fields tx))"
    and tx: "a = getFieldH256 sfAssetID (tx_fields tx)" "w = getAccountID sfOwner (tx_fields tx)"
    and k: "k = e_count (owned (registry V)) (a, w)"
  shows "handled sha m (create_token a w t (registry V)) (tesSUCCESS, m')"
proof (rule handled_success [OF r])
  let ?V1 = "V(nAsset a \<mapsto> setFieldU64 sfTokenNumber (n + 1) sa)" and ?L = "registry V"
  have L1: "registry ?V1 = ?L\<lparr>tokens_of := (tokens_of ?L)\<lparr>e_count := (e_count (tokens_of ?L))(a := n + 1)\<rparr>\<rparr>"
    using a by (simp add: registry_def fun_eq_iff)
  show "nf_typed (V2(nToken t \<mapsto> CreateToken_sle tx t n k, nIndex a n \<mapsto> setFieldH256 sfTokenID t no_fields,
      nOwnerIndex a w k \<mapsto> setFieldH256 sfTokenID t no_fields))"
    using countedD [OF c] CreateToken_sle_fields(5) [OF ms] by (simp add: nf_typed_def)
  show "registry (V2(nToken t \<mapsto> CreateToken_sle tx t n k, nIndex a n \<mapsto> setFieldH256 sfTokenID t no_fields,
      nOwnerIndex a w k \<mapsto> setFieldH256 sfTokenID t no_fields)) = create_token a w t ?L"
    by (rule Registry.equality; (rule Enum.equality)?)
      (simp_all add: registry_upd(2-4) registry_counted [OF c] L1 CreateToken_sle_fields create_token_def give_token_def
        add_owner_def enum_push_def n is_owner_def tx [symmetric] k [symmetric])
qed

lemma CreateToken_does:
  assumes s: "nf_start sha m V" and w: "V (nAccount (getAccountID sfOwner (tx_fields tx))) \<noteq> None"
    and ms: "short_memos (getFieldArray sfMemos (tx_fields tx))"
  shows "does (CreateToken_doApply sha tx m) (handled sha m
    (create_token (getFieldH256 sfAssetID (tx_fields tx)) (getAccountID sfOwner (tx_fields tx))
      (getNFTokenIndex sha (getFieldH256 sfAssetID (tx_fields tx)) (getFieldVL sfIdent (tx_fields tx))) (registry V)))"
    (is "does _ (handled sha m (create_token ?a ?w ?t _))")
proof -
  note d = nf_startD [OF s]
  have fail: "handled sha m L (ter, m)" if "ter \<in> {tefNO_ASSET, tefTOKEN_EXIST, tecNO_PERMISSION}" for L ter
    using that by (intro handled_fail [OF d(1)]) auto
  show ?thesis
  proof (cases "V (nAsset ?a) = None \<or> V (nToken ?t) \<noteq> None \<or> getAccountID sfIssuer (the (V (nAsset ?a))) \<noteq> tx_account tx")
    case True
    then show ?thesis
      unfolding CreateToken_doApply_def Let_def nf_keylets nf_keylet_key [where sha = sha] reps_peek [OF d(1)] reps_exists [OF d(1)]
      by (cases "V (nAsset ?a)"; cases "V (nToken ?t)") (simp_all add: fail)
  next
    case False
    then obtain sa where a: "V (nAsset ?a) = Some sa" "getAccountID sfIssuer sa = tx_account tx" and t: "V (nToken ?t) = None"
      by (cases "V (nAsset ?a)") auto
    let ?n = "getFieldU64 sfTokenNumber sa" and ?L = "registry V"
    let ?V1 = "V(nAsset ?a \<mapsto> setFieldU64 sfTokenNumber (?n + 1) sa)"
    let ?k = "e_count (owned ?L) (?a, ?w)"
    have n: "0 \<le> ?n" "e_count (tokens_of ?L) ?a = ?n" using enum_okD(3) [OF nf_okD(1) [OF d(3)], of ?a] a by (simp_all add: registry_def)
    have u: "u64 (?n + 1) = ?n + 1" using n nf_roomD(1) [OF d(4), of ?a] a by (intro u64_small) simp_all
    have L1: "registry ?V1 = ?L\<lparr>tokens_of := (tokens_of ?L)\<lparr>e_count := (e_count (tokens_of ?L))(?a := ?n + 1)\<rparr>\<rparr>" "nf_typed ?V1"
      using a d(2) by (simp_all add: registry_def nf_typed_def fun_eq_iff)
    have k: "0 \<le> ?k" using enum_okD(3) [OF nf_okD(2) [OF d(3)]] .
    note fin = created [OF _ _ a(1) n(2) ms refl refl refl]
    show ?thesis
      unfolding CreateToken_doApply_def Let_def nf_keylets nf_keylet_key [where sha = sha] reps_peek [OF d(1)] reps_exists [OF d(1)]
        a option.case t u key_of_id
    proof (simp only: simp_thms if_False, rule does_update [OF d(1)], simp add: a, simp, rule does_bind,
        rule countOwnerToken_does, assumption, goal_cases)
      case (7 m1 x)
      then have "\<exists>m2 V2. x = (?k, m2) \<and> reps sha m m2 V2 \<and>
          counted ?V1 V2 ?a ?w (?k + 1) (assets_of (add_owner ?a ?w (registry ?V1)))"
        using a by (cases x) (simp add: L1)
      then obtain m2 V2 where x: "x = (?k, m2)" and r2: "reps sha m m2 V2"
        and c: "counted ?V1 V2 ?a ?w (?k + 1) (assets_of (add_owner ?a ?w (registry ?V1)))" by blast
      note sd = sideD [OF conjunct1 [OF countedD [OF c]]]
      have i: "V (nIndex ?a ?n) = None" "V (nOwnerIndex ?a ?w ?k) = None"
        using registry_index(1,2) [OF d(3)] a by (simp_all add: registry_def)
      show ?case unfolding x prod.case
        by (rule does_insert [OF r2], simp add: sd t, simp, simp, rule does_enterIndex, assumption, simp add: sd i, simp, simp,
            rule does_enterIndex, assumption, simp add: sd i, simp, simp) (simp add: fin [OF _ c])
    qed (use nf_okD(3) [OF d(3)] nf_roomD(3,4) [OF d(4)] k w L1 a in simp_all)
  qed
qed


text \<open>A token in a consistent registry: its places and the last tokens of its two lists.\<close>

lemma token_entry:
  assumes ok: "nf_ok (registry V)" and t: "V (nToken t) = Some tk"
    and a: "a = getFieldH256 sfAssetID tk" and w: "w = getAccountID sfOwner tk"
  obtains sa so where "V (nAsset a) = Some sa" "V (nOwner a w) = Some so"
    "0 \<le> getFieldU64 sfTokenIndex tk" "getFieldU64 sfTokenIndex tk < getFieldU64 sfTokenNumber sa"
    "0 \<le> getFieldU64 sfOwnerTokenIndex tk" "getFieldU64 sfOwnerTokenIndex tk < getFieldU64 sfTokenNumber so"
    "V (nIndex a (getFieldU64 sfTokenIndex tk)) \<noteq> None" "V (nOwnerIndex a w (getFieldU64 sfOwnerTokenIndex tk)) \<noteq> None"
proof -
  let ?L = "registry V"
  have p: "e_pos (tokens_of ?L) t = Some (a, getFieldU64 sfTokenIndex tk)"
    "e_pos (owned ?L) t = Some ((a, w), getFieldU64 sfOwnerTokenIndex tk)" using t a w by (simp_all add: registry_def)
  have i: "e_at (tokens_of ?L) a (getFieldU64 sfTokenIndex tk) = Some t" "0 \<le> getFieldU64 sfTokenIndex tk"
    "getFieldU64 sfTokenIndex tk < u64_of sfTokenNumber (V (nAsset a))"
    by (rule enum_last [OF nf_okD(1) [OF ok] p(1)], simp add: registry_def)+
  have j: "e_at (owned ?L) (a, w) (getFieldU64 sfOwnerTokenIndex tk) = Some t" "0 \<le> getFieldU64 sfOwnerTokenIndex tk"
    "getFieldU64 sfOwnerTokenIndex tk < u64_of sfTokenNumber (V (nOwner a w))"
    by (rule enum_last [OF nf_okD(2) [OF ok] p(2)], simp add: registry_def)+
  obtain sa where "V (nAsset a) = Some sa" using i by (cases "V (nAsset a)") auto
  moreover obtain so where "V (nOwner a w) = Some so" using j by (cases "V (nOwner a w)") auto
  ultimately show ?thesis using that i j by (auto simp: registry_def)
qed

lemma last_entry:
  assumes ok: "nf_ok (registry V)" and t: "V (nToken t) = Some tk"
    and a: "a = getFieldH256 sfAssetID tk" and w: "w = getAccountID sfOwner tk"
    and n: "n = e_count (tokens_of (registry V)) a - 1" and k: "k = e_count (owned (registry V)) (a, w) - 1"
  obtains lo la oo oa where "V (nIndex a n) = Some lo" "V (nToken (getFieldH256 sfTokenID lo)) = Some la"
    "getFieldH256 sfAssetID la = a" "getFieldH256 sfTokenID lo = t \<longleftrightarrow> getFieldU64 sfTokenIndex tk = n"
    "V (nOwnerIndex a w k) = Some oo" "V (nToken (getFieldH256 sfTokenID oo)) = Some oa"
    "getFieldH256 sfAssetID oa = a" "getAccountID sfOwner oa = w"
    "getFieldH256 sfTokenID oo = t \<longleftrightarrow> getFieldU64 sfOwnerTokenIndex tk = k"
proof -
  let ?L = "registry V"
  have p: "e_pos (tokens_of ?L) t = Some (a, getFieldU64 sfTokenIndex tk)"
    "e_pos (owned ?L) t = Some ((a, w), getFieldU64 sfOwnerTokenIndex tk)" using t a w by (simp_all add: registry_def)
  obtain x where x: "e_at (tokens_of ?L) a n = Some x" "e_pos (tokens_of ?L) x = Some (a, n)"
    "x = t \<longleftrightarrow> getFieldU64 sfTokenIndex tk = n" using enum_last [OF nf_okD(1) [OF ok] p(1)] unfolding n by blast
  obtain y where y: "e_at (owned ?L) (a, w) k = Some y" "e_pos (owned ?L) y = Some ((a, w), k)"
    "y = t \<longleftrightarrow> getFieldU64 sfOwnerTokenIndex tk = k" using enum_last [OF nf_okD(2) [OF ok] p(2)] unfolding k by blast
  obtain lo la where "V (nIndex a n) = Some lo" "getFieldH256 sfTokenID lo = x" "V (nToken x) = Some la" "getFieldH256 sfAssetID la = a"
    using x by (auto simp: registry_def)
  moreover obtain oo oa where "V (nOwnerIndex a w k) = Some oo" "getFieldH256 sfTokenID oo = y" "V (nToken y) = Some oa"
    "getFieldH256 sfAssetID oa = a" "getAccountID sfOwner oa = w"
    using y by (auto simp: registry_def)
  ultimately show ?thesis using that [of lo la oo oa] x(3) y(3) by simp
qed

lemma lastToken_reps: "reps sha m0 m V \<Longrightarrow> V x = Some obj \<Longrightarrow> V (nToken (getFieldH256 sfTokenID obj)) \<noteq> None \<Longrightarrow>
    lastToken (nf_keylet sha x) m = Some (getFieldH256 sfTokenID obj)"
  unfolding lastToken_def nf_keylet_key [where sha = sha] by (simp add: reps_peek)

definition filled ::
    "(NFEntry \<Rightarrow> STObject option) \<Rightarrow> NFEntry \<Rightarrow> SField \<Rightarrow> int \<Rightarrow> int \<Rightarrow> nat \<Rightarrow> NFEntry \<Rightarrow> STObject option" where
  "filled V x fld i n l =
     (if i \<noteq> n then V(x \<mapsto> setFieldH256 sfTokenID l (the (V x)), nToken l \<mapsto> setFieldU64 fld i (the (V (nToken l)))) else V)"

lemma does_fillIndex:
  assumes r: "reps sha m0 m V" and x: "i \<noteq> n \<Longrightarrow> V x \<noteq> None" "i \<noteq> n \<Longrightarrow> V (nToken l) \<noteq> None" "\<And>t. x \<noteq> nToken t" "\<And>w. x \<noteq> nAccount w"
    and g: "\<And>m'. reps sha m0 m' (filled V x fld i n l) \<Longrightarrow> does (g m') Q"
  shows "does (rbind (fillIndex (nf_keylet sha x) fld i n l m) g) Q"
proof (cases "i = n")
  case True
  then show ?thesis using g [of m] r by (simp add: fillIndex_def filled_def)
next
  case False
  have k: "keeps_funds x f" for f using x(4) by (simp add: keeps_funds_def)
  have f: "filled V x fld i n l = V(x \<mapsto> setFieldH256 sfTokenID l (the (V x)), nToken l \<mapsto> setFieldU64 fld i (the (V (nToken l))))"
    using False by (simp add: filled_def)
  show ?thesis
    unfolding fillIndex_def nf_keylet_key [where sha = sha] if_P [OF False] rbind_assoc
    by (rule does_update [OF r x(1) k], rule False, rule does_update, assumption)
      (use x(2) x(3) [of l] x(3) [of l, symmetric] False g in \<open>auto simp: f\<close>)
qed


lemma registry_filled:
  assumes "i \<noteq> n \<longrightarrow> V (nToken l) = Some obj \<and> getFieldH256 sfAssetID obj = a"
  shows "registry (filled V (nIndex a i) sfTokenIndex i n l) = (if i = n then registry V else (registry V)\<lparr>
      tokens_of := (tokens_of (registry V))\<lparr>e_at := (e_at (tokens_of (registry V)))(a := (e_at (tokens_of (registry V)) a)(i \<mapsto> l)),
        e_pos := (e_pos (tokens_of (registry V)))(l \<mapsto> (a, i))\<rparr>\<rparr>)"
  using assms by (auto simp: filled_def registry_def fun_eq_iff)

lemma registry_filled_owner:
  assumes "j \<noteq> k \<longrightarrow> V (nToken l) = Some obj \<and> getFieldH256 sfAssetID obj = a \<and> getAccountID sfOwner obj = w"
  shows "registry (filled V (nOwnerIndex a w j) sfOwnerTokenIndex j k l) = (if j = k then registry V else (registry V)\<lparr>
      owned := (owned (registry V))\<lparr>e_at := (e_at (owned (registry V)))((a, w) := (e_at (owned (registry V)) (a, w))(j \<mapsto> l)),
        e_pos := (e_pos (owned (registry V)))(l \<mapsto> ((a, w), j))\<rparr>\<rparr>)"
  using assms by (auto simp: filled_def registry_def fun_eq_iff)

lemma typed_filled:
  assumes "nf_typed V" "i \<noteq> n \<Longrightarrow> V (nToken l) \<noteq> None" "\<And>a w. x \<noteq> nOwner a w" "\<And>t. x \<noteq> nToken t"
  shows "nf_typed (filled V x fld i n l)"
proof (cases "i = n")
  case False
  then obtain obj where o: "V (nToken l) = Some obj" using assms(2) by blast
  have "x \<noteq> nToken t" "nToken t \<noteq> x" "nOwner a w \<noteq> x" for t a w using assms(3,4) by metis+
  then show ?thesis using assms(1) o False by (simp add: filled_def nf_typed_def)
qed (use assms in \<open>simp add: filled_def\<close>)

lemma filled_token: "(\<And>t. x \<noteq> nToken t) \<Longrightarrow> filled V x fld i n l (nToken y) =
    (if i \<noteq> n \<and> y = l then Some (setFieldU64 fld i (the (V (nToken l)))) else V (nToken y))"
  by (metis (no_types, lifting) NFEntry.inject(3) filled_def fun_upd_apply)

text \<open>The view after a token was destroyed, from the view \<open>V2\<close> in which its owner has been discounted.\<close>

lemma destroyed:
  assumes t: "V (nToken t) = Some tk" "a = getFieldH256 sfAssetID tk" "w = getAccountID sfOwner tk"
      "i = getFieldU64 sfTokenIndex tk" "j = getFieldU64 sfOwnerTokenIndex tk"
    and sa: "V (nAsset a) = Some sa"
    and n: "n = e_count (tokens_of (registry V)) a - 1" "k = e_count (owned (registry V)) (a, w) - 1"
    and l: "V (nIndex a n) = Some lo" "l = getFieldH256 sfTokenID lo" "V (nToken l) = Some la"
      "getFieldH256 sfAssetID la = a" "l = t \<longleftrightarrow> i = n"
    and l': "V (nOwnerIndex a w k) = Some oo" "l' = getFieldH256 sfTokenID oo" "V (nToken l') = Some oa"
      "getFieldH256 sfAssetID oa = a" "getAccountID sfOwner oa = w" "l' = t \<longleftrightarrow> j = k"
    and V1: "V1 = V(nAsset a \<mapsto> setFieldU64 sfTokenNumber n sa, nToken t := None)"
    and c: "counted V1 V2 a w k (if k \<noteq> 0 \<or> w = getAccountID sfIssuer sa then assets_of (registry V1)
      else assets_of (drop_owner a w (registry V1)))"
    and V3: "V3 = filled (V2(nIndex a n := None, nOwnerIndex a w k := None)) (nIndex a i) sfTokenIndex i n l"
  shows "nf_typed (filled V3 (nOwnerIndex a w j) sfOwnerTokenIndex j k l')"
    "registry (filled V3 (nOwnerIndex a w j) sfOwnerTokenIndex j k l') = destroy_token a w t (registry V)"
proof -
  let ?V2 = "V2(nIndex a n := None, nOwnerIndex a w k := None)"
  note sd = sideD [OF conjunct1 [OF countedD [OF c]]]
  have tok: "?V2 (nToken x) = (if x = t then None else V (nToken x))" for x by (simp add: sd V1)
  have la: "i \<noteq> n \<longrightarrow> ?V2 (nToken l) = Some la \<and> getFieldH256 sfAssetID la = a" using l tok by simp
  have oa: "j \<noteq> k \<longrightarrow> V3 (nToken l') = Some (if i \<noteq> n \<and> l' = l then setFieldU64 sfTokenIndex i oa else oa) \<and>
      getFieldH256 sfAssetID (if i \<noteq> n \<and> l' = l then setFieldU64 sfTokenIndex i oa else oa) = a \<and>
      getAccountID sfOwner (if i \<noteq> n \<and> l' = l then setFieldU64 sfTokenIndex i oa else oa) = w"
    unfolding V3 by (subst filled_token) (use l l' tok in auto)
  have ty: "nf_typed ?V2" using countedD [OF c] by (simp add: nf_typed_def)
  have ty3: "nf_typed V3" unfolding V3 by (rule typed_filled [OF ty]) (use la in auto)
  show "nf_typed (filled V3 (nOwnerIndex a w j) sfOwnerTokenIndex j k l')"
    by (rule typed_filled [OF ty3]) (use oa in auto)
  define L T W as where L: "L = registry V" "T = tokens_of L" "W = owned L"
    "as = (if k \<noteq> 0 \<or> w = getAccountID sfIssuer sa then assets_of L else assets_of (drop_owner a w L))"
  have R1: "registry V1 = L\<lparr>tokens_of := T\<lparr>e_count := (e_count T)(a := n), e_pos := (e_pos T)(t := None)\<rparr>,
      owned := W\<lparr>e_pos := (e_pos W)(t := None)\<rparr>\<rparr>"
    unfolding V1 L using sa by (auto simp: registry_def fun_eq_iff)
  have as: "(if k \<noteq> 0 \<or> w = getAccountID sfIssuer sa then assets_of (registry V1)
      else assets_of (drop_owner a w (registry V1))) = as"
    unfolding R1 L(4) by (simp add: drop_owner_def)
  have R2: "registry ?V2 = L\<lparr>
      tokens_of := T\<lparr>e_count := (e_count T)(a := n), e_at := (e_at T)(a := (e_at T a)(n := None)), e_pos := (e_pos T)(t := None)\<rparr>,
      owned := W\<lparr>e_count := (e_count W)((a, w) := k), e_at := (e_at W)((a, w) := (e_at W (a, w))(k := None)),
        e_pos := (e_pos W)(t := None)\<rparr>, assets_of := as\<rparr>"
    unfolding registry_upd(2,3) registry_counted [OF c] as unfolding R1 by simp
  have f: "e_pos T t = Some (a, i)" "e_pos W t = Some ((a, w), j)" "e_at T a n = Some l" "e_at W (a, w) k = Some l'"
    "issuer_of L a = Some (getAccountID sfIssuer sa)" "e_count T a - 1 = n" "e_count W (a, w) - 1 = k"
    using t l l' sa n unfolding L by (simp_all add: registry_def)
  have cw: "e_count W (a, w) = k + 1" using f(7) by simp
  have T: "enum_remove a i t T = (if i = n then tokens_of (registry ?V2) else
      (tokens_of (registry ?V2))\<lparr>e_at := (e_at T)(a := (e_at T a)(n := None, i \<mapsto> l)), e_pos := (e_pos T)(t := None, l \<mapsto> (a, i))\<rparr>)"
    unfolding enum_remove_def Let_def f option.sel R2 by simp
  have W: "enum_remove (a, w) j t W = (if j = k then owned (registry ?V2) else
      (owned (registry ?V2))\<lparr>e_at := (e_at W)((a, w) := (e_at W (a, w))(k := None, j \<mapsto> l')), e_pos := (e_pos W)(t := None, l' \<mapsto> ((a, w), j))\<rparr>)"
    unfolding enum_remove_def Let_def f option.sel R2 by simp
  have D: "destroy_token a w t L = L\<lparr>tokens_of := enum_remove a i t T, owned := enum_remove (a, w) j t W, assets_of := as\<rparr>"
    unfolding destroy_token_def take_token_def Let_def L(2,3) [symmetric] f L(4) cw by (simp add: drop_owner_def)
  show "registry (filled V3 (nOwnerIndex a w j) sfOwnerTokenIndex j k l') = destroy_token a w t (registry V)"
    unfolding registry_filled_owner [where V = V3 and l = l', OF oa] L(1) [symmetric] D T W
    unfolding V3 registry_filled [where V = ?V2 and l = l, OF la] R2
    by (cases "i = n"; cases "j = k") simp_all
qed

text \<open>What the code reads about a token before it changes anything.\<close>

definition token_read :: "(NFEntry \<Rightarrow> STObject option) \<Rightarrow> nat \<Rightarrow> STObject \<Rightarrow> nat \<Rightarrow> int \<Rightarrow> STObject \<Rightarrow> STObject \<Rightarrow> STObject \<Rightarrow> STObject \<Rightarrow> bool" where
  "token_read V t tk a w sa so lo oo \<longleftrightarrow> V (nToken t) = Some tk \<and> a = getFieldH256 sfAssetID tk \<and> w = getAccountID sfOwner tk \<and>
     V (nAsset a) = Some sa \<and> V (nOwner a w) = Some so \<and>
     V (nIndex a (getFieldU64 sfTokenIndex tk)) \<noteq> None \<and> V (nOwnerIndex a w (getFieldU64 sfOwnerTokenIndex tk)) \<noteq> None \<and>
     u64 (getFieldU64 sfTokenNumber sa - 1) = e_count (tokens_of (registry V)) a - 1 \<and>
     u64 (getFieldU64 sfTokenNumber so - 1) = e_count (owned (registry V)) (a, w) - 1 \<and>
     V (nIndex a (e_count (tokens_of (registry V)) a - 1)) = Some lo \<and>
     V (nOwnerIndex a w (e_count (owned (registry V)) (a, w) - 1)) = Some oo"

lemma token_readI:
  assumes s: "nf_start sha m V" and t: "V (nToken t) = Some tk" and a: "a = getFieldH256 sfAssetID tk" and w: "w = getAccountID sfOwner tk"
  obtains sa so lo oo where "token_read V t tk a w sa so lo oo"
proof -
  note d = nf_startD [OF s]
  obtain sa so where sa: "V (nAsset a) = Some sa" and so: "V (nOwner a w) = Some so"
    and i: "0 \<le> getFieldU64 sfTokenIndex tk" "getFieldU64 sfTokenIndex tk < getFieldU64 sfTokenNumber sa"
      "0 \<le> getFieldU64 sfOwnerTokenIndex tk" "getFieldU64 sfOwnerTokenIndex tk < getFieldU64 sfTokenNumber so"
      "V (nIndex a (getFieldU64 sfTokenIndex tk)) \<noteq> None" "V (nOwnerIndex a w (getFieldU64 sfOwnerTokenIndex tk)) \<noteq> None"
    using token_entry [OF d(3) t a w] .
  have c: "e_count (tokens_of (registry V)) a = getFieldU64 sfTokenNumber sa" "e_count (owned (registry V)) (a, w) = getFieldU64 sfTokenNumber so"
    using sa so by (simp_all add: registry_def)
  have u: "u64 (getFieldU64 sfTokenNumber sa - 1) = getFieldU64 sfTokenNumber sa - 1"
    "u64 (getFieldU64 sfTokenNumber so - 1) = getFieldU64 sfTokenNumber so - 1"
    using i nf_roomD(1) [OF d(4), of a] nf_roomD(2) [OF d(4), of a w] sa so by (simp_all add: u64_small)
  from last_entry [OF d(3) t a w refl refl] show ?thesis
    using that sa so i(5,6) c u t a w unfolding token_read_def by metis
qed

lemma token_readD:
  assumes "token_read V t tk a w sa so lo oo"
  shows "V (nToken t) = Some tk" "getFieldH256 sfAssetID tk = a" "getAccountID sfOwner tk = w"
    "V (nAsset a) = Some sa" "V (nOwner a w) = Some so" "V (nIndex a (getFieldU64 sfTokenIndex tk)) \<noteq> None"
    "V (nOwnerIndex a w (getFieldU64 sfOwnerTokenIndex tk)) \<noteq> None"
    "u64 (getFieldU64 sfTokenNumber sa - 1) = e_count (tokens_of (registry V)) a - 1"
    "u64 (getFieldU64 sfTokenNumber so - 1) = e_count (owned (registry V)) (a, w) - 1"
    "V (nIndex a (e_count (tokens_of (registry V)) a - 1)) = Some lo"
    "V (nOwnerIndex a w (e_count (owned (registry V)) (a, w) - 1)) = Some oo"
  using assms unfolding token_read_def by blast+

text \<open>The last tokens are those of the entries that were read.\<close>

lemma token_last:
  assumes ok: "nf_ok (registry V)" and R: "token_read V t tk a w sa so lo oo"
  obtains la oa where "V (nToken (getFieldH256 sfTokenID lo)) = Some la" "getFieldH256 sfAssetID la = a"
    "getFieldH256 sfTokenID lo = t \<longleftrightarrow> getFieldU64 sfTokenIndex tk = e_count (tokens_of (registry V)) a - 1"
    "V (nToken (getFieldH256 sfTokenID oo)) = Some oa" "getFieldH256 sfAssetID oa = a" "getAccountID sfOwner oa = w"
    "getFieldH256 sfTokenID oo = t \<longleftrightarrow> getFieldU64 sfOwnerTokenIndex tk = e_count (owned (registry V)) (a, w) - 1"
proof -
  note f = token_readD [OF R]
  show ?thesis
    by (rule last_entry [OF ok f(1) f(2,3) [symmetric] refl refl]) (use that f(10,11) in auto)
qed

lemma DestroyToken_does:
  assumes s: "nf_start sha m V" and key: "tokenKey sha tx = nf_keylet sha (nToken t)"
  shows "does (DestroyToken_doApply sha perm tx m) (\<lambda>(ter, m'). case V (nToken t) of None \<Rightarrow> ter = tefNO_TOKEN \<and> m' = m
    | Some tk \<Rightarrow> handled sha m (destroy_token (getFieldH256 sfAssetID tk) (getAccountID sfOwner tk) t (registry V)) (ter, m'))"
proof (cases "V (nToken t)")
  case None
  then show ?thesis
    unfolding DestroyToken_doApply_def Let_def key reps_peek [OF nf_startD(1) [OF s]] by simp
next
  case (Some tk)
  note d = nf_startD [OF s]
  obtain a w sa so lo oo where R: "token_read V t tk a w sa so lo oo" using token_readI [OF s Some refl refl] by metis
  note f = token_readD [OF R]
  obtain la oa where l: "V (nToken (getFieldH256 sfTokenID lo)) = Some la" "getFieldH256 sfAssetID la = a"
      "getFieldH256 sfTokenID lo = t \<longleftrightarrow> getFieldU64 sfTokenIndex tk = e_count (tokens_of (registry V)) a - 1"
    and l': "V (nToken (getFieldH256 sfTokenID oo)) = Some oa" "getFieldH256 sfAssetID oa = a" "getAccountID sfOwner oa = w"
      "getFieldH256 sfTokenID oo = t \<longleftrightarrow> getFieldU64 sfOwnerTokenIndex tk = e_count (owned (registry V)) (a, w) - 1"
    using token_last [OF d(3) R] .
  let ?V1 = "V(nAsset a \<mapsto> setFieldU64 sfTokenNumber (e_count (tokens_of (registry V)) a - 1) sa, nToken t := None)"
  note fin = destroyed [OF f(1) f(2,3) [symmetric] refl refl f(4) refl refl f(10) refl l f(11) refl l' refl]
  have last: "lastToken (nf_keylet sha (nIndex a (e_count (tokens_of (registry V)) a - 1))) m = Some (getFieldH256 sfTokenID lo)"
    "lastToken (nf_keylet sha (nOwnerIndex a w (e_count (owned (registry V)) (a, w) - 1))) m = Some (getFieldH256 sfTokenID oo)"
    using l(1) l'(1) by (simp_all add: lastToken_reps [OF d(1)] f)
  show ?thesis
  proof (cases "perm tk sa")
    case False
    then show ?thesis
      unfolding DestroyToken_doApply_def Let_def key reps_peek [OF d(1)] f nf_keylets nf_keylet_key [where sha = sha]
      by (simp add: f handled_fail [OF d(1)])
  next
    case True
    show ?thesis
      unfolding DestroyToken_doApply_def Let_def key reps_peek [OF d(1)] f option.case nf_keylets nf_keylet_key [where sha = sha]
        last prod.case
    proof (simp only: True f(6,7) simp_thms if_False option.case prod.case, rule does_update [OF d(1)], simp add: f(4), simp,
        rule does_erase, assumption, simp add: f(1), simp, rule does_bind, rule discountOwnerToken_does, assumption, goal_cases)
      case (4 m1 m2 m3)
      then obtain V2 where r: "reps sha m m3 V2" and c: "counted ?V1 V2 a w (e_count (owned (registry V)) (a, w) - 1)
          (if e_count (owned (registry V)) (a, w) - 1 \<noteq> 0 \<or> w = getAccountID sfIssuer sa then assets_of (registry ?V1)
           else assets_of (drop_owner a w (registry ?V1)))" unfolding f(4) option.sel by blast
      note sd = sideD [OF conjunct1 [OF countedD [OF c]]]
      show ?case
        apply (rule does_erase [OF r], simp add: sd f, simp, rule does_erase, assumption, simp add: sd f, simp)
        apply (rule does_fillIndex, assumption, simp add: sd f, simp add: sd l, simp, simp)
        apply (rule does_fillIndex, assumption, simp add: filled_def sd f del: not_None_eq)
        apply (simp add: filled_def sd l', simp, simp)
        apply (simp add: handled_success [OF _ fin [OF c refl]] f)
        done
    qed (use d(2) nf_okD(3) [OF d(3)] f in \<open>simp_all add: registry_upd(1,4) nf_typed_def\<close>)
  qed
qed

text \<open>The view after a token was taken from its owner, except that the entry of the token is unchanged.\<close>

lemma taken:
  assumes t: "V (nToken t) = Some tk" "a = getFieldH256 sfAssetID tk" "w = getAccountID sfOwner tk"
      "j = getFieldU64 sfOwnerTokenIndex tk"
    and sa: "V (nAsset a) = Some sa" and n: "k = e_count (owned (registry V)) (a, w) - 1"
    and l': "V (nOwnerIndex a w k) = Some oo" "l' = getFieldH256 sfTokenID oo" "V (nToken l') = Some oa"
      "getFieldH256 sfAssetID oa = a" "getAccountID sfOwner oa = w" "l' = t \<longleftrightarrow> j = k"
    and c: "counted V V1 a w k (if k \<noteq> 0 \<or> w = getAccountID sfIssuer sa then assets_of (registry V)
      else assets_of (drop_owner a w (registry V)))"
    and V3: "V3 = filled (V1(nOwnerIndex a w k := None)) (nOwnerIndex a w j) sfOwnerTokenIndex j k l'"
    and X: "X = take_token a w t (registry V)"
  shows "nf_typed V3" "V3 (nToken t) = Some tk" "V3 (nAccount v) = None \<longleftrightarrow> V (nAccount v) = None"
    "v \<noteq> w \<Longrightarrow> V3 (nOwnerIndex a v i) = V (nOwnerIndex a v i)"
    "registry V3 = X\<lparr>owned := (owned X)\<lparr>e_pos := (e_pos (owned X))(t \<mapsto> ((a, w), j))\<rparr>\<rparr>"
proof -
  let ?V2 = "V1(nOwnerIndex a w k := None)"
  note sd = sideD [OF conjunct1 [OF countedD [OF c]]]
  have oa: "j \<noteq> k \<longrightarrow> ?V2 (nToken l') = Some oa \<and> getFieldH256 sfAssetID oa = a \<and> getAccountID sfOwner oa = w"
    using l' by (simp add: sd)
  have ty: "nf_typed ?V2" using countedD [OF c] by (simp add: nf_typed_def)
  show "nf_typed V3" unfolding V3 by (rule typed_filled [OF ty]) (use oa in auto)
  show "V3 (nToken t) = Some tk" "V3 (nAccount v) = None \<longleftrightarrow> V (nAccount v) = None"
    "v \<noteq> w \<Longrightarrow> V3 (nOwnerIndex a v i) = V (nOwnerIndex a v i)"
    unfolding V3 using t(1) l'(6) by (auto simp: filled_def sd)
  define L W where L: "L = registry V" "W = owned L"
  have f: "e_pos W t = Some ((a, w), j)" "e_at W (a, w) k = Some l'" "issuer_of L a = Some (getAccountID sfIssuer sa)"
    "e_count W (a, w) - 1 = k" "e_count W (a, w) = k + 1"
    using t l' sa n unfolding L by (simp_all add: registry_def)
  show "registry V3 = X\<lparr>owned := (owned X)\<lparr>e_pos := (e_pos (owned X))(t \<mapsto> ((a, w), j))\<rparr>\<rparr>"
    unfolding V3 registry_filled_owner [where V = ?V2 and l = l', OF oa] registry_upd(3) registry_counted [OF c] X
      take_token_def Let_def L [symmetric] enum_remove_def f option.sel snd_conv
    by (cases "j = k"; cases "k \<noteq> 0 \<or> w = getAccountID sfIssuer sa"; rule Registry.equality; (rule Enum.equality)?)
      (use f(1,2) l'(6) in \<open>auto simp: drop_owner_def L\<close>)
qed

lemma TransferToken_sle_fields:
  "getFieldH256 f (TransferToken_sle dest n obj) = getFieldH256 f obj"
  "getAccountID sfOwner (TransferToken_sle dest n obj) = dest"
  "getFieldU64 f (TransferToken_sle dest n obj) = (if f = sfOwnerTokenIndex then n else getFieldU64 f obj)"
  "getFieldArray f (TransferToken_sle dest n obj) = getFieldArray f obj"
  by (simp_all add: TransferToken_sle_def Let_def)

text \<open>The view after the token was given to its new owner.\<close>

lemma given:
  assumes X: "registry V3 = X\<lparr>owned := (owned X)\<lparr>e_pos := (e_pos (owned X))(t \<mapsto> p)\<rparr>\<rparr>"
    and t: "V3 (nToken t) = Some tk" "getFieldH256 sfAssetID tk = a"
    and n: "n = e_count (owned X) (a, dest)"
    and c: "counted V3 V4 a dest (n + 1) (assets_of (add_owner a dest (registry V3)))"
    and V5: "V5 = V4(nOwnerIndex a dest n \<mapsto> setFieldH256 sfTokenID t no_fields, nToken t \<mapsto> TransferToken_sle dest n tk)"
  shows "nf_typed V5" "registry V5 = give_token a dest t X"
proof -
  have "nf_typed V4" "V4 (nToken t) = Some tk" using countedD [OF c] sideD(2) [of V3 V4] t(1) by auto
  then show "nf_typed V5" unfolding V5 by (simp add: nf_typed_def TransferToken_sle_fields)
  have p: "e_pos (tokens_of X) t = Some (a, getFieldU64 sfTokenIndex tk)"
    using arg_cong [OF X, of "\<lambda>L. e_pos (tokens_of L) t"] t by (simp add: registry_def)
  have a: "assets_of (add_owner a dest (registry V3)) = assets_of (add_owner a dest X)"
    unfolding X by (simp add: add_owner_def)
  have R4: "registry V4 = X\<lparr>owned := (owned X)\<lparr>e_count := (e_count (owned X))((a, dest) := n + 1), e_pos := (e_pos (owned X))(t \<mapsto> p)\<rparr>,
      assets_of := assets_of (add_owner a dest X)\<rparr>"
    unfolding registry_counted [OF c] a unfolding X by simp
  show "registry V5 = give_token a dest t X"
    unfolding V5 registry_upd(3,4) R4 give_token_def enum_push_def
    by (rule Registry.equality; (rule Enum.equality)?) (use p in \<open>auto simp: TransferToken_sle_fields t n add_owner_def\<close>)
qed

lemma take_token_counts:
  "e_count (assets_of (take_token a w t L)) v \<le> e_count (assets_of L) v"
  "v \<noteq> w \<Longrightarrow> e_count (owned (take_token a w t L)) (a, v) = e_count (owned L) (a, v)"
  by (simp_all add: take_token_def drop_owner_def count_remove Let_def)

text \<open>Counting the token for its new owner, and the rest of the transfer.\<close>

lemma give_does:
  assumes r: "reps sha m0 m V3" and ty: "nf_typed V3" and ok: "enum_ok (assets_of X)"
    and X: "registry V3 = X\<lparr>owned := (owned X)\<lparr>e_pos := (e_pos (owned X))(t \<mapsto> p)\<rparr>\<rparr>"
    and t: "V3 (nToken t) = Some tk" "getFieldH256 sfAssetID tk = a"
    and dest: "V3 (nAccount dest) \<noteq> None" "V3 (nOwnerIndex a dest (e_count (owned X) (a, dest))) = None"
    and n: "0 \<le> e_count (owned X) (a, dest)" "e_count (owned X) (a, dest) < 2 ^ 64 - 1" "e_count (assets_of X) dest < 2 ^ 64 - 1"
  shows "does (rbind (countOwnerToken sha a dest m) (\<lambda>(destTokenNum, m).
      rbind (enterIndex (nf_keylet sha (nOwnerIndex a dest destTokenNum)) t m) (\<lambda>m.
      rbind (update (nf_keylet sha (nToken t)) (TransferToken_sle dest destTokenNum) m) (\<lambda>m. Inr (tesSUCCESS, m)))))
    (handled sha m0 (give_token a dest t X))"
proof (rule does_bind, rule countOwnerToken_does [OF r], goal_cases)
  case 4
  have "u64_of sfAssetNumber (V3 (nAccount dest)) = e_count (assets_of (registry V3)) dest" by (simp add: registry_def)
  then show ?case using n(3) by (simp add: X)
next
  case (7 x)
  have e: "e_count (owned (registry V3)) (a, dest) = e_count (owned X) (a, dest)" unfolding X by simp
  from 7 obtain m1 V4 where x: "x = (e_count (owned X) (a, dest), m1)" and r4: "reps sha m0 m1 V4"
    and c: "counted V3 V4 a dest (e_count (owned X) (a, dest) + 1) (assets_of (add_owner a dest (registry V3)))"
    unfolding e by (cases x) auto
  note sd = sideD [OF conjunct1 [OF countedD [OF c]]]
  show ?case unfolding x prod.case
    by (rule does_enterIndex [OF r4], simp add: sd dest, simp, simp, rule does_update, assumption, simp add: sd t, simp)
      (simp add: sd t(1) handled_success [OF _ given [OF X t refl c refl]])
qed (use ty ok dest n in \<open>simp_all add: X\<close>)

lemma TransferToken_does:
  assumes s: "nf_start sha m V" and key: "tokenKey sha tx = nf_keylet sha (nToken t)"
    and acct: "V (nAccount (getAccountID sfDestination (tx_fields tx))) \<noteq> None"
  shows "does (TransferToken_doApply sha tx m) (\<lambda>(ter, m'). case V (nToken t) of None \<Rightarrow> ter = tefNO_TOKEN \<and> m' = m
    | Some tk \<Rightarrow> handled sha m (transfer_token (getFieldH256 sfAssetID tk) (getAccountID sfOwner tk) t
        (getAccountID sfDestination (tx_fields tx)) (registry V)) (ter, m'))"
proof (cases "V (nToken t)")
  case None
  then show ?thesis
    unfolding TransferToken_doApply_def Let_def key reps_peek [OF nf_startD(1) [OF s]] by simp
next
  case (Some tk)
  note d = nf_startD [OF s]
  define dest where dst: "dest = getAccountID sfDestination (tx_fields tx)"
  obtain a w sa so lo oo where R: "token_read V t tk a w sa so lo oo" using token_readI [OF s Some refl refl] by metis
  note f = token_readD [OF R]
  obtain oa where l': "V (nToken (getFieldH256 sfTokenID oo)) = Some oa" "getFieldH256 sfAssetID oa = a" "getAccountID sfOwner oa = w"
      "getFieldH256 sfTokenID oo = t \<longleftrightarrow> getFieldU64 sfOwnerTokenIndex tk = e_count (owned (registry V)) (a, w) - 1"
    using token_last [OF d(3) R] by blast
  let ?k = "e_count (owned (registry V)) (a, w) - 1" and ?j = "getFieldU64 sfOwnerTokenIndex tk" and ?l = "getFieldH256 sfTokenID oo"
  let ?X = "take_token a w t (registry V)"
  note tk = taken [OF f(1) f(2,3) [symmetric] refl f(4) refl f(11) refl l' _ refl refl]
  have last: "lastToken (nf_keylet sha (nOwnerIndex a w ?k)) m = Some ?l"
    using l'(1) by (simp add: lastToken_reps [OF d(1)] f)
  show ?thesis
  proof (cases "TransferToken_checkPermission sha tx m tk sa \<and> dest \<noteq> w")
    case False
    then show ?thesis
      unfolding TransferToken_doApply_def Let_def key reps_peek [OF d(1)] f nf_keylets nf_keylet_key [where sha = sha] dst [symmetric]
      by (auto simp: f handled_fail [OF d(1)])
  next
    case True
    have p: "e_pos (owned (registry V)) t = Some ((a, w), ?j)" using f by (simp add: registry_def)
    have n: "0 \<le> e_count (owned ?X) (a, dest)" "e_count (owned ?X) (a, dest) < 2 ^ 64 - 1" "e_count (assets_of ?X) dest < 2 ^ 64 - 1"
      using True enum_okD(3) [OF nf_okD(2) [OF d(3)], of "(a, dest)"] d(4) take_token_counts(1) [of a w t "registry V" dest]
      by (auto simp: take_token_counts(2) nf_room_def intro: le_less_trans)
    show ?thesis
      unfolding TransferToken_doApply_def Let_def key reps_peek [OF d(1)] f option.case nf_keylets nf_keylet_key [where sha = sha]
        last prod.case dst [symmetric] key_of_id
    proof (simp only: True f(7) simp_thms if_False option.case prod.case, rule does_bind, rule discountOwnerToken_does [OF d(1)], goal_cases)
      case (4 m1)
      then obtain V1 where r: "reps sha m m1 V1" and c: "counted V V1 a w ?k
          (if ?k \<noteq> 0 \<or> w = getAccountID sfIssuer sa then assets_of (registry V) else assets_of (drop_owner a w (registry V)))"
        by blast
      note sd = sideD [OF conjunct1 [OF countedD [OF c]]] and tk = tk [OF c]
      let ?V3 = "filled (V1(nOwnerIndex a w ?k := None)) (nOwnerIndex a w ?j) sfOwnerTokenIndex ?j ?k ?l"
      have idx: "?V3 (nOwnerIndex a dest (e_count (owned ?X) (a, dest))) = None"
        using tk(4) [of dest] registry_index(2) [OF d(3), of a dest] True by (simp add: take_token_counts registry_def)
      have acc: "?V3 (nAccount dest) \<noteq> None" using tk(3) [of dest] acct dst by simp
      note g = give_does [OF _ tk(1) nf_okD(3) [OF take_token_ok(1) [OF d(3) registry_linked p]] tk(5) tk(2) f(2) acc idx n]
      show ?case
        unfolding transfer_token_def case_prod_eta
        by (rule does_erase [OF r], simp add: sd f, simp, rule does_fillIndex, assumption,
            simp add: sd f del: not_None_eq, simp add: sd l', simp, simp, rule g, assumption)
    qed (use d(2) nf_okD(3) [OF d(3)] f in \<open>simp_all\<close>)
  qed
qed

end
