(* ===== verification/NFTransact.thy ===== *)
theory NFTransact
  imports Signing NFLedger
begin

text \<open>
  Transactions on assets and tokens as a whole: the registry after each type of transaction
  (\<open>nf_spec\<close>), the invariant of the ledger (\<open>nf_post\<close>), who may move a token, and the run of a
  transaction through \<^verbatim>\<open>Transactor::operator()\<close> with its fee.
\<close>

subsection \<open>All types of transaction\<close>

definition holder :: "Registry \<Rightarrow> nat \<Rightarrow> (nat \<times> int) option" where
  "holder L t = map_option fst (e_pos (owned L) t)"

fun nf_spec :: "NFType \<Rightarrow> (HashArg list \<Rightarrow> nat) \<Rightarrow> STTx \<Rightarrow> Registry \<Rightarrow> Registry" where
  "nf_spec ttASSET_CREATE sha tx L =
     create_asset (getNFAssetIndex sha (tx_account tx) (getFieldVL sfIdent (tx_fields tx))) (tx_account tx) L"
| "nf_spec ttASSET_DESTROY sha tx L = destroy_asset (getFieldH256 sfAssetID (tx_fields tx)) (tx_account tx) L"
| "nf_spec ttTOKEN_CREATE sha tx L =
     create_token (getFieldH256 sfAssetID (tx_fields tx)) (getAccountID sfOwner (tx_fields tx))
       (getNFTokenIndex sha (getFieldH256 sfAssetID (tx_fields tx)) (getFieldVL sfIdent (tx_fields tx))) L"
| "nf_spec ttTOKEN_DESTROY sha tx L =
     (let t = kl_key (tokenKey sha tx); (a, w) = the (holder L t) in destroy_token a w t L)"
| "nf_spec ttTOKEN_REVOKE sha tx L =
     (let t = kl_key (tokenKey sha tx); (a, w) = the (holder L t) in destroy_token a w t L)"
| "nf_spec ttTOKEN_TRANSFER sha tx L =
     (let t = kl_key (tokenKey sha tx); (a, w) = the (holder L t) in
      transfer_token a w t (getAccountID sfDestination (tx_fields tx)) L)"
| "nf_spec _ sha tx L = L"

text \<open>The invariant of the ledger, and what a transaction may rely on after the earlier checks.\<close>

definition nf_post :: "(HashArg list \<Rightarrow> nat) \<Rightarrow> State \<Rightarrow> bool" where
  "nf_post sha m \<longleftrightarrow> nf_wf sha m \<and> nf_typed (view sha m) \<and> nf_ok (registry (view sha m))"

definition nf_checked :: "NFType \<Rightarrow> (HashArg list \<Rightarrow> nat) \<Rightarrow> STTx \<Rightarrow> State \<Rightarrow> bool" where
  "nf_checked ty sha tx m \<longleftrightarrow> nf_room (registry (view sha m)) \<and>
     exists (keylet_account sha (tx_account tx)) m \<and> nf_preclaim ty sha tx m = tesSUCCESS \<and>
     short_memos (getFieldArray sfMemos (tx_fields tx))"

definition nf_pre :: "NFType \<Rightarrow> (HashArg list \<Rightarrow> nat) \<Rightarrow> STTx \<Rightarrow> State \<Rightarrow> bool" where
  "nf_pre ty sha tx m \<longleftrightarrow> collision_free sha \<and> nf_post sha m \<and> nf_checked ty sha tx m"

lemma nf_pre_start: "nf_pre ty sha tx m \<Longrightarrow> nf_start sha m (view sha m)"
  by (simp add: nf_pre_def nf_post_def nf_checked_def nf_start_def reps_def)

lemma view_exists: "exists (nf_keylet sha x) m \<longleftrightarrow> view sha m x \<noteq> None"
  by (simp add: exists_def view_def peek_def)

lemma holder_token: "view sha m (nToken t) = Some tk \<Longrightarrow>
    holder (registry (view sha m)) t = Some (getFieldH256 sfAssetID tk, getAccountID sfOwner tk)"
  by (simp add: holder_def registry_def)

text \<open>What the preclaim checks establish.\<close>

lemma preclaim_facts:
  "nf_preclaim ttTOKEN_CREATE sha tx m = tesSUCCESS \<Longrightarrow> view sha m (nAccount (getAccountID sfOwner (tx_fields tx))) \<noteq> None"
  "nf_preclaim ttTOKEN_TRANSFER sha tx m = tesSUCCESS \<Longrightarrow> view sha m (nAccount (getAccountID sfDestination (tx_fields tx))) \<noteq> None"
  "ty \<in> {ttASSET_DESTROY, ttASSET_SET} \<Longrightarrow> nf_preclaim ty sha tx m = tesSUCCESS \<Longrightarrow>
     \<exists>obj. view sha m (nAsset (getFieldH256 sfAssetID (tx_fields tx))) = Some obj \<and> getAccountID sfIssuer obj = tx_account tx"
  by (auto simp: CreateToken_preclaim_def TransferToken_preclaim_def DestroyAsset_preclaim_def nf_keylets view_exists
      nf_keylet_key [where sha = sha] view_def [symmetric] split: if_splits option.splits)

lemma nf_doApply_does:
  assumes i: "nf_pre ty sha tx m"
  shows "does (nf_doApply ty sha tx m) (handled sha m (nf_spec ty sha tx (registry (view sha m))))"
proof -
  note s = nf_pre_start [OF i]
  have p: "nf_preclaim ty sha tx m = tesSUCCESS" "short_memos (getFieldArray sfMemos (tx_fields tx))"
    "view sha m (nAccount (tx_account tx)) \<noteq> None"
    using i by (auto simp: nf_pre_def nf_checked_def nf_keylets view_exists)
  obtain t where t: "tokenKey sha tx = nf_keylet sha (nToken t)" by (rule tokenKey)
  have gone: "handled sha m L (tefNO_TOKEN, m)" for L by (rule handled_fail [OF nf_startD(1) [OF s]]) simp_all
  have D: "does (DestroyToken_doApply sha perm tx m) (handled sha m
      (let t = kl_key (tokenKey sha tx); (a, w) = the (holder (registry (view sha m)) t) in destroy_token a w t (registry (view sha m))))" for perm
    by (rule does_mono [OF DestroyToken_does [OF s t]])
      (auto simp: t gone holder_token split: option.splits)
  show ?thesis
  proof (cases ty)
    case ttTOKEN_TRANSFER
    with p(1) have "view sha m (nAccount (getAccountID sfDestination (tx_fields tx))) \<noteq> None" by (simp add: preclaim_facts)
    from TransferToken_does [OF s t this] show ?thesis unfolding ttTOKEN_TRANSFER nf_doApply.simps nf_spec.simps
      by (rule does_mono) (auto simp: t gone holder_token split: option.splits)
  next
    case ttASSET_DESTROY
    from preclaim_facts(3) [of ty, OF _ p(1)] ttASSET_DESTROY
    obtain obj where "view sha m (nAsset (getFieldH256 sfAssetID (tx_fields tx))) = Some obj" "getAccountID sfIssuer obj = tx_account tx" by auto
    from DestroyAsset_does [OF s this] show ?thesis unfolding ttASSET_DESTROY nf_doApply.simps nf_spec.simps
      by (rule does_mono) auto
  next
    case ttASSET_SET
    from preclaim_facts(3) [of ty, OF _ p(1)] ttASSET_SET
    obtain obj where "view sha m (nAsset (getFieldH256 sfAssetID (tx_fields tx))) = Some obj" by auto
    from SetAsset_does [OF s this] show ?thesis unfolding ttASSET_SET by simp
  qed (use p CreateAsset_does [OF s] CreateToken_does [OF s] ApproveAsset_does [OF s] ApproveToken_does [OF s] SetToken_does [OF s]
      D preclaim_facts(1) [of sha tx m] in simp_all)
qed

subsection \<open>What success tells\<close>

text \<open>The conditions under which a token may change hands.\<close>

definition may_move :: "NFType \<Rightarrow> (HashArg list \<Rightarrow> nat) \<Rightarrow> STTx \<Rightarrow> State \<Rightarrow> nat \<Rightarrow> bool" where
  "may_move ty sha tx m t \<longleftrightarrow>
     (let account = tx_account tx in
      case view sha m (nToken t) of
        None \<Rightarrow> ty = ttTOKEN_CREATE \<and>
          (\<exists>asset. view sha m (nAsset (getFieldH256 sfAssetID (tx_fields tx))) = Some asset \<and> getAccountID sfIssuer asset = account)
      | Some token \<Rightarrow> t = kl_key (tokenKey sha tx) \<and>
          (\<exists>asset. view sha m (nAsset (getFieldH256 sfAssetID token)) = Some asset \<and>
             (let flags = getFieldU32 sfFlags asset; owner = getAccountID sfOwner token in
              (ty = ttTOKEN_TRANSFER \<and> flags AND tfTransferToken \<noteq> 0 \<and>
                 (owner = account \<or> (isFieldPresent sfApproved token \<and> getAccountID sfApproved token = account) \<or>
                  view sha m (nAuth (getFieldH256 sfAssetID token) owner account) \<noteq> None)) \<or>
              (ty = ttTOKEN_DESTROY \<and> flags AND tfDestroyToken \<noteq> 0 \<and> owner = account) \<or>
              (ty = ttTOKEN_REVOKE \<and> flags AND tfRevokeToken \<noteq> 0 \<and> getAccountID sfIssuer asset = account))))"

lemma CreateAsset_success: "CreateAsset_doApply sha tx m = Inr (tesSUCCESS, m') \<Longrightarrow>
    view sha m (nAsset (getNFAssetIndex sha (tx_account tx) (getFieldVL sfIdent (tx_fields tx)))) = None"
  unfolding CreateAsset_doApply_def Let_def nf_keylets view_exists by (simp split: if_splits)

lemma CreateToken_success: "CreateToken_doApply sha tx m = Inr (tesSUCCESS, m') \<Longrightarrow>
    view sha m (nToken (getNFTokenIndex sha (getFieldH256 sfAssetID (tx_fields tx)) (getFieldVL sfIdent (tx_fields tx)))) = None \<and>
    (\<exists>asset. view sha m (nAsset (getFieldH256 sfAssetID (tx_fields tx))) = Some asset \<and> getAccountID sfIssuer asset = tx_account tx)"
  unfolding CreateToken_doApply_def Let_def nf_keylets nf_keylet_key [where sha = sha] view_exists view_def [symmetric]
  by (simp split: if_splits option.splits)

lemma DestroyAsset_success: "DestroyAsset_doApply sha tx m = Inr (tesSUCCESS, m') \<Longrightarrow>
    view sha m (nAsset (getFieldH256 sfAssetID (tx_fields tx))) = Some asset \<Longrightarrow> \<not> getFieldU64 sfTokenNumber asset > 0"
  unfolding DestroyAsset_doApply_def Let_def nf_keylet_key [where sha = sha] view_def by (simp split: if_splits)

lemma DestroyToken_success: "DestroyToken_doApply sha perm tx m = Inr (tesSUCCESS, m') \<Longrightarrow>
    tokenKey sha tx = nf_keylet sha (nToken t) \<Longrightarrow>
    \<exists>token asset. view sha m (nToken t) = Some token \<and> view sha m (nAsset (getFieldH256 sfAssetID token)) = Some asset \<and> perm token asset"
  unfolding DestroyToken_doApply_def Let_def nf_keylet_key [where sha = sha] view_def
  by (simp split: if_splits option.splits)

lemma TransferToken_success: "TransferToken_doApply sha tx m = Inr (tesSUCCESS, m') \<Longrightarrow>
    tokenKey sha tx = nf_keylet sha (nToken t) \<Longrightarrow>
    \<exists>token asset. view sha m (nToken t) = Some token \<and> view sha m (nAsset (getFieldH256 sfAssetID token)) = Some asset \<and>
      TransferToken_checkPermission sha tx m token asset"
  unfolding TransferToken_doApply_def Let_def nf_keylet_key [where sha = sha] view_def
  by (simp split: if_splits option.splits)

subsection \<open>The invariant\<close>

lemma token_places: "view sha m (nToken t) = Some tk \<Longrightarrow>
    e_pos (owned (registry (view sha m))) t = Some ((getFieldH256 sfAssetID tk, getAccountID sfOwner tk), getFieldU64 sfOwnerTokenIndex tk) \<and>
    e_pos (tokens_of (registry (view sha m))) t = Some (getFieldH256 sfAssetID tk, getFieldU64 sfTokenIndex tk)"
  by (simp add: registry_def)

lemma nf_spec_ok:
  assumes i: "nf_pre ty sha tx m" and d: "nf_doApply ty sha tx m = Inr (tesSUCCESS, m')"
  shows "nf_ok (nf_spec ty sha tx (registry (view sha m)))"
proof -
  let ?L = "registry (view sha m)"
  note ok = nf_startD(3) [OF nf_pre_start [OF i]] and l = registry_linked
  obtain t where t: "tokenKey sha tx = nf_keylet sha (nToken t)" by (rule tokenKey)
  have D: "nf_ok (let t = kl_key (tokenKey sha tx); (a, w) = the (holder ?L t) in destroy_token a w t ?L)"
    if "DestroyToken_doApply sha perm tx m = Inr (tesSUCCESS, m')" for perm
  proof -
    from DestroyToken_success [OF that t] obtain tk where "view sha m (nToken t) = Some tk" by blast
    then show ?thesis using destroy_token_ok [OF ok l] token_places [of sha m t tk] by (simp add: t holder_def)
  qed
  show ?thesis
  proof (cases ty)
    case ttASSET_CREATE
    then show ?thesis using create_asset_ok(1) [OF ok l] CreateAsset_success [of sha tx m m'] d by (simp add: registry_def)
  next
    case ttTOKEN_CREATE
    then show ?thesis using create_token_ok [OF ok] CreateToken_success [of sha tx m m'] d by (simp add: registry_def)
  next
    case ttTOKEN_TRANSFER
    then obtain tk where "view sha m (nToken t) = Some tk" using TransferToken_success [OF _ t, of m m'] d by auto
    then show ?thesis using transfer_token_ok [OF ok l] token_places [of sha m t tk] ttTOKEN_TRANSFER by (simp add: t holder_def)
  next
    case ttASSET_DESTROY
    then have "nf_preclaim ttASSET_DESTROY sha tx m = tesSUCCESS" using i by (simp add: nf_pre_def nf_checked_def)
    from preclaim_facts(3) [of ttASSET_DESTROY, OF _ this] obtain asset where a: "view sha m (nAsset (getFieldH256 sfAssetID (tx_fields tx))) = Some asset"
      "getAccountID sfIssuer asset = tx_account tx" by auto
    have "getFieldU64 sfTokenNumber asset = 0"
      using DestroyAsset_success [OF _ a(1), of m'] enum_okD(3) [OF nf_okD(1) [OF ok], of "getFieldH256 sfAssetID (tx_fields tx)"]
        d ttASSET_DESTROY a(1) by (simp add: registry_def)
    then show ?thesis using destroy_asset_ok [OF ok l] a ttASSET_DESTROY by (simp add: registry_def)
  qed (use d D ok in simp_all)
qed

text \<open>The run of a transactor, with everything later statements need.\<close>

lemma nf_doApply_runs:
  assumes i: "nf_pre ty sha tx m"
  shows "\<exists>ter m'. nf_doApply ty sha tx m = Inr (ter, m') \<and> ter \<noteq> tefINTERNAL \<and> by_ops m m' \<and>
    balances m' = balances m \<and> sequences m' = sequences m \<and> (ter \<noteq> tesSUCCESS \<longrightarrow> m' = m) \<and>
    (ter = tesSUCCESS \<longrightarrow> nf_post sha m' \<and> registry (view sha m') = nf_spec ty sha tx (registry (view sha m)))"
proof -
  obtain ter m' V' where e: "nf_doApply ty sha tx m = Inr (ter, m')" "ter \<noteq> tefINTERNAL" "ter \<noteq> tesSUCCESS \<longrightarrow> m' = m"
    and r: "reps sha m m' V'" and V: "ter = tesSUCCESS \<longrightarrow> nf_typed V' \<and> registry V' = nf_spec ty sha tx (registry (view sha m))"
    using nf_doApply_does [OF i] by (auto simp: does_def handled_def)
  have v: "view sha m' = V'" using r by (simp add: reps_def)
  have "ter = tesSUCCESS \<longrightarrow> nf_post sha m' \<and> registry (view sha m') = nf_spec ty sha tx (registry (view sha m))"
    using V r nf_spec_ok [OF i, of m'] e(1) by (auto simp: v nf_post_def reps_def)
  then show ?thesis using e r by (auto simp: reps_def)
qed

text \<open>Changes of balances and sequence numbers, and new accounts.\<close>

lemma account_view:
  assumes c: "collision_free sha" and wf: "nf_wf sha m" and p: "peek (keylet_account sha a) m = Some obj"
    and u: "update (keylet_account sha a) f m = Inr m'"
  shows "nf_wf sha m'" "view sha m' = (view sha m)(nAccount a \<mapsto> f obj)"
proof -
  have v: "view sha m (nAccount a) = Some obj" using p by (simp add: view_def nf_keylet.simps)
  then obtain e where e: "m (kl_key (nf_keylet sha (nAccount a))) = Some e" "sle_type e = kl_type (nf_keylet sha (nAccount a))" "sle_obj e = obj"
    by (auto simp: view_iff)
  have m': "m' = m(kl_key (nf_keylet sha (nAccount a)) \<mapsto> e\<lparr>sle_obj := f obj\<rparr>)"
    using u e by (simp add: update_def nf_keylet.simps(1) [symmetric])
  show "nf_wf sha m'" unfolding m'
    by (rule nf_wf_upd [OF c wf]) (use e key_nonzero [OF wf v] v in simp_all)
  show "view sha m' = (view sha m)(nAccount a \<mapsto> f obj)" unfolding m'
    using view_upd(1) [OF c, of "e\<lparr>sle_obj := f obj\<rparr>" "nAccount a" m] e by simp
qed

lemma account_registry:
  assumes "V (nAccount a) = Some obj" "f_u64 obj' = f_u64 obj"
  shows "registry (V(nAccount a \<mapsto> obj')) = registry V" "nf_typed (V(nAccount a \<mapsto> obj')) \<longleftrightarrow> nf_typed V"
  using assms by (auto simp: registry_def getFieldU64_def fun_eq_iff nf_typed_def)

lemma nf_pre_account:
  assumes i: "nf_pre ty sha tx m" and p: "peek (keylet_account sha a) m = Some obj" and f: "fee_change f"
    and u: "update (keylet_account sha a) f m = Inr m'"
  shows "nf_pre ty sha tx m'"
proof -
  have c: "collision_free sha" "nf_wf sha m" using i by (simp_all add: nf_pre_def nf_post_def)
  note v = account_view [OF c p u]
  have a: "view sha m (nAccount a) = Some obj" using p by (simp add: view_def nf_keylet.simps)
  note r = account_registry [where V = "view sha m" and obj' = "f obj", OF a]
  have x: "exists (nf_keylet sha x) m' \<longleftrightarrow> exists (nf_keylet sha x) m" for x using a by (simp add: view_exists v(2))
  have k: "peek (nf_keylet sha (nAsset b)) m' = peek (nf_keylet sha (nAsset b)) m" for b
    using v(2) by (simp add: view_def [symmetric])
  have "nf_preclaim ty sha tx m' = nf_preclaim ty sha tx m"
    by (cases ty) (simp_all add: CreateToken_preclaim_def TransferToken_preclaim_def DestroyAsset_preclaim_def
        ApproveAsset_preclaim_def Let_def nf_keylets nf_keylet_key [where sha = sha] x k)
  then show ?thesis
    using i v f r unfolding nf_pre_def nf_post_def nf_checked_def nf_keylets x fee_change_def by simp
qed

interpretation nf: session_handler sha "nf_pre ty sha tx" "nf_post sha" "nf_doApply ty sha tx" for ty sha tx
proof
  fix m assume "nf_pre ty sha tx m"
  then show "nf_post sha m" by (simp add: nf_pre_def)
next
  fix m assume "nf_pre ty sha tx m"
  from nf_doApply_runs [OF this] show "\<exists>ter m'. nf_doApply ty sha tx m = Inr (ter, m') \<and> balances m' = balances m \<and>
      sequences m' = sequences m \<and> (ter = tesSUCCESS \<longrightarrow> nf_post sha m')" by auto
next
  fix m a assume "nf_pre ty sha tx m"
  then show "getAccountRootIndex sha a \<noteq> 0" by (simp add: nf_pre_def getAccountRootIndex_def collision_freeD)
next
  fix m ter m' assume "nf_pre ty sha tx m" "nf_doApply ty sha tx m = Inr (ter, m')"
  then show "by_ops m m'" using nf_doApply_runs by fastforce
qed (rule nf_pre_account)

subsection \<open>Histories\<close>

text \<open>
  Ledgers that arise from one without assets by new accounts, changes of balances and sequence
  numbers, and successful transactions on assets and tokens.
\<close>

definition nf_genesis :: "(HashArg list \<Rightarrow> nat) \<Rightarrow> State \<Rightarrow> bool" where
  "nf_genesis sha m \<longleftrightarrow> nf_wf sha m \<and> (\<forall>x. (\<forall>w. x \<noteq> nAccount w) \<longrightarrow> view sha m x = None) \<and>
     (\<forall>w. u64_of sfAssetNumber (view sha m (nAccount w)) = 0)"

inductive nf_reachable :: "(HashArg list \<Rightarrow> nat) \<Rightarrow> State \<Rightarrow> bool" for sha where
  genesis: "nf_genesis sha m \<Longrightarrow> nf_reachable sha m"
| account: "nf_reachable sha m \<Longrightarrow> insert_sle (keylet_account sha a) obj m = Inr m' \<Longrightarrow>
    \<not> isFieldPresent sfAssetNumber obj \<Longrightarrow> nf_reachable sha m'"
| funds: "nf_reachable sha m \<Longrightarrow> peek (keylet_account sha a) m = Some obj \<Longrightarrow> fee_change f \<Longrightarrow>
    update (keylet_account sha a) f m = Inr m' \<Longrightarrow> nf_reachable sha m'"
| transaction: "nf_reachable sha m \<Longrightarrow> nf_checked ty sha tx m \<Longrightarrow> nf_doApply ty sha tx m = Inr (tesSUCCESS, m') \<Longrightarrow>
    nf_reachable sha m'"

lemma genesis_post: "nf_genesis sha m \<Longrightarrow> nf_post sha m"
proof -
  assume g: "nf_genesis sha m"
  then have n: "view sha m (nAsset a) = None" "view sha m (nToken t) = None" "view sha m (nOwner a w) = None"
    "view sha m (nIndex a i) = None" "view sha m (nOwnerIndex a w i) = None" "view sha m (nAssetIndex w i) = None"
    "u64_of sfAssetNumber (view sha m (nAccount w)) = 0" for a t w i
    by (simp_all add: nf_genesis_def)
  show ?thesis using g unfolding nf_post_def nf_genesis_def
    by (auto simp: nf_typed_def nf_ok_def enum_ok_def is_owner_def registry_def n)
qed

lemma insert_account_post:
  assumes c: "collision_free sha" and i: "nf_post sha m" and e: "insert_sle (keylet_account sha a) obj m = Inr m'"
    and o: "\<not> isFieldPresent sfAssetNumber obj"
  shows "nf_post sha m'"
proof -
  let ?k = "nf_keylet sha (nAccount a)"
  have n: "m (kl_key ?k) = None" and m': "m' = m(kl_key ?k \<mapsto> make_sle ?k obj)"
    using e by (auto simp: insert_sle_def nf_keylet.simps(1) [symmetric] split: option.splits)
  have t: "sle_type (make_sle ?k obj) = kl_type ?k" by (simp add: make_sle_def)
  have "kl_key ?k \<noteq> 0" by (simp add: nf_keylet.simps keylet_account_def getAccountRootIndex_def collision_freeD [OF c])
  then have wf: "nf_wf sha m'" unfolding m' using i nf_wf_upd [OF c _ t] by (simp add: nf_post_def)
  have v: "view sha m' = (view sha m)(nAccount a \<mapsto> obj)" unfolding m' using view_upd(1) [OF c t, of m] n by (simp add: make_sle_def)
  have "view sha m (nAccount a) = None" using n view_iff [of sha m "nAccount a"] by (cases "view sha m (nAccount a)") auto
  then have "registry (view sha m') = registry (view sha m)"
    using o unfolding v by (auto simp: registry_def fun_eq_iff getFieldU64_def isFieldPresent_def get_or_def)
  moreover have "nf_typed (view sha m')" using i unfolding v nf_post_def by (simp add: nf_typed_def)
  ultimately show ?thesis using i wf by (simp add: nf_post_def)
qed

lemma funds_post:
  assumes c: "collision_free sha" and i: "nf_post sha m" and p: "peek (keylet_account sha a) m = Some obj"
    and f: "fee_change f" and u: "update (keylet_account sha a) f m = Inr m'"
  shows "nf_post sha m'"
proof -
  have a: "view sha m (nAccount a) = Some obj" using p by (simp add: view_def nf_keylet.simps)
  note v = account_view [OF c _ p u] and r = account_registry [where V = "view sha m" and obj' = "f obj", OF a]
  show ?thesis using i v r f by (simp add: nf_post_def fee_change_def)
qed

lemma reachable_post: "nf_reachable sha m \<Longrightarrow> collision_free sha \<Longrightarrow> nf_post sha m"
proof (induction rule: nf_reachable.induct)
  case (transaction m ty tx m')
  then have "nf_pre ty sha tx m" by (simp add: nf_pre_def)
  from nf_doApply_runs [OF this] transaction(3) show ?case by auto
qed (blast intro: genesis_post insert_account_post funds_post)+

subsection \<open>An example ledger\<close>

lemma get_setAmount [simp]:
  "getFieldU32 f (setFieldAmount g v obj) = getFieldU32 f obj" "getFieldU64 f (setFieldAmount g v obj) = getFieldU64 f obj"
  "getFieldH256 f (setFieldAmount g v obj) = getFieldH256 f obj" "getAccountID f (setFieldAmount g v obj) = getAccountID f obj"
  "getFieldVL f (setFieldAmount g v obj) = getFieldVL f obj" "getFieldArray f (setFieldAmount g v obj) = getFieldArray f obj"
  by (simp_all add: st_fields)

fun place :: "(HashArg list \<Rightarrow> nat) \<Rightarrow> (NFEntry \<times> STObject) list \<Rightarrow> State" where
  "place sha [] = Map.empty"
| "place sha ((x, obj) # xs) = (place sha xs)(kl_key (nf_keylet sha x) \<mapsto> make_sle (nf_keylet sha x) obj)"

lemma place_view:
  assumes c: "collision_free sha"
  shows "\<forall>p \<in> set xs. in_space sha (fst p) \<Longrightarrow> nf_wf sha (place sha xs) \<and> view sha (place sha xs) = map_of xs"
proof (induction xs)
  case Nil
  show ?case by (auto simp: nf_wf_def view_def peek_def lookup_def fun_eq_iff)
next
  case (Cons p xs)
  obtain x obj where p: "p = (x, obj)" by fastforce
  let ?k = "nf_keylet sha x"
  have ih: "nf_wf sha (place sha xs)" "view sha (place sha xs) = map_of xs" "in_space sha x" using Cons p by simp_all
  obtain s args where k: "kl_key ?k = sha (hSpace s # args)" "space_type s = Some (kl_type ?k)"
    using ih(3) unfolding in_space_def by blast
  have t: "sle_type (make_sle ?k obj) = kl_type ?k" by (simp add: make_sle_def)
  have "case place sha xs (kl_key ?k) of None \<Rightarrow> True | Some e' \<Rightarrow> sle_type e' = sle_type (make_sle ?k obj)"
    using ih(1) k t unfolding nf_wf_def by (cases "place sha xs (kl_key ?k)") auto
  note v = view_upd(1) [where m = "place sha xs", OF c t this]
  have "nf_wf sha ((place sha xs)(kl_key ?k \<mapsto> make_sle ?k obj))"
    by (rule nf_wf_upd [OF c ih(1) t]) (use ih(3) k collision_freeD(2) [OF c] in simp_all)
  moreover have "sle_obj (make_sle ?k obj) = obj" by (simp add: make_sle_def)
  ultimately show ?case unfolding p place.simps using v ih(2) by (simp del: fun_upd_apply)
qed

text \<open>Account 1 has issued an asset and holds its only token; account 2 has nothing.\<close>

definition asset0 :: nat where "asset0 = getNFAssetIndex sha0 1 [65]"
definition token0 :: nat where "token0 = getNFTokenIndex sha0 asset0 [7]"

definition entries0 :: "(NFEntry \<times> STObject) list" where
  "entries0 =
     [(nAccount 1, setFieldU32 sfSequence 1 (setFieldAmount sfBalance (drops_amount 1000) (setFieldU64 sfAssetNumber 1 no_fields))),
      (nAccount 2, setFieldAmount sfBalance (drops_amount 500) no_fields),
      (nAsset asset0, setFieldU32 sfFlags 1 (setAccountID sfIssuer 1 (setFieldU64 sfTokenNumber 1 no_fields))),
      (nOwner asset0 1, setFieldU64 sfAssetIndex 0 (setFieldU64 sfTokenNumber 1 no_fields)),
      (nAssetIndex 1 0, setFieldH256 sfAssetID asset0 no_fields),
      (nToken token0, setFieldU64 sfTokenIndex 0 (setFieldU64 sfOwnerTokenIndex 0 (setAccountID sfOwner 1
         (setFieldH256 sfAssetID asset0 no_fields)))),
      (nIndex asset0 0, setFieldH256 sfTokenID token0 no_fields),
      (nOwnerIndex asset0 1 0, setFieldH256 sfTokenID token0 no_fields)]"

definition transfer0 :: "int \<Rightarrow> int \<Rightarrow> STTx" where
  "transfer0 src dest =
     \<lparr>tx_fields = setAccountID sfDestination dest (setFieldH256 sfTokenID token0 (setFieldAmount sfFee (drops_amount 10)
        (setFieldU32 sfSequence 1 (setFieldVL sfSigningPubKey (signer_key0 src) (setAccountID sfAccount src no_fields))))), tx_id = 1\<rparr>"

lemma entries0_view: "nf_wf sha0 (place sha0 entries0)" "view sha0 (place sha0 entries0) = map_of entries0"
proof -
  have "\<forall>p \<in> set entries0. in_space sha0 (fst p)" unfolding entries0_def by (simp add: asset0_def token0_def)
  from place_view [OF sha0_free this] show "nf_wf sha0 (place sha0 entries0)" "view sha0 (place sha0 entries0) = map_of entries0"
    by simp_all
qed

lemma entries0_registry:
  "e_count (tokens_of (registry (map_of entries0))) a = (if a = asset0 then 1 else 0)"
  "e_at (tokens_of (registry (map_of entries0))) a i = (if a = asset0 \<and> i = 0 then Some token0 else None)"
  "e_pos (tokens_of (registry (map_of entries0))) t = (if t = token0 then Some (asset0, 0) else None)"
  "e_count (owned (registry (map_of entries0))) c = (if c = (asset0, 1) then 1 else 0)"
  "e_at (owned (registry (map_of entries0))) c i = (if c = (asset0, 1) \<and> i = 0 then Some token0 else None)"
  "e_pos (owned (registry (map_of entries0))) t = (if t = token0 then Some ((asset0, 1), 0) else None)"
  "e_count (assets_of (registry (map_of entries0))) w = (if w = 1 then 1 else 0)"
  "e_at (assets_of (registry (map_of entries0))) w i = (if w = 1 \<and> i = 0 then Some (asset0, 1) else None)"
  "e_pos (assets_of (registry (map_of entries0))) x = (if x = (asset0, 1) then Some (1, 0) else None)"
  "issuer_of (registry (map_of entries0)) a = (if a = asset0 then Some 1 else None)"
  by (cases c; cases x; simp add: registry_def entries0_def)+

lemma entries0_post: "nf_post sha0 (place sha0 entries0)"
proof -
  have "nf_ok (registry (map_of entries0))"
    unfolding nf_ok_def enum_ok_def is_owner_def entries0_registry by (auto split: if_splits)
  moreover have "nf_typed (map_of entries0)" by (simp add: nf_typed_def entries0_def isFieldPresent_def st_fields)
  ultimately show ?thesis using entries0_view by (simp add: nf_post_def)
qed

lemma transfer0_pre: "src \<in> {1, 2} \<Longrightarrow> dest \<in> {1, 2} \<Longrightarrow> nf_pre ttTOKEN_TRANSFER sha0 (transfer0 src dest) (place sha0 entries0)"
proof -
  assume a: "src \<in> {1, 2}" "dest \<in> {1, 2}"
  have "nf_room (registry (map_of entries0))" unfolding nf_room_def entries0_registry by simp
  moreover have "map_of entries0 (nAccount src) \<noteq> None" "map_of entries0 (nAccount dest) \<noteq> None"
    using a by (auto simp: entries0_def)
  ultimately show ?thesis
    using sha0_free entries0_post
    by (simp add: nf_pre_def nf_checked_def TransferToken_preclaim_def nf_keylets view_exists entries0_view transfer0_def)
qed

subsection \<open>Properties\<close>

text \<open>What the ledger records as the holder of a token.\<close>

definition token_holder :: "State \<Rightarrow> nat \<Rightarrow> (nat \<times> int) option" where
  "token_holder m t = map_option (\<lambda>token. (getFieldH256 sfAssetID token, getAccountID sfOwner token)) (peek (nftoken_key t) m)"

lemma token_holder: "token_holder m t = holder (registry (view sha m)) t"
  by (simp add: token_holder_def holder_def registry_def view_def nf_keylet.simps option.map_comp comp_def)

lemma holder_give: "holder (give_token a w t L) z = (if z = t then Some (a, w) else holder L z)"
  by (simp add: holder_def give_token_def enum_push_def)

lemma holder_take: "enum_ok (owned L) \<Longrightarrow> e_pos (owned L) t = Some ((a, w), j) \<Longrightarrow>
    holder (take_token a w t L) z = (if z = t then None else holder L z)"
  using enum_remove_pos [of "owned L" t "(a, w)" j z] by (auto simp: holder_def take_token_def Let_def)

lemma holder_spec_other:
  assumes i: "nf_pre ty sha tx m" and d: "nf_doApply ty sha tx m = Inr (tesSUCCESS, m')"
    and z: "holder (nf_spec ty sha tx (registry (view sha m))) z \<noteq> holder (registry (view sha m)) z"
  shows "may_move ty sha tx m z"
proof -
  let ?L = "registry (view sha m)"
  note ok = nf_okD(2) [OF nf_startD(3) [OF nf_pre_start [OF i]]]
  obtain t where t: "tokenKey sha tx = nf_keylet sha (nToken t)" by (rule tokenKey)
  have D: "z = t \<and> (\<exists>token asset. view sha m (nToken t) = Some token \<and> view sha m (nAsset (getFieldH256 sfAssetID token)) = Some asset \<and> perm token asset)"
    if "DestroyToken_doApply sha perm tx m = Inr (tesSUCCESS, m')"
      "holder (let t = kl_key (tokenKey sha tx); (a, w) = the (holder ?L t) in destroy_token a w t ?L) z \<noteq> holder ?L z" for perm
  proof -
    from DestroyToken_success [OF that(1) t] obtain token asset where k: "view sha m (nToken t) = Some token"
      "view sha m (nAsset (getFieldH256 sfAssetID token)) = Some asset" "perm token asset" by blast
    have "holder (destroy_token (getFieldH256 sfAssetID token) (getAccountID sfOwner token) t ?L) z = (if z = t then None else holder ?L z)"
      using holder_take [OF ok] token_places [OF k(1)] by (simp add: destroy_token_def holder_def)
    then show ?thesis using that(2) k by (simp add: t holder_token split: if_splits)
  qed
  show ?thesis
  proof (cases ty)
    case ttASSET_CREATE
    then show ?thesis using z by (simp add: create_asset_def holder_def)
  next
    case ttASSET_DESTROY
    then show ?thesis using z by (simp add: destroy_asset_def holder_def)
  next
    case ttTOKEN_CREATE
    then have "z = getNFTokenIndex sha (getFieldH256 sfAssetID (tx_fields tx)) (getFieldVL sfIdent (tx_fields tx))"
      using z holder_give by (auto simp: create_token_def holder_def give_token_def enum_push_def split: if_splits)
    then show ?thesis using CreateToken_success [of sha tx m m'] d ttTOKEN_CREATE by (simp add: may_move_def)
  next
    case ttTOKEN_TRANSFER
    then have "TransferToken_doApply sha tx m = Inr (tesSUCCESS, m')" using d by simp
    from TransferToken_success [OF this t] obtain token asset where k: "view sha m (nToken t) = Some token"
      "view sha m (nAsset (getFieldH256 sfAssetID token)) = Some asset" "TransferToken_checkPermission sha tx m token asset" by blast
    have "z = t" using z ttTOKEN_TRANSFER k(1) holder_take [OF ok] token_places [OF k(1)]
      by (auto simp: t holder_token transfer_token_def holder_give split: if_splits)
    then show ?thesis using k t ttTOKEN_TRANSFER unfolding may_move_def TransferToken_checkPermission_def SetToken_checkPermission_def
      by (simp add: Let_def nf_keylets view_def [symmetric])
  next
    case ttTOKEN_DESTROY
    then show ?thesis using D [of "DestroyToken_checkPermission tx"] d z t by (auto simp: may_move_def DestroyToken_checkPermission_def)
  next
    case ttTOKEN_REVOKE
    then show ?thesis using D [of "RevokeToken_checkPermission tx"] d z t by (auto simp: may_move_def RevokeToken_checkPermission_def)
  qed (use z in simp_all)
qed



text \<open>
  C3. In every ledger that arises from one without assets, the enumerations are exact: the tokens
  of an asset, and the tokens of each of its holders, are listed once each and as many as the
  counters say, the assets of an account are listed once each, and the owners of an asset are its
  issuer and the holders of its tokens.
\<close>
theorem ledger_enumerations_exact:
  assumes c: "collision_free sha" and r: "nf_reachable sha m" and L: "L = registry (view sha m)"
  shows "distinct (elems (tokens_of L) a) \<and> distinct (elems (owned L) (a, w)) \<and> distinct (elems (assets_of L) w) \<and>
    set (elems (tokens_of L) a) = {t. \<exists>v. token_holder m t = Some (a, v)} \<and>
    set (elems (owned L) (a, w)) = {t. token_holder m t = Some (a, w)} \<and>
    set (elems (assets_of L) w) = {(b, w) | b. exists (nfasset_owner sha b w) m} \<and>
    int (length (elems (tokens_of L) a)) = u64_of sfTokenNumber (peek (nfasset_key a) m) \<and>
    int (length (elems (owned L) (a, w))) = u64_of sfTokenNumber (peek (nfasset_owner sha a w) m) \<and>
    int (length (elems (assets_of L) w)) = u64_of sfAssetNumber (peek (keylet_account sha w) m) \<and>
    (exists (nfasset_owner sha a w) m \<longleftrightarrow>
       map_option (getAccountID sfIssuer) (peek (nfasset_key a) m) = Some w \<or> (\<exists>t. token_holder m t = Some (a, w)))"
proof -
  have ok: "nf_ok L" using reachable_post [OF r c] by (simp add: nf_post_def L)
  note e = nf_okD [OF ok] and lk = registry_linked [of "view sha m", folded L]
  have h: "token_holder m t = Some (b, v) \<longleftrightarrow> (\<exists>i. e_pos (owned L) t = Some ((b, v), i))" for t b v
    by (auto simp: token_holder [of m t sha] holder_def L)
  have tk: "(\<exists>i. e_pos (tokens_of L) t = Some (b, i)) \<longleftrightarrow> (\<exists>v. token_holder m t = Some (b, v))" for t b
    by (auto simp: token_holder [of m t sha] holder_def L registry_def)
  have own: "(\<exists>i. e_pos (assets_of L) x = Some (w, i)) \<longleftrightarrow> snd x = w \<and> exists (nfasset_owner sha (fst x) w) m" for x
    by (cases x) (auto simp: L registry_def nf_keylets view_exists)
  have cnt: "e_count (owned L) (a, w) = u64_of sfTokenNumber (peek (nfasset_owner sha a w) m)"
    "e_count (tokens_of L) a = u64_of sfTokenNumber (peek (nfasset_key a) m)"
    "e_count (assets_of L) w = u64_of sfAssetNumber (peek (keylet_account sha w) m)"
    by (simp_all add: L registry_def view_def nf_keylet.simps)
  have len: "int (length (elems E d)) = e_count E d" if "enum_ok E" for E :: "('c, 'x) Enum" and d
    using enum_okD(3) [OF that] by (simp add: length_elems)
  have iss: "map_option (getAccountID sfIssuer) (peek (nfasset_key a) m) = issuer_of L a"
    by (simp add: L registry_def view_def nf_keylet.simps)
  have pos: "0 < e_count (owned L) (a, w) \<longleftrightarrow> (\<exists>t. token_holder m t = Some (a, w))"
    unfolding h slots.member_iff [OF e(2), symmetric] using length_elems [of "owned L" "(a, w)"] by (cases "elems (owned L) (a, w)") auto
  have S: "set (elems (tokens_of L) a) = {t. \<exists>v. token_holder m t = Some (a, v)}"
    "set (elems (owned L) (a, w)) = {t. token_holder m t = Some (a, w)}"
    "set (elems (assets_of L) w) = {(b, w) | b. exists (nfasset_owner sha b w) m}"
    by (auto simp: slots.member_iff e(1-3) tk own simp flip: h)
  have "exists (nfasset_owner sha a w) m \<longleftrightarrow>
      map_option (getAccountID sfIssuer) (peek (nfasset_key a) m) = Some w \<or> (\<exists>t. token_holder m t = Some (a, w))"
    using e(4) [of a w] unfolding iss pos by (simp add: L registry_owner nf_keylets view_exists)
  then show ?thesis using slots.distinct_list [OF e(1)] slots.distinct_list [OF e(2)] slots.distinct_list [OF e(3)] S
    by (simp add: len e(1-3) cnt)
qed

theorem ledger_enumerations_exact_witness:
  "set (elems (tokens_of (registry (view sha0 (place sha0 [(nAccount 1, no_fields)])))) 5) =
    {t. \<exists>v. token_holder (place sha0 [(nAccount 1, no_fields)]) t = Some (5, v)}"
proof -
  have "nf_wf sha0 (place sha0 [(nAccount 1, no_fields)]) \<and>
      view sha0 (place sha0 [(nAccount 1, no_fields)]) = map_of [(nAccount 1, no_fields)]"
    by (rule place_view [OF sha0_free]) simp
  then have "nf_genesis sha0 (place sha0 [(nAccount 1, no_fields)])"
    unfolding nf_genesis_def by (auto simp: u64_of_def)
  from ledger_enumerations_exact [OF sha0_free genesis [OF this] refl, of 5 1] show ?thesis by blast
qed

text \<open>
  C6. Nobody can take a token: whatever transaction an account sends, a token changes its holder
  only if the transaction names it and the account is its holder, approved for it or an operator of
  the holder (transfer), its holder (destruction) or the issuer of the asset (revocation), and the
  asset was issued with that capability; a new token appears only at the wish of the issuer.
\<close>
theorem tokens_move_with_authority:
  assumes i: "nf_pre ty sha tx m" and d: "nf_doApply ty sha tx m = Inr (ter, m')" and n: "\<not> may_move ty sha tx m t"
  shows "token_holder m' t = token_holder m t"
proof (cases "ter = tesSUCCESS")
  case True
  then have "registry (view sha m') = nf_spec ty sha tx (registry (view sha m))" using nf_doApply_runs [OF i] d by auto
  then show ?thesis using holder_spec_other [OF i, of m' t] d n True by (auto simp: token_holder [of _ _ sha])
next
  case False
  then show ?thesis using nf_doApply_runs [OF i] d by auto
qed

theorem tokens_move_with_authority_witness:
  "\<exists>ter m'. nf_doApply ttTOKEN_TRANSFER sha0 (transfer0 2 2) (place sha0 entries0) = Inr (ter, m') \<and>
    token_holder m' token0 = Some (asset0, 1)"
proof -
  let ?m = "place sha0 entries0"
  have i: "nf_pre ttTOKEN_TRANSFER sha0 (transfer0 2 2) ?m" by (rule transfer0_pre) simp_all
  have n: "\<not> may_move ttTOKEN_TRANSFER sha0 (transfer0 2 2) ?m token0"
    unfolding may_move_def entries0_view by (simp add: entries0_def transfer0_def isFieldPresent_def)
  have h: "token_holder ?m token0 = Some (asset0, 1)"
    by (simp add: token_holder [of _ _ sha0] entries0_view holder_def entries0_registry)
  obtain ter m' where d: "nf_doApply ttTOKEN_TRANSFER sha0 (transfer0 2 2) ?m = Inr (ter, m')" using nf_doApply_runs [OF i] by blast
  from tokens_move_with_authority [OF i d n] d h show ?thesis by auto
qed

lemma TransferToken_outcome:
  assumes "TransferToken_doApply sha tx m = Inr (ter, m')" "ter \<noteq> tefINTERNAL" "tokenKey sha tx = nf_keylet sha (nToken t)"
    "view sha m (nToken t) = Some token" "view sha m (nAsset (getFieldH256 sfAssetID token)) = Some asset"
    "TransferToken_checkPermission sha tx m token asset" "getAccountID sfDestination (tx_fields tx) \<noteq> getAccountID sfOwner token"
  shows "ter = tesSUCCESS"
  using assms unfolding TransferToken_doApply_def Let_def nf_keylet_key [where sha = sha] view_def
  by (auto simp: rbind_Inr_iff split: if_splits option.splits prod.splits)

text \<open>
  C13. The holder of a token can always give it away, if the asset allows transfers and the
  receiver is another existing account: the transaction succeeds, the receiver holds the token and
  has it as the last of its tokens of the asset.
\<close>
theorem holder_can_transfer:
  assumes i: "nf_pre ttTOKEN_TRANSFER sha tx m" and k: "tokenKey sha tx = nftoken_key t"
    and h: "token_holder m t = Some (a, tx_account tx)" and dest: "dest = getAccountID sfDestination (tx_fields tx)" "dest \<noteq> tx_account tx"
    and f: "\<exists>asset. peek (nfasset_key a) m = Some asset \<and> getFieldU32 sfFlags asset AND tfTransferToken \<noteq> 0"
  shows "\<exists>m'. nf_doApply ttTOKEN_TRANSFER sha tx m = Inr (tesSUCCESS, m') \<and> token_holder m' t = Some (a, dest) \<and>
    elems (owned (registry (view sha m'))) (a, dest) = elems (owned (registry (view sha m))) (a, dest) @ [t]"
proof -
  let ?L = "registry (view sha m)" and ?w = "tx_account tx"
  have k': "tokenKey sha tx = nf_keylet sha (nToken t)" "kl_key (tokenKey sha tx) = t" using k by (simp_all add: nf_keylet.simps nftoken_key_def)
  obtain token where tk: "view sha m (nToken t) = Some token" "getFieldH256 sfAssetID token = a" "getAccountID sfOwner token = ?w"
    using h by (auto simp: token_holder_def view_def nf_keylet.simps)
  obtain asset where as: "view sha m (nAsset a) = Some asset" "getFieldU32 sfFlags asset AND tfTransferToken \<noteq> 0"
    using f by (auto simp: view_def nf_keylet.simps)
  obtain ter m' where d: "nf_doApply ttTOKEN_TRANSFER sha tx m = Inr (ter, m')" "ter \<noteq> tefINTERNAL"
    and r: "ter = tesSUCCESS \<longrightarrow> registry (view sha m') = nf_spec ttTOKEN_TRANSFER sha tx ?L" using nf_doApply_runs [OF i] by blast
  have "TransferToken_checkPermission sha tx m token asset"
    using tk as by (simp add: TransferToken_checkPermission_def SetToken_checkPermission_def Let_def)
  then have s: "ter = tesSUCCESS"
    using TransferToken_outcome [OF _ d(2) k'(1) tk(1)] d(1) tk as dest by simp
  have p: "e_pos (owned ?L) t = Some ((a, ?w), getFieldU64 sfOwnerTokenIndex token)" using token_places [OF tk(1)] tk by simp
  note ok = nf_startD(3) [OF nf_pre_start [OF i]] and t = take_token_ok [OF nf_startD(3) [OF nf_pre_start [OF i]] registry_linked p]
  have L': "registry (view sha m') = transfer_token a ?w t dest ?L"
    using r s dest(1) p by (simp add: k'(2) holder_def)
  have "elems (owned (take_token a ?w t ?L)) (a, dest) = elems (owned ?L) (a, dest)"
    using slots.remove_list [OF nf_okD(2) [OF ok] p] p dest(2) by (simp add: take_token_def Let_def)
  then have "elems (owned (registry (view sha m'))) (a, dest) = elems (owned ?L) (a, dest) @ [t]"
    unfolding L' transfer_token_def give_token_def using slots.push_list [OF nf_okD(2) [OF t(1)] t(2)] by simp
  moreover have "token_holder m' t = Some (a, dest)" by (simp add: token_holder [of m' t sha] L' transfer_token_def holder_give)
  ultimately show ?thesis using d(1) s by blast
qed

theorem holder_can_transfer_witness:
  "\<exists>m'. nf_doApply ttTOKEN_TRANSFER sha0 (transfer0 1 2) (place sha0 entries0) = Inr (tesSUCCESS, m') \<and>
    token_holder m' token0 = Some (asset0, 2)"
proof -
  let ?m = "place sha0 entries0"
  have i: "nf_pre ttTOKEN_TRANSFER sha0 (transfer0 1 2) ?m" by (rule transfer0_pre) simp_all
  have k: "tokenKey sha0 (transfer0 1 2) = nftoken_key token0"
    by (simp add: tokenKey_def transfer0_def isFieldPresent_def st_fields)
  have h: "token_holder ?m token0 = Some (asset0, tx_account (transfer0 1 2))"
    by (simp add: token_holder [of _ _ sha0] entries0_view holder_def entries0_registry) (simp add: transfer0_def)
  have d: "2 = getAccountID sfDestination (tx_fields (transfer0 1 2))" "2 \<noteq> tx_account (transfer0 1 2)" by (simp_all add: transfer0_def)
  have "view sha0 ?m (nAsset asset0) = map_of entries0 (nAsset asset0)" by (simp add: entries0_view)
  then have "peek (nfasset_key asset0) ?m = Some (setFieldU32 sfFlags 1 (setAccountID sfIssuer 1 (setFieldU64 sfTokenNumber 1 no_fields)))"
    by (simp add: view_def nf_keylet.simps entries0_def)
  then have "\<exists>asset. peek (nfasset_key asset0) ?m = Some asset \<and> getFieldU32 sfFlags asset AND tfTransferToken \<noteq> 0"
    by (simp add: tfTransferToken_def)
  from holder_can_transfer [OF i k h d this] show ?thesis by blast
qed

end
