(* ===== verification/Spec2Isabelle.thy ===== *)
theory Spec2Isabelle
  imports MulRatio Quality OpenView STAmountWire Signing NFTransact
begin

text \<open>
  A verification development of the ledger core of this repository: the amounts and their wire
  format, the keys and views of the ledger, the signing and fee rules every transaction obeys, and the
  transactions on assets and tokens. Paths below are relative to \<^verbatim>\<open>src/src/mtchain/\<close>.

  \<^bold>\<open>How the parts fit together.\<close> A transaction arrives as bytes and is read into an object whose fields
  are amounts, accounts, hashes and byte strings (\<open>Serializer\<close>, \<open>STAmountWire\<close>, \<open>STObject\<close>). Its
  transactor checks it without the ledger (\<open>nf_preflight\<close>) and then against the
  ledger (\<open>invoke_preclaim\<close>: sequence number, fee scaled by the server's load, signing keys, and the
  check of the transactor). \<open>transact\<close>, the model of \<^verbatim>\<open>Transactor::operator()\<close>, takes the fee and runs the
  handler on a sandbox (\<open>ApplyStateTable\<close>) over an open view (\<open>OpenView\<close>, \<open>RawStateTable\<close>) over
  a ledger (\<open>LedgerView\<close>); each level commits to the one below. Entries are found under keys made by
  hashing their identity (\<open>Indexes\<close>). The theorem of this theory follows a transaction through all
  of these.

  \<^bold>\<open>Theories, sources and what is shown.\<close>

  \<^descr> \<open>Prelude\<close> Result type for exceptions (\<open>exc + 'a\<close>), decimal values \<open>dec m e = m * 10 ^ e\<close>, wrap-around
    at 32 and 64 bits, generic lemmas.

  \<^descr> \<open>IOUAmount\<close> (\<^verbatim>\<open>protocol/impl/IOUAmount.cpp\<close>) \<open>normalize\<close>, addition and order: exact
    characterization of normalization, bounded rounding error of sums, order of values.

  \<^descr> \<open>STAmount\<close>, \<open>STAmountArith\<close>, \<open>STAmountRound\<close> (\<^verbatim>\<open>protocol/impl/STAmount.cpp\<close>) Canonical form, native
    and issued arithmetic, rates, directed rounding: refinement of \<open>IOUAmount\<close>, error bounds,
    round trip and order of 64-bit rates, absence or presence of wrap-around.

  \<^descr> \<open>MulRatio\<close> (\<^verbatim>\<open>basics/impl/mulDiv.cpp\<close>, \<^verbatim>\<open>mulRatio\<close>) and \<open>Quality\<close> (\<^verbatim>\<open>protocol/impl/Quality.cpp\<close>, \<^verbatim>\<open>Rate2.cpp\<close>,
    \<^verbatim>\<open>AmountConversions.h\<close>) Scaling by ratios and the capping of offers.

  \<^descr> \<open>Serializer\<close>, \<open>WireCodec\<close>, \<open>STAmountWire\<close> (\<^verbatim>\<open>protocol/impl/Serializer.cpp\<close>, \<^verbatim>\<open>STAmount::add\<close> and its inverse) The
    locale \<open>codec\<close> is the contract of a writer and its reader; its interpretations for each format give the
    round trip of streams, uniqueness of encodings and memory safety of the readers.

  \<^descr> \<open>SortedMap\<close>, \<open>LedgerView\<close> (\<^verbatim>\<open>app/ledger/Ledger.cpp\<close>, \<^verbatim>\<open>ledger/ReadView.h\<close>, \<^verbatim>\<open>ledger/RawView.h\<close>) The state map
    and the two view interfaces: locales \<open>ordered_map\<close>, \<open>ledger_view\<close> (reading) and \<open>raw_target\<close>
    (raw modification), interpreted by the ledger and by every layer above it.

  \<^descr> \<open>TableSucc\<close>, \<open>RawStateTable\<close>, \<open>SlesIter\<close> (\<^verbatim>\<open>ledger/impl/RawStateTable.cpp\<close>) A table of changes over a view: it
    is a view again, commits what it shows, detects misuse, and its merging iterator ends and visits every
    entry once.

  \<^descr> \<open>ApplyStateTable\<close> (\<^verbatim>\<open>ledger/impl/ApplyStateTable.cpp\<close>, \<^verbatim>\<open>ApplyViewBase.cpp\<close>) The sandbox with its shared
    pointers as an explicit heap: any session of \<^verbatim>\<open>peek\<close>, write, \<^verbatim>\<open>update\<close>, \<^verbatim>\<open>insert\<close>, \<^verbatim>\<open>erase\<close> commits as
    the same operations on the state map, and stacks of sandboxes commit level by level.

  \<^descr> \<open>OpenView\<close> (\<^verbatim>\<open>ledger/impl/OpenView.cpp\<close>) State changes and transactions over a ledger; the locale
    \<open>txs_target\<close> extends \<open>raw_target\<close> by transactions.

  \<^descr> \<open>Indexes\<close> (\<^verbatim>\<open>protocol/impl/Indexes.cpp\<close>) All keys: different entries have different keys, keys of order
    books are ordered by quality.

  \<^descr> \<open>STObject\<close> (\<^verbatim>\<open>protocol/impl/STObject.cpp\<close>, \<^verbatim>\<open>protocol/TER.h\<close>) Fields, result codes and the state a
    transactor works on, justified by the theorem on sessions.

  \<^descr> \<open>LoadFeeTrack\<close> (\<^verbatim>\<open>app/misc/impl/LoadFeeTrack.cpp\<close>) Scaling of fees with all its errors; local fees stay in
    bounds and recover.

  \<^descr> \<open>Transactor\<close> (\<^verbatim>\<open>app/tx/impl/Transactor.cpp\<close>) The locale \<open>handler\<close> is the contract between \<^verbatim>\<open>operator()\<close> and
    a transactor, \<open>session_handler\<close> adds that its writes are a session. Proved once for both: fees
    are accounted for, the sum of balances is constant, sequence numbers advance.

  \<^descr> \<open>Signing\<close> (\<^verbatim>\<open>Transactor::checkSign\<close>, \<^verbatim>\<open>protocol/impl/STTx.cpp\<close>, \<^verbatim>\<open>SignerEntries.cpp\<close>, \<^verbatim>\<open>SetSignerList.cpp\<close>,
    \<^verbatim>\<open>SetRegularKey.cpp\<close>, \<^verbatim>\<open>invoke_preclaim\<close>) Multi-signing accepts exactly the transactions that reach the quorum;
    \<^verbatim>\<open>SetRegularKey\<close>, an interpretation of \<open>session_handler\<close>, takes effect and never locks an account.

  \<^descr> \<open>Enumeration\<close>, \<open>NFSpec\<close> Counted collections with removal by moving the last member (locale
    \<open>enumerable\<close>), and the abstract registry of assets and tokens built from three of them.

  \<^descr> \<open>NFAsset\<close>, \<open>NFToken\<close> (\<^verbatim>\<open>app/tx/impl/NFAsset.cpp\<close>, \<^verbatim>\<open>NFToken.cpp\<close>, dispatch in \<^verbatim>\<open>applySteps.cpp\<close>) The twelve
    transactors, statement by statement.

  \<^descr> \<open>NFView\<close>, \<open>NFLedger\<close>, \<open>NFTransact\<close> The proof that the transactors implement the registry: \<open>view\<close> reads the
    entries of a state by identity, \<open>does\<close> is total correctness of a step, \<open>registry\<close> the
    abstraction. Every transaction implements its specification, reachable ledgers
    enumerate exactly what exists, tokens move only with authority, and their holder can move them.

  \<^bold>\<open>Conventions.\<close> Fixed-width integers are \<open>int\<close> with \<open>u32\<close>, \<open>u64\<close>, \<open>s64\<close> written out where the source computes at
    that width, and \<open>word\<close> where it works on bits. Exceptions, null dereferences and failed
    consistency checks are values \<open>Inl\<close>. Accounts and currencies are numbers of 160 bits, keys numbers.

  \<^bold>\<open>Parameters.\<close> Code that is not in the repository is an argument of the definitions: the hash function
  \<open>sha\<close> on lists of hashed values, with \<open>collision_free\<close> as its hypothesis (witnessed by
  \<open>sha0\<close>); the signature scheme \<open>verify\<close>; the account \<open>calc\<close> of a public key; the serialized unsigned
  fields \<open>flds\<close>; the narrowing conversion of the multiprecision library in \<open>MulRatio\<close>.

  \<^bold>\<open>Bounds.\<close> No definition uses fuel. Loops are total functions with a termination proof, except
  \<open>base_succ\<close> and \<open>visit_range\<close>, which are partial because a view could misbehave;
  their theorems show that they return on every view that keeps the contract. Counters of
  assets and tokens are assumed below \<open>2 ^ 64 - 1\<close> (\<open>nf_room\<close>) and memos below the size that can be written
  (\<open>short_memos\<close>, 918744 bytes); balances add up to at most the largest native amount (\<open>balances_ok\<close>).
  Weights of signers are 16 bits, so eight of them do not wrap the 32-bit sum.

  \<^bold>\<open>Not modelled.\<close> Transactors other than those above, with trust lines, directories and the payment engine
  they use: replacing a signer list is among them because it writes an owner directory. Transaction metadata, which
  is output only. The tree structure of \<^verbatim>\<open>SHAMap\<close>, its caches and synchronization: the
  ledger is taken over an ordered map. Templates, parsing and JSON of objects. Consensus, the
  transaction queue, the network, RPC, storage and cryptography, which are concurrent, input and
  output, or calls into libraries. Mutexes: each modelled operation holds its lock throughout.
\<close>

subsection \<open>A transaction from the checks to the ledger\<close>

text \<open>Every check of the form of a transaction starts with that of account, fee and key.\<close>

lemma nf_preflight_first: "nf_preflight ty cx tx = Inr tesSUCCESS \<Longrightarrow> preflight1 tx = Inr tesSUCCESS"
  by (cases ty) (auto simp: CreateAsset_preflight_def CreateToken_preflight_def ApproveAsset_preflight_def
      DestroyAsset_preflight_def DestroyToken_preflight_def rbind_Inr_iff split: if_splits)

text \<open>Changes that are operations of a session, with the report of a fee, commit to the ledger.\<close>

lemma by_ops_commit:
  assumes l: "ledger_ok l" and o: "by_ops (map_of (stateMap l)) m'"
  shows "\<exists>xs t h' l'. run_ops (ledger_as_view l) (xs @ [OpFee d]) (\<lparr>at_items = [], at_dropsDestroyed = 0\<rparr>, h) = Inr (t, h') \<and>
    ast_apply ledger_raw h' t l = Inr l' \<and> ledger_ok l' \<and> map_of (stateMap l') = m' \<and> info_feePool l' = info_feePool l + d"
proof -
  obtain xs where x: "\<forall>x \<in> set xs. op_keys x \<and> op_fee x = 0" "m' = fold do_op xs (map_of (stateMap l))"
    using o by (auto simp: by_ops_def)
  then have k: "\<forall>x \<in> set (xs @ [OpFee d]). op_keys x" by simp
  from ledger_view.run_ops_does [OF ledger_view_ledger [OF l] empty_table(1) [of h] k]
  obtain tb h' where 1: "run_ops (ledger_as_view l) (xs @ [OpFee d]) (\<lparr>at_items = [], at_dropsDestroyed = 0\<rparr>, h) = Inr (tb, h')"
    "ast_ok tb h' (map_of (stateMap l))" "ast_abs tb h' (map_of (stateMap l)) = fold do_op (xs @ [OpFee d]) (map_of (stateMap l))"
    "at_dropsDestroyed tb = sum_list (map op_fee (xs @ [OpFee d]))" by (auto simp: empty_table(2))
  have z: "sum_list (map op_fee xs) = 0" using x(1) by (induction xs) auto
  from ledger.ast_apply_shown [OF l 1(2)] obtain l' where "ast_apply ledger_raw h' tb l = Inr l'" "ledger_ok l'"
    "map_of (stateMap l') = m'" "info_feePool l' = info_feePool l + d"
    using 1(3,4) x(2) z by auto
  with 1(1) show ?thesis by blast
qed


text \<open>The example ledger of \<open>NFTransact\<close>, and what a transfer in it needs.\<close>

lemma map_of_fold_put:
  "smap_ok xs \<Longrightarrow> map_of (fold (\<lambda>e. smap_put (sle_key e) e) es xs) = fold (\<lambda>e m. m(sle_key e \<mapsto> e)) es (map_of xs)"
  by (induction es arbitrary: xs) (simp_all add: smap_ok_put map_of_smap_put)

definition ledger0 :: "STObject Ledger" where
  "ledger0 = ledger_of (rev (map (\<lambda>(x, obj). make_sle (nf_keylet sha0 x) obj) entries0)) 0"

lemma ledger0_state: "map_of (stateMap ledger0) = place sha0 entries0"
proof -
  have "fold (\<lambda>e m. m(sle_key e \<mapsto> e)) (rev (map (\<lambda>(x, obj). make_sle (nf_keylet sha0 x) obj) xs)) Map.empty = place sha0 xs" for xs
    by (induction xs) (auto simp: make_sle_def fun_eq_iff)
  then show ?thesis by (simp add: ledger0_def ledger_of_def map_of_fold_put)
qed

lemma entries0_balances: "balances (place sha0 entries0) =
    [getAccountRootIndex sha0 2 \<mapsto> drops_amount 500, getAccountRootIndex sha0 1 \<mapsto> drops_amount 1000]"
proof -
  have "balances Map.empty = Map.empty" by (simp add: balances_def fun_eq_iff)
  moreover have "kl_type (nf_keylet sha0 (nAccount w)) = ltACCOUNT_ROOT" "kl_key (nf_keylet sha0 (nAccount w)) = getAccountRootIndex sha0 w" for w
    by (simp_all add: nf_keylet.simps keylet_account_def)
  moreover have "kl_type (nf_keylet sha0 x) = ltACCOUNT_ROOT \<longleftrightarrow> (\<exists>w. x = nAccount w)" for x using not_account [of sha0 x] by blast
  ultimately show ?thesis
    unfolding entries0_def place.simps balances_upd
    by (simp add: st_fields fun_eq_iff)
qed

lemma entries0_funds:
  "balances_ok (balances (place sha0 entries0))" "balances (place sha0 entries0) (getAccountRootIndex sha0 (cx_genesis context0)) \<noteq> None"
proof -
  have k: "getAccountRootIndex sha0 1 \<noteq> getAccountRootIndex sha0 2" using account_keys(1) [OF sha0_free] by simp
  show "balances_ok (balances (place sha0 entries0))"
    unfolding balances_ok_def total_def entries0_balances using k
    by (auto simp: balance_ok_def drops_amount_def cMaxNativeN_def)
  show "balances (place sha0 entries0) (getAccountRootIndex sha0 (cx_genesis context0)) \<noteq> None"
    unfolding entries0_balances by (simp add: context0_def)
qed

lemma transfer0_checks:
  "nf_preflight ttTOKEN_TRANSFER context0 (transfer0 1 2) = Inr tesSUCCESS"
  "invoke_preclaim sha0 (\<lambda>spk. uint (last spk)) False context0 (transfer0 1 2) (calculateBaseFee context0 (transfer0 1 2))
     (nf_preclaim ttTOKEN_TRANSFER sha0 (transfer0 1 2)) (place sha0 entries0) = Inr (tesSUCCESS, 10)"
proof -
  let ?tx = "transfer0 1 2" and ?m = "place sha0 entries0"
  have t: "tx_account ?tx = 1" "getFieldVL sfSigningPubKey (tx_fields ?tx) = signer_key0 1"
    "getFieldAmount sfFee (tx_fields ?tx) = drops_amount 10" "tx_id ?tx = 1" "isFieldPresent sfTokenID (tx_fields ?tx)"
    "getFieldU32 sfSequence (tx_fields ?tx) = 1" "\<not> isFieldPresent sfAccountTxnID (tx_fields ?tx)"
    "\<not> isFieldPresent sfLastLedgerSequence (tx_fields ?tx)"
    "\<not> isFieldPresent sfPayees (tx_fields ?tx)" "\<not> isFieldPresent sfSigners (tx_fields ?tx)"
    by (simp_all add: transfer0_def st_fields)
  have key: "publicKeyType (signer_key0 1)" "last (signer_key0 1) = 1" by (simp_all add: publicKeyType_def signer_key0_def)
  have d: "to_m (drops_amount d) = Inr d" if "0 \<le> d" "d \<le> 1000" for d
    using that by (simp add: to_m_def drops_amount_def s64_def)
  show "nf_preflight ttTOKEN_TRANSFER context0 ?tx = Inr tesSUCCESS"
    using d [of 10] key by (simp add: DestroyToken_preflight_def preflight1_def preflight0_def preflight2_def t context0_def
        drops_amount_def isLegalAmount_def SYSTEM_CURRENCY_START_def)
  have "view sha0 ?m (nAccount 1) = map_of entries0 (nAccount 1)" by (simp only: entries0_view(2))
  then obtain root where p: "peek (keylet_account sha0 1) ?m = Some root" "getFieldU32 sfSequence root = 1"
    "getFieldAmount sfBalance root = drops_amount 1000" "getFlags root = 0"
    by (simp add: view_def entries0_def nf_keylet.simps st_fields)
  have i: "nf_preclaim ttTOKEN_TRANSFER sha0 ?tx ?m = tesSUCCESS"
    using transfer0_pre [of 1 2] by (simp add: nf_pre_def nf_checked_def)
  have b: "calculateBaseFee context0 ?tx = 10" by (simp add: t calculateBaseFee_def context0_def u64_def)
  show "invoke_preclaim sha0 (\<lambda>spk. uint (last spk)) False context0 ?tx (calculateBaseFee context0 ?tx)
     (nf_preclaim ttTOKEN_TRANSFER sha0 ?tx) ?m = Inr (tesSUCCESS, 10)"
    unfolding b using d [of 10] d [of 1000] context0_fee i
    by (simp add: invoke_preclaim_def t checkSeq_def p checkFee_def calculateFeePaid_def isLegalAmount_def SYSTEM_CURRENCY_START_def
        checkSign_def checkSingleSign_def key isFlag_def lsfDisableMaster_def)
qed


end
